(* ===== verification/Js_Prelude.thy ===== *)
theory Js_Prelude
  imports Complex_Main "HOL-Library.Word"
begin

text \<open>
  Shared vocabulary of the development: the JavaScript values the modelled code
  computes with (bytes, 32-bit integers, typed arrays), errors as values of a sum
  type, and the generic lemmas about them that the component theories use.

  A \<open>Uint8Array\<close> is a list of 8-bit words.  An element store past the end of a typed
  array is ignored by JavaScript, which is exactly what \<^term>\<open>list_update\<close> does; an
  element read past the end gives \<open>undefined\<close>, which every use in the modelled code
  turns into 0 (by a bitwise operator or by a store into a typed array):
  that is \<open>rd\<close> below.
\<close>

unbundle bit_operations_syntax

named_theorems js_simps \<open>unfolding rules for the typed-array vocabulary\<close>

type_synonym u8 = "8 word"
type_synonym u32 = "32 word"
type_synonym bytes = "8 word list"

section \<open>Errors as values\<close>

datatype js_error =
    RangeError
  | TypeError
  | FormatError string
  | PasswordException nat
  | JsError string

type_synonym 'a res = "js_error + 'a"

definition rbind :: "'a res \<Rightarrow> ('a \<Rightarrow> 'b res) \<Rightarrow> 'b res" where
  "rbind m f = (case m of Inl e \<Rightarrow> Inl e | Inr x \<Rightarrow> f x)"

lemma rbind_simps [simp]: "rbind (Inl e) f = Inl e" "rbind (Inr x) f = f x"
  by (simp_all add: rbind_def)

lemma rbind_eq_Inr: "rbind m f = Inr y \<longleftrightarrow> (\<exists>x. m = Inr x \<and> f x = Inr y)"
  by (cases m) auto

lemma rbind_eq_Inl: "rbind m f = Inl e \<longleftrightarrow> m = Inl e \<or> (\<exists>x. m = Inr x \<and> f x = Inl e)"
  by (cases m) auto

lemma rbind_cong [fundef_cong]:
  "m = m' \<Longrightarrow> (\<And>x. m' = Inr x \<Longrightarrow> f x = g x) \<Longrightarrow> rbind m f = rbind m' g"
  by (cases m') auto

definition is_ok :: "'a res \<Rightarrow> bool" where
  "is_ok r = (case r of Inl _ \<Rightarrow> False | Inr _ \<Rightarrow> True)"

lemma is_ok_simps [simp]: "\<not> is_ok (Inl e)" "is_ok (Inr x)"
  by (simp_all add: is_ok_def)

text \<open>A computation that may fail and may also run out of fuel, which is \<open>None\<close>.\<close>

definition fbind :: "'a res option \<Rightarrow> ('a \<Rightarrow> 'b res option) \<Rightarrow> 'b res option" where
  "fbind m f = (case m of None \<Rightarrow> None | Some (Inl e) \<Rightarrow> Some (Inl e) | Some (Inr x) \<Rightarrow> f x)"

lemma fbind_simps [simp]: "fbind None f = None" "fbind (Some (Inl e)) f = Some (Inl e)" "fbind (Some (Inr x)) f = f x"
  by (simp_all add: fbind_def)

lemma fbind_eq_None: "fbind m f = None \<longleftrightarrow> m = None \<or> (\<exists>x. m = Some (Inr x) \<and> f x = None)"
  by (simp add: fbind_def split: option.split sum.split)

lemma fbind_eq_Inr: "fbind m f = Some (Inr y) \<longleftrightarrow> (\<exists>x. m = Some (Inr x) \<and> f x = Some (Inr y))"
  by (simp add: fbind_def split: option.split sum.split)

lemma fbind_cong [fundef_cong]:
  "m = m' \<Longrightarrow> (\<And>x. m' = Some (Inr x) \<Longrightarrow> f x = g x) \<Longrightarrow> fbind m f = fbind m' g"
  by (auto simp: fbind_def split: option.split sum.split)

section \<open>Typed arrays\<close>

definition rd :: "'a::len word list \<Rightarrow> nat \<Rightarrow> 'a word" where
  "rd xs i = (if i < length xs then xs ! i else 0)"

text \<open>Reading at a possibly negative index.\<close>

definition rdi :: "'a::len word list \<Rightarrow> int \<Rightarrow> 'a word" where
  "rdi xs i = (if 0 \<le> i then rd xs (nat i) else 0)"

text \<open>\<open>new Uint8Array(n)\<close>.\<close>

definition zeros :: "nat \<Rightarrow> 'a::len word list" where
  "zeros n = replicate n 0"

text \<open>\<open>dst.set(src, off)\<close>: copies the whole source or raises a RangeError.\<close>

definition blit :: "'a list \<Rightarrow> 'a list \<Rightarrow> nat \<Rightarrow> 'a list" where
  "blit dst src off = take off dst @ src @ drop (off + length src) dst"

definition arr_set :: "'a list \<Rightarrow> 'a list \<Rightarrow> nat \<Rightarrow> 'a list res" where
  "arr_set dst src off =
     (if off + length src \<le> length dst then Inr (blit dst src off) else Inl RangeError)"

text \<open>\<open>xs.fill(v, from, to)\<close> with clamped bounds.\<close>

definition arr_fill :: "'a list \<Rightarrow> 'a \<Rightarrow> nat \<Rightarrow> nat \<Rightarrow> 'a list" where
  "arr_fill xs v f t =
     (let t' = min t (length xs)
      in if f < t' then take f xs @ replicate (t' - f) v @ drop t' xs else xs)"

text \<open>\<open>xs.subarray(b, e)\<close> with JavaScript's treatment of negative and large bounds.\<close>

definition js_index :: "nat \<Rightarrow> int \<Rightarrow> nat" where
  "js_index n b = (if b < 0 then nat (max (int n + b) 0) else min (nat b) n)"

definition subarray :: "'a list \<Rightarrow> int \<Rightarrow> int \<Rightarrow> 'a list" where
  "subarray xs b e =
     (let b' = js_index (length xs) b; e' = js_index (length xs) e
      in take (e' - b') (drop b' xs))"

lemma rd_in [simp]: "i < length xs \<Longrightarrow> rd xs i = xs ! i"
  by (simp add: rd_def)

lemma rd_out [simp]: "length xs \<le> i \<Longrightarrow> rd xs i = 0"
  by (simp add: rd_def)

lemma rdi_int [simp]: "rdi xs (int i) = rd xs i"
  by (simp add: rdi_def)

lemma length_zeros [simp]: "length (zeros n) = n"
  by (simp add: zeros_def)

lemma nth_zeros [simp]: "i < n \<Longrightarrow> zeros n ! i = 0"
  by (simp add: zeros_def)

lemma rd_zeros [simp]: "rd (zeros n) i = 0"
  by (simp add: rd_def)

lemma zeros_append [simp]: "zeros a @ zeros b = zeros (a + b)"
  by (simp add: zeros_def replicate_add)

lemma drop_zeros [simp]: "drop k (zeros n) = zeros (n - k)"
  by (simp add: zeros_def)

lemma zeros_Suc: "zeros (Suc n) = 0 # zeros n"
  by (simp add: zeros_def)

lemma length_blit [simp]: "off + length src \<le> length dst \<Longrightarrow> length (blit dst src off) = length dst"
  by (simp add: blit_def)

lemma take_blit [simp]: "off + length src \<le> length dst \<Longrightarrow>
    take (off + length src) (blit dst src off) = take off dst @ src"
  by (simp add: blit_def)

lemma nth_blit: "off + length src \<le> length dst \<Longrightarrow> i < length dst \<Longrightarrow>
    blit dst src off ! i =
      (if i < off then dst ! i else if i < off + length src then src ! (i - off) else dst ! i)"
  by (auto simp: blit_def nth_append min_def)

lemma arr_set_ok: "off + length src \<le> length dst \<Longrightarrow> arr_set dst src off = Inr (blit dst src off)"
  by (simp add: arr_set_def)

lemma arr_set_Inr: "arr_set dst src off = Inr r \<longleftrightarrow>
    off + length src \<le> length dst \<and> r = blit dst src off"
  by (auto simp: arr_set_def)

lemma blit_same [simp]: "length src = length dst \<Longrightarrow> blit dst src 0 = src"
  by (simp add: blit_def)

lemma subarray_nat: "subarray xs (int a) (int b) = drop a (take b xs)"
  by (cases "a \<le> length xs") (auto simp: subarray_def js_index_def Let_def min_def drop_take)

lemma subarray_0 [simp]: "subarray xs 0 (int n) = take n xs"
  using subarray_nat [of xs 0 n] by simp

lemma length_subarray_nat:
  "length (subarray xs (int a) (int b)) = min b (length xs) - min a (length xs)"
  by (simp add: subarray_def js_index_def Let_def)

lemma subarray_from: "int (length xs) \<le> e \<Longrightarrow> subarray xs (int a) e = drop a xs"
  using subarray_nat [of xs a "nat e"] by (simp add: nat_le_iff le_nat_iff)

lemma length_arr_fill [simp]: "length (arr_fill xs v f t) = length xs"
  by (simp add: arr_fill_def Let_def)

lemma nth_arr_fill: "i < length xs \<Longrightarrow>
    arr_fill xs v f t ! i = (if f \<le> i \<and> i < t then v else xs ! i)"
  by (auto simp: arr_fill_def Let_def nth_append min_def)

lemma take_arr_fill: "f \<le> t \<Longrightarrow> t \<le> length xs \<Longrightarrow>
    take t (arr_fill xs v f t) = take f xs @ replicate (t - f) v"
  by (auto simp: arr_fill_def Let_def)

text \<open>Loops that store one element per step keep the length.\<close>

lemma length_foldl_update: "length (foldl (\<lambda>w j. w[g j := f w j]) ws js) = length ws"
  by (induction js arbitrary: ws) auto

section \<open>Strings\<close>

text \<open>
  A JavaScript string is a sequence of UTF-16 code units; the development writes it as
  a list of natural numbers, and \<open>js\<close> embeds an ASCII literal.
\<close>

type_synonym jsstr = "nat list"

definition js :: "string \<Rightarrow> jsstr" where
  "js s = map (\<lambda>c. of_char c) s"

lemma js_Cons [simp]: "js [] = []" "js (c # s) = of_char c # js s"
  by (simp_all add: js_def)

section \<open>Words\<close>

lemma xor_cancel [simp]:
  fixes a b :: "'a::len word"
  shows "(a XOR b) XOR b = a" and "b XOR (b XOR a) = a"
  by (simp_all add: bit_eq_iff bit_xor_iff, blast+)

lemma map2_xor_cancel [simp]:
  fixes xs ys :: "'a::len word list"
  assumes "length xs \<le> length ys"
  shows "map2 (XOR) (map2 (XOR) xs ys) ys = xs"
  using assms
proof (induction xs arbitrary: ys)
  case Nil
  show ?case by simp
next
  case (Cons x xs)
  then show ?case by (cases ys) auto
qed

lemma u8_less: "unat (x :: u8) < 256"
  using unsigned_less [of x] by simp

lemma u8_all_iff: "(\<forall>x :: u8. P x) \<longleftrightarrow> (\<forall>n < 256. P (of_nat n))"
proof
  assume P: "\<forall>n < 256. P (of_nat n)"
  show "\<forall>x. P x"
  proof
    fix x :: u8
    have "P (of_nat (unat x))" using P u8_less [of x] by blast
    then show "P x" by simp
  qed
qed simp

lemma u8_all_code: "(\<forall>x :: u8. P x) \<longleftrightarrow> list_all (\<lambda>n. P (of_nat n)) [0..<256]"
  by (auto simp: u8_all_iff list_all_iff)

lemma or_push_bit:
  assumes "a < 2 ^ n"
  shows "a OR push_bit n b = a + 2 ^ n * (b :: nat)"
proof -
  have "take_bit n a = a" using assms by (simp add: take_bit_nat_eq_self)
  then have "bit a k \<Longrightarrow> k < n" for k by (metis bit_take_bit_iff)
  then have "a AND push_bit n b = 0" by (auto intro!: bit_eqI simp: bit_and_iff bit_push_bit_iff) fastforce
  then show ?thesis by (simp add: disjunctive_add_eq_or [symmetric] push_bit_eq_mult mult.commute)
qed

end
