(* ===== verification/Js_Numbers.thy ===== *)
theory Js_Numbers
  imports Js_Prelude
begin

text \<open>
  JavaScript Numbers and the conversions to Number that the page code relies on.

  A Number is a rational, an infinity or NaN (the sign of zero is not represented).  The
  exact result of an arithmetic operation on rationals is rounded by an argument \<open>fl\<close>
  of the operation: \<open>fl64\<close> is the rounding of IEEE 754 binary64 (to nearest, ties to
  even, overflow to an infinity), and \<^term>\<open>Num\<close>, which does not round, gives exact
  arithmetic, in which the geometry of the page is stated.  Theorems that hold for every
  \<open>fl\<close> hold for \<open>fl64\<close>.
\<close>

section \<open>Numbers\<close>

datatype js_num = Num rat | NaN | PInf | NInf

type_synonym rounding = "rat \<Rightarrow> js_num"

definition isFinite :: "js_num \<Rightarrow> bool" where
  "isFinite n = (case n of Num _ \<Rightarrow> True | _ \<Rightarrow> False)"

lemma isFinite_simps [simp]: "isFinite (Num x)" "\<not> isFinite NaN" "\<not> isFinite PInf" "\<not> isFinite NInf"
  by (simp_all add: isFinite_def)

lemma isFinite_iff: "isFinite n \<longleftrightarrow> (\<exists>x. n = Num x)"
  by (cases n) auto

fun num_neg :: "js_num \<Rightarrow> js_num" where
  "num_neg (Num x) = Num (- x)"
| "num_neg NaN = NaN"
| "num_neg PInf = NInf"
| "num_neg NInf = PInf"

fun num_add :: "rounding \<Rightarrow> js_num \<Rightarrow> js_num \<Rightarrow> js_num" where
  "num_add fl (Num x) (Num y) = fl (x + y)"
| "num_add fl NaN b = NaN"
| "num_add fl a NaN = NaN"
| "num_add fl PInf NInf = NaN"
| "num_add fl NInf PInf = NaN"
| "num_add fl PInf b = PInf"
| "num_add fl NInf b = NInf"
| "num_add fl a PInf = PInf"
| "num_add fl a NInf = NInf"

definition num_sub :: "rounding \<Rightarrow> js_num \<Rightarrow> js_num \<Rightarrow> js_num" where
  "num_sub fl a b = num_add fl a (num_neg b)"

definition inf_of_sign :: "rat \<Rightarrow> js_num" where
  "inf_of_sign x = (if x = 0 then NaN else if 0 < x then PInf else NInf)"

fun num_mul :: "rounding \<Rightarrow> js_num \<Rightarrow> js_num \<Rightarrow> js_num" where
  "num_mul fl (Num x) (Num y) = fl (x * y)"
| "num_mul fl NaN b = NaN"
| "num_mul fl a NaN = NaN"
| "num_mul fl PInf PInf = PInf"
| "num_mul fl PInf NInf = NInf"
| "num_mul fl NInf PInf = NInf"
| "num_mul fl NInf NInf = PInf"
| "num_mul fl (Num x) PInf = inf_of_sign x"
| "num_mul fl PInf (Num x) = inf_of_sign x"
| "num_mul fl (Num x) NInf = inf_of_sign (- x)"
| "num_mul fl NInf (Num x) = inf_of_sign (- x)"

fun num_div :: "rounding \<Rightarrow> js_num \<Rightarrow> js_num \<Rightarrow> js_num" where
  "num_div fl (Num x) (Num y) = (if y = 0 then inf_of_sign x else fl (x / y))"
| "num_div fl NaN b = NaN"
| "num_div fl a NaN = NaN"
| "num_div fl (Num x) b = Num 0"
| "num_div fl PInf (Num y) = (if 0 \<le> y then PInf else NInf)"
| "num_div fl NInf (Num y) = (if 0 \<le> y then NInf else PInf)"
| "num_div fl a b = NaN"

text \<open>The order of Numbers; every comparison with NaN is false.\<close>

fun num_lt :: "js_num \<Rightarrow> js_num \<Rightarrow> bool" where
  "num_lt (Num x) (Num y) = (x < y)"
| "num_lt NaN b = False"
| "num_lt a NaN = False"
| "num_lt NInf b = (b \<noteq> NInf)"
| "num_lt a NInf = False"
| "num_lt PInf b = False"
| "num_lt a PInf = True"

definition num_le :: "js_num \<Rightarrow> js_num \<Rightarrow> bool" where
  "num_le a b \<longleftrightarrow> num_lt a b \<or> (a = b \<and> a \<noteq> NaN)"

text \<open>\<open>===\<close> on Numbers.\<close>

definition num_eq :: "js_num \<Rightarrow> js_num \<Rightarrow> bool" where
  "num_eq a b \<longleftrightarrow> a = b \<and> a \<noteq> NaN"

definition num_min :: "js_num \<Rightarrow> js_num \<Rightarrow> js_num" where
  "num_min a b = (if a = NaN \<or> b = NaN then NaN else if num_lt b a then b else a)"

definition num_max :: "js_num \<Rightarrow> js_num \<Rightarrow> js_num" where
  "num_max a b = (if a = NaN \<or> b = NaN then NaN else if num_lt a b then b else a)"

fun num_abs :: "js_num \<Rightarrow> js_num" where
  "num_abs (Num x) = Num \<bar>x\<bar>"
| "num_abs NaN = NaN"
| "num_abs PInf = PInf"
| "num_abs NInf = PInf"

fun num_floor :: "js_num \<Rightarrow> js_num" where
  "num_floor (Num x) = Num (of_int \<lfloor>x\<rfloor>)"
| "num_floor a = a"

text \<open>\<open>Math.round\<close>: to the nearest integer, ties towards positive infinity.\<close>

fun num_round :: "js_num \<Rightarrow> js_num" where
  "num_round (Num x) = Num (of_int \<lfloor>x + 1 / 2\<rfloor>)"
| "num_round a = a"

text \<open>\<open>a % b\<close> has the sign of the dividend and is exact.\<close>

definition rat_trunc :: "rat \<Rightarrow> int" where
  "rat_trunc x = (if 0 \<le> x then \<lfloor>x\<rfloor> else \<lceil>x\<rceil>)"

fun num_rem :: "js_num \<Rightarrow> js_num \<Rightarrow> js_num" where
  "num_rem (Num x) (Num y) = (if y = 0 then NaN else Num (x - y * of_int (rat_trunc (x / y))))"
| "num_rem (Num x) PInf = Num x"
| "num_rem (Num x) NInf = Num x"
| "num_rem a b = NaN"

text \<open>The falsy Numbers are 0 and NaN.\<close>

definition num_truthy :: "js_num \<Rightarrow> bool" where
  "num_truthy n \<longleftrightarrow> n \<noteq> Num 0 \<and> n \<noteq> NaN"

lemma num_le_simps [simp]: "num_le (Num x) (Num y) \<longleftrightarrow> x \<le> y" "num_le (Num x) PInf" "num_le NInf (Num x)"
  by (auto simp: num_le_def)

lemma num_min_Num [simp]: "num_min (Num x) (Num y) = Num (min x y)"
  by (auto simp: num_min_def min_def)

lemma num_max_Num [simp]: "num_max (Num x) (Num y) = Num (max x y)"
  by (auto simp: num_max_def max_def)

lemma num_sub_Num [simp]: "num_sub fl (Num x) (Num y) = fl (x - y)"
  by (simp add: num_sub_def)

lemma num_eq_Num [simp]: "num_eq (Num x) (Num y) \<longleftrightarrow> x = y"
  by (simp add: num_eq_def)

lemma num_lt_Num_right: "num_lt a (Num y) \<longleftrightarrow> (case a of Num x \<Rightarrow> x < y | NInf \<Rightarrow> True | _ \<Rightarrow> False)"
  by (cases a) auto

lemma num_abs_nonneg: "n \<noteq> NaN \<Longrightarrow> num_le (Num 0) (num_abs n)"
  by (cases n) auto

lemma clamp_bounds:
  assumes "v \<noteq> NaN" and "lo \<le> hi"
  shows "\<exists>s. num_min (Num hi) (num_max (Num lo) v) = Num s \<and> lo \<le> s \<and> s \<le> hi"
  using assms by (cases v) (auto simp: num_max_def num_min_def)

subsection \<open>IEEE 754 binary64\<close>

definition pow2 :: "int \<Rightarrow> rat" where
  "pow2 e = (if 0 \<le> e then 2 ^ nat e else 1 / 2 ^ nat (- e))"

fun ilog2 :: "nat \<Rightarrow> nat" where
  "ilog2 n = (if n < 2 then 0 else Suc (ilog2 (n div 2)))"

declare ilog2.simps [simp del]

text \<open>The exponent of a positive rational: \<open>pow2 e \<le> x < pow2 (e + 1)\<close>.\<close>

definition rat_exp :: "rat \<Rightarrow> int" where
  "rat_exp x =
     (let (p, q) = quotient_of x;
          e = int (ilog2 (nat p)) - int (ilog2 (nat q))
      in if pow2 e \<le> x then e else e - 1)"

definition round_half_even :: "rat \<Rightarrow> int" where
  "round_half_even x =
     (let f = \<lfloor>x\<rfloor>; r = x - of_int f
      in if r < 1 / 2 then f else if 1 / 2 < r then f + 1 else if even f then f else f + 1)"

definition fl64 :: rounding where
  "fl64 x =
     (if x = 0 then Num 0
      else let q = pow2 (max (rat_exp \<bar>x\<bar>) (- 1022) - 52);
               m = of_int (round_half_even (\<bar>x\<bar> / q)) * q
           in if pow2 1024 \<le> m then (if 0 < x then PInf else NInf)
              else Num (if 0 < x then m else - m))"

text \<open>Integers up to \<open>2 ^ 53\<close> are not rounded.\<close>

lemma ilog2_lt: "n < 2 \<Longrightarrow> ilog2 n = 0"
  by (simp add: ilog2.simps)

lemma ilog2_ge: "2 \<le> n \<Longrightarrow> ilog2 n = Suc (ilog2 (n div 2))"
  by (subst ilog2.simps) simp

lemma ilog2_le: "0 < n \<Longrightarrow> 2 ^ ilog2 n \<le> n"
proof (induction n rule: ilog2.induct)
  case (1 n)
  show ?case
  proof (cases "n < 2")
    case False
    then have "2 ^ ilog2 (n div 2) \<le> n div 2" using 1 by simp
    with False show ?thesis by (simp add: ilog2_ge)
  qed (use 1 in \<open>simp add: ilog2_lt\<close>)
qed

lemma pow2_nat: "pow2 (int n) = 2 ^ n"
  by (simp add: pow2_def)

lemma pow2_neg_nat: "pow2 (- int n) = 1 / 2 ^ n"
  by (cases "n = 0") (simp_all add: pow2_def)

lemma rat_exp_nat: "0 < n \<Longrightarrow> rat_exp (of_nat n) = int (ilog2 n)"
proof -
  assume n: "0 < n"
  have q: "quotient_of (of_nat n) = (int n, 1)"
    using quotient_of_int [of "int n"] by (simp add: of_int_def)
  have "(2 :: rat) ^ ilog2 n \<le> of_nat n"
    using ilog2_le [OF n] by (metis of_nat_le_iff of_nat_numeral of_nat_power)
  then show ?thesis by (simp add: rat_exp_def q ilog2_lt pow2_nat)
qed

lemma round_half_even_int [simp]: "round_half_even (of_int i) = i"
  by (simp add: round_half_even_def)

lemma fl64_nat:
  assumes "n < 2 ^ 53"
  shows "fl64 (of_nat n) = Num (of_nat n)"
proof (cases "n = 0")
  case False
  then have n: "0 < n" by simp
  have "(2 :: nat) ^ ilog2 n < 2 ^ 53" using ilog2_le [OF n] assms by simp
  then have "ilog2 n < 53" by (rule power_less_imp_less_exp [rotated]) simp
  then have e: "ilog2 n \<le> 52" by simp
  let ?q = "pow2 (max (rat_exp (of_nat n)) (- 1022) - 52)"
  have q: "?q = 1 / 2 ^ (52 - ilog2 n)"
    using e pow2_neg_nat [of "52 - ilog2 n"] by (simp add: rat_exp_nat [OF n] of_nat_diff)
  have "of_nat n / ?q = of_int (int n * 2 ^ (52 - ilog2 n))" unfolding q by simp
  then have r: "of_int (round_half_even (of_nat n / ?q)) * ?q = (of_nat n :: rat)"
    unfolding q by (simp only: round_half_even_int) simp
  have "(of_nat n :: rat) < 2 ^ 53" using assms by (metis of_nat_less_iff of_nat_numeral of_nat_power)
  also have "(2 :: rat) ^ 53 \<le> pow2 1024" by (simp add: pow2_def)
  finally have "\<not> pow2 1024 \<le> (of_nat n :: rat)" by simp
  with n r show ?thesis by (simp add: fl64_def Let_def)
qed (simp add: fl64_def)

section \<open>Strings to Numbers\<close>

definition js_space :: "nat \<Rightarrow> bool" where
  "js_space c \<longleftrightarrow> c \<in> {9, 10, 11, 12, 13, 32, 0xa0, 0x1680, 0x2028, 0x2029, 0x202f, 0x205f, 0x3000, 0xfeff}
     \<or> 0x2000 \<le> c \<and> c \<le> 0x200a"

definition trimStart :: "jsstr \<Rightarrow> jsstr" where
  "trimStart s = dropWhile js_space s"

definition js_trim :: "jsstr \<Rightarrow> jsstr" where
  "js_trim s = rev (dropWhile js_space (rev (dropWhile js_space s)))"

definition dec_digit :: "nat \<Rightarrow> bool" where
  "dec_digit c \<longleftrightarrow> 48 \<le> c \<and> c \<le> 57"

definition digits_val :: "nat \<Rightarrow> nat list \<Rightarrow> nat" where
  "digits_val b ds = foldl (\<lambda>a d. a * b + d) 0 ds"

definition dec_val :: "jsstr \<Rightarrow> nat" where
  "dec_val s = digits_val 10 (map (\<lambda>c. c - 48) s)"

text \<open>\<open>Number.parseInt(s, 10)\<close>.\<close>

definition parseInt10 :: "rounding \<Rightarrow> jsstr \<Rightarrow> js_num" where
  "parseInt10 fl s =
     (let t = trimStart s;
          neg = (case t of c # _ \<Rightarrow> c = 45 | [] \<Rightarrow> False);
          u = (case t of c # t' \<Rightarrow> if c = 45 \<or> c = 43 then t' else t | [] \<Rightarrow> t);
          ds = takeWhile dec_digit u
      in if ds = [] then NaN
         else fl (if neg then - of_nat (dec_val ds) else of_nat (dec_val ds)))"

definition hex_val :: "nat \<Rightarrow> nat option" where
  "hex_val c =
     (if 48 \<le> c \<and> c \<le> 57 then Some (c - 48)
      else if 65 \<le> c \<and> c \<le> 70 then Some (c - 55)
      else if 97 \<le> c \<and> c \<le> 102 then Some (c - 87)
      else None)"

text \<open>A literal with a radix prefix: all characters are digits of that radix, at least one.\<close>

definition radix_literal :: "rounding \<Rightarrow> nat \<Rightarrow> jsstr \<Rightarrow> js_num" where
  "radix_literal fl b s =
     (if s \<noteq> [] \<and> list_all (\<lambda>c. case hex_val c of Some d \<Rightarrow> d < b | None \<Rightarrow> False) s
      then fl (of_nat (digits_val b (map (the \<circ> hex_val) s))) else NaN)"

text \<open>\<open>StrUnsignedDecimalLiteral\<close>: the exact value, if the whole string is one.\<close>

definition unsigned_decimal :: "jsstr \<Rightarrow> rat option" where
  "unsigned_decimal s =
     (let ip = takeWhile dec_digit s; r1 = dropWhile dec_digit s;
          (fp, r2) = (case r1 of
              c # t \<Rightarrow> if c = 46 then (takeWhile dec_digit t, dropWhile dec_digit t) else ([], r1)
            | [] \<Rightarrow> ([], []));
          mant = of_nat (dec_val (ip @ fp)) / 10 ^ length fp
      in if ip = [] \<and> fp = [] then None
         else case r2 of
           [] \<Rightarrow> Some mant
         | c # t \<Rightarrow>
             if c = 101 \<or> c = 69 then
               let (neg, ds) = (case t of
                       d # t' \<Rightarrow> if d = 45 then (True, t') else if d = 43 then (False, t') else (False, t)
                     | [] \<Rightarrow> (False, []))
               in if ds \<noteq> [] \<and> list_all dec_digit ds
                  then Some (if neg then mant / 10 ^ dec_val ds else mant * 10 ^ dec_val ds)
                  else None
             else None)"

definition signed_literal :: "rounding \<Rightarrow> bool \<Rightarrow> jsstr \<Rightarrow> js_num" where
  "signed_literal fl neg s =
     (if s = js ''Infinity'' then (if neg then NInf else PInf)
      else case unsigned_decimal s of
             None \<Rightarrow> NaN
           | Some v \<Rightarrow> fl (if neg then - v else v))"

definition stringToNumber :: "rounding \<Rightarrow> jsstr \<Rightarrow> js_num" where
  "stringToNumber fl s =
     (case js_trim s of
        [] \<Rightarrow> Num 0
      | c # t \<Rightarrow>
          if c = 48 \<and> t \<noteq> [] \<and> hd t \<in> {120, 88} then radix_literal fl 16 (tl t)
          else if c = 48 \<and> t \<noteq> [] \<and> hd t \<in> {111, 79} then radix_literal fl 8 (tl t)
          else if c = 48 \<and> t \<noteq> [] \<and> hd t \<in> {98, 66} then radix_literal fl 2 (tl t)
          else if c = 45 then signed_literal fl True t
          else if c = 43 then signed_literal fl False t
          else signed_literal fl False (c # t))"

section \<open>JSON values\<close>

datatype json =
    JNull
  | JBool bool
  | JNum js_num
  | JStr jsstr
  | JArr "json list"
  | JObj "(jsstr \<times> json) list"

fun json_truthy :: "json \<Rightarrow> bool" where
  "json_truthy JNull = False"
| "json_truthy (JBool b) = b"
| "json_truthy (JNum n) = num_truthy n"
| "json_truthy (JStr s) = (s \<noteq> [])"
| "json_truthy (JArr _) = True"
| "json_truthy (JObj _) = True"

text \<open>
  The member of an object, \<open>None\<close> for \<open>undefined\<close>; of two members with the same name the
  parser keeps the last.  Values that are not objects have none of the members read here.
\<close>

definition member :: "json \<Rightarrow> string \<Rightarrow> json option" where
  "member v k = (case v of JObj ms \<Rightarrow> map_of (rev ms) (js k) | _ \<Rightarrow> None)"

text \<open>
  \<open>Number(v)\<close>.  An array is converted through its string, the comma-separated strings of
  its elements: without elements that is the empty string, with one element the string of
  that element, and with more it contains a comma and is not a number.
\<close>

fun toNumber :: "rounding \<Rightarrow> json \<Rightarrow> js_num" where
  "toNumber fl JNull = Num 0"
| "toNumber fl (JBool b) = Num (if b then 1 else 0)"
| "toNumber fl (JNum n) = n"
| "toNumber fl (JStr s) = stringToNumber fl s"
| "toNumber fl (JObj _) = NaN"
| "toNumber fl (JArr []) = Num 0"
| "toNumber fl (JArr [JBool b]) = NaN"
| "toNumber fl (JArr [v]) = toNumber fl v"
| "toNumber fl (JArr (u # v # ws)) = NaN"

definition toNumber_opt :: "rounding \<Rightarrow> json option \<Rightarrow> js_num" where
  "toNumber_opt fl v = (case v of None \<Rightarrow> NaN | Some j \<Rightarrow> toNumber fl j)"

end
