(* ===== verification/Viewport.thy ===== *)
theory Viewport
  imports Js_Numbers
begin

text \<open>
  The geometry of a page: the matrix helpers of class \<open>Util\<close> and class \<open>PageViewport\<close>
  of the display layer (\<open>build/pdf.mjs\<close>), through which the highlight overlay converts
  PDF user-space coordinates to pixels.  Every arithmetic operation takes the rounding
  \<open>fl\<close>; the geometric facts are proved for exact arithmetic (\<open>fl = Num\<close>).
\<close>

section \<open>Util\<close>

type_synonym matrix = "js_num \<times> js_num \<times> js_num \<times> js_num \<times> js_num \<times> js_num"
type_synonym point = "js_num \<times> js_num"
type_synonym rect4 = "js_num \<times> js_num \<times> js_num \<times> js_num"

definition util_transform :: "rounding \<Rightarrow> matrix \<Rightarrow> matrix \<Rightarrow> matrix" where
  "util_transform fl m1 m2 =
     (let (a0, a1, a2, a3, a4, a5) = m1; (b0, b1, b2, b3, b4, b5) = m2;
          add = num_add fl; mul = num_mul fl
      in (add (mul a0 b0) (mul a2 b1),
          add (mul a1 b0) (mul a3 b1),
          add (mul a0 b2) (mul a2 b3),
          add (mul a1 b2) (mul a3 b3),
          add (add (mul a0 b4) (mul a2 b5)) a4,
          add (add (mul a1 b4) (mul a3 b5)) a5))"

definition applyTransform :: "rounding \<Rightarrow> point \<Rightarrow> matrix \<Rightarrow> point" where
  "applyTransform fl p m =
     (let (p0, p1) = p; (m0, m1, m2, m3, m4, m5) = m; add = num_add fl; mul = num_mul fl
      in (add (add (mul p0 m0) (mul p1 m2)) m4,
          add (add (mul p0 m1) (mul p1 m3)) m5))"

text \<open>The three control points of a curve, six consecutive entries of the array.\<close>

definition applyTransformToBezier :: "rounding \<Rightarrow> point list \<Rightarrow> matrix \<Rightarrow> point list" where
  "applyTransformToBezier fl ps m =
     (let (m0, m1, m2, m3, m4, m5) = m; add = num_add fl; mul = num_mul fl
      in map (\<lambda>(x, y). (add (add (mul x m0) (mul y m2)) m4, add (add (mul x m1) (mul y m3)) m5)) ps)"


definition inverseTransform :: "rounding \<Rightarrow> matrix \<Rightarrow> matrix" where
  "inverseTransform fl m =
     (let (m0, m1, m2, m3, m4, m5) = m; sub = num_sub fl; mul = num_mul fl;
          d = sub (mul m0 m3) (mul m1 m2)
      in (num_div fl m3 d, num_div fl (num_neg m1) d, num_div fl (num_neg m2) d, num_div fl m0 d,
          num_div fl (sub (mul m2 m5) (mul m4 m3)) d, num_div fl (sub (mul m4 m1) (mul m5 m0)) d))"

text \<open>\<open>Math.min\<close> and \<open>Math.max\<close> of several arguments.\<close>

definition num_mins :: "js_num \<Rightarrow> js_num list \<Rightarrow> js_num" where
  "num_mins a bs = foldl num_min a bs"

definition num_maxs :: "js_num \<Rightarrow> js_num list \<Rightarrow> js_num" where
  "num_maxs a bs = foldl num_max a bs"

definition axialAlignedBoundingBox :: "rounding \<Rightarrow> rect4 \<Rightarrow> matrix \<Rightarrow> rect4 \<Rightarrow> rect4" where
  "axialAlignedBoundingBox fl r m output =
     (let (m0, m1, m2, m3, m4, m5) = m; (r0, r1, r2, r3) = r; (o0, o1, o2, o3) = output;
          add = num_add fl; mul = num_mul fl;
          a0 = add (mul m0 r0) m4; a2 = a0;
          a1 = add (mul m0 r2) m4; a3 = a1;
          b0 = add (mul m3 r1) m5; b2 = b0;
          b1 = add (mul m3 r3) m5; b3 = b1;
          (a0, a1, a2, a3, b0, b1, b2, b3) =
            (if \<not> num_eq m1 (Num 0) \<or> \<not> num_eq m2 (Num 0) then
               let m1r0 = mul m1 r0; m1r2 = mul m1 r2; m2r1 = mul m2 r1; m2r3 = mul m2 r3
               in (add a0 m2r1, add a1 m2r3, add a2 m2r3, add a3 m2r1,
                   add b0 m1r0, add b1 m1r2, add b2 m1r2, add b3 m1r0)
             else (a0, a1, a2, a3, b0, b1, b2, b3))
      in (num_mins o0 [a0, a1, a2, a3], num_mins o1 [b0, b1, b2, b3],
          num_maxs o2 [a0, a1, a2, a3], num_maxs o3 [b0, b1, b2, b3]))"

definition normalizeRect :: "rect4 \<Rightarrow> rect4" where
  "normalizeRect r =
     (let (x0, y0, x1, y1) = r;
          (x0', x1') = (if num_lt x1 x0 then (x1, x0) else (x0, x1));
          (y0', y1') = (if num_lt y1 y0 then (y1, y0) else (y0, y1))
      in (x0', y0', x1', y1'))"

definition util_intersect :: "rect4 \<Rightarrow> rect4 \<Rightarrow> rect4 option" where
  "util_intersect r s =
     (let (a0, a1, a2, a3) = r; (b0, b1, b2, b3) = s;
          xLow = num_max (num_min a0 a2) (num_min b0 b2);
          xHigh = num_min (num_max a0 a2) (num_max b0 b2)
      in if num_lt xHigh xLow then None
         else let yLow = num_max (num_min a1 a3) (num_min b1 b3);
                  yHigh = num_min (num_max a1 a3) (num_max b1 b3)
              in if num_lt yHigh yLow then None else Some (xLow, yLow, xHigh, yHigh))"

definition pointBoundingBox :: "js_num \<Rightarrow> js_num \<Rightarrow> rect4 \<Rightarrow> rect4" where
  "pointBoundingBox x y minMax =
     (let (a, b, c, d) = minMax in (num_min a x, num_min b y, num_max c x, num_max d y))"

definition rectBoundingBox :: "js_num \<Rightarrow> js_num \<Rightarrow> js_num \<Rightarrow> js_num \<Rightarrow> rect4 \<Rightarrow> rect4" where
  "rectBoundingBox x0 y0 x1 y1 minMax =
     (let (a, b, c, d) = minMax
      in (num_mins a [x0, x1], num_mins b [y0, y1], num_maxs c [x0, x1], num_maxs d [y0, y1]))"

definition mathClamp :: "js_num \<Rightarrow> js_num \<Rightarrow> js_num \<Rightarrow> js_num" where
  "mathClamp v lo hi = num_min (num_max v lo) hi"

section \<open>PageViewport\<close>

record viewport =
  viewBox :: rect4
  userUnit :: js_num
  vp_scale :: js_num
  vp_rotation :: js_num
  offsetX :: js_num
  offsetY :: js_num
  transform :: matrix
  vp_width :: js_num
  vp_height :: js_num

definition invalid_rotation :: js_error where
  "invalid_rotation = JsError ''PageViewport: Invalid rotation, must be a multiple of 90 degrees.''"

text \<open>The rotation matrix for a normalised rotation.\<close>

definition rotate_matrix :: "js_num \<Rightarrow> (rat \<times> rat \<times> rat \<times> rat) res" where
  "rotate_matrix rotation =
     (if num_eq rotation (Num 180) then Inr (-1, 0, 0, 1)
      else if num_eq rotation (Num 90) then Inr (0, 1, 1, 0)
      else if num_eq rotation (Num 270) then Inr (0, -1, -1, 0)
      else if num_eq rotation (Num 0) then Inr (1, 0, 0, -1)
      else Inl invalid_rotation)"

definition norm_rotation :: "rounding \<Rightarrow> js_num \<Rightarrow> js_num" where
  "norm_rotation fl rotation =
     (let r = num_rem rotation (Num 360) in if num_lt r (Num 0) then num_add fl r (Num 360) else r)"

definition mk_viewport ::
  "rounding \<Rightarrow> rect4 \<Rightarrow> js_num \<Rightarrow> js_num \<Rightarrow> js_num \<Rightarrow> js_num \<Rightarrow> js_num \<Rightarrow> bool \<Rightarrow> viewport res" where
  "mk_viewport fl vb uu scale0 rotation0 offX offY dontFlip =
     (let (x0, y0, x1, y1) = vb;
          add = num_add fl; sub = num_sub fl; mul = num_mul fl;
          scale = mul scale0 uu;
          centerX = num_div fl (add x1 x0) (Num 2);
          centerY = num_div fl (add y1 y0) (Num 2)
      in rbind (rotate_matrix (norm_rotation fl rotation0)) (\<lambda>(rA, rB, rC, rD).
           let rotateA = Num rA; rotateB = Num rB;
               rotateC = Num (if dontFlip then - rC else rC);
               rotateD = Num (if dontFlip then - rD else rD);
               (offsetCanvasX, offsetCanvasY, width, height) =
                 (if rA = 0 then
                    (add (mul (num_abs (sub centerY y0)) scale) offX,
                     add (mul (num_abs (sub centerX x0)) scale) offY,
                     mul (sub y1 y0) scale, mul (sub x1 x0) scale)
                  else
                    (add (mul (num_abs (sub centerX x0)) scale) offX,
                     add (mul (num_abs (sub centerY y0)) scale) offY,
                     mul (sub x1 x0) scale, mul (sub y1 y0) scale))
           in Inr \<lparr>viewBox = vb, userUnit = uu, vp_scale = scale0, vp_rotation = rotation0,
                   offsetX = offX, offsetY = offY,
                   transform =
                     (mul rotateA scale, mul rotateB scale, mul rotateC scale, mul rotateD scale,
                      sub (sub offsetCanvasX (mul (mul rotateA scale) centerX)) (mul (mul rotateC scale) centerY),
                      sub (sub offsetCanvasY (mul (mul rotateB scale) centerX)) (mul (mul rotateD scale) centerY)),
                   vp_width = width, vp_height = height\<rparr>))"

definition rawDims :: "rounding \<Rightarrow> viewport \<Rightarrow> js_num \<times> js_num \<times> js_num \<times> js_num" where
  "rawDims fl v =
     (let (x0, y0, x1, y1) = viewBox v in (num_sub fl x1 x0, num_sub fl y1 y0, x0, y0))"

text \<open>\<open>clone\<close> with the options that are given (\<open>None\<close> is an omitted option).\<close>

definition viewport_clone ::
  "rounding \<Rightarrow> js_num option \<Rightarrow> js_num option \<Rightarrow> js_num option \<Rightarrow> js_num option \<Rightarrow> bool \<Rightarrow> viewport \<Rightarrow> viewport res" where
  "viewport_clone fl scale rotation offX offY dontFlip v =
     mk_viewport fl (viewBox v) (userUnit v) (case_option (vp_scale v) id scale)
       (case_option (vp_rotation v) id rotation) (case_option (offsetX v) id offX)
       (case_option (offsetY v) id offY) dontFlip"

definition convertToViewportPoint :: "rounding \<Rightarrow> viewport \<Rightarrow> js_num \<Rightarrow> js_num \<Rightarrow> point" where
  "convertToViewportPoint fl v x y = applyTransform fl (x, y) (transform v)"


text \<open>The page proxy: what \<open>getViewport\<close> reads of it.\<close>

record page_proxy =
  pg_view :: rect4
  pg_userUnit :: js_num
  pg_rotate :: js_num

definition getViewport :: "rounding \<Rightarrow> page_proxy \<Rightarrow> js_num \<Rightarrow> viewport res" where
  "getViewport fl p scale =
     mk_viewport fl (pg_view p) (pg_userUnit p) scale (pg_rotate p) (Num 0) (Num 0) False"

section \<open>Exact arithmetic\<close>

lemma util_transform_Num:
  "util_transform Num (Num a0, Num a1, Num a2, Num a3, Num a4, Num a5) (Num b0, Num b1, Num b2, Num b3, Num b4, Num b5)
    = (Num (a0 * b0 + a2 * b1), Num (a1 * b0 + a3 * b1), Num (a0 * b2 + a2 * b3), Num (a1 * b2 + a3 * b3),
       Num (a0 * b4 + a2 * b5 + a4), Num (a1 * b4 + a3 * b5 + a5))"
  by (simp add: util_transform_def)

lemma applyTransform_Num:
  "applyTransform Num (Num x, Num y) (Num m0, Num m1, Num m2, Num m3, Num m4, Num m5)
    = (Num (x * m0 + y * m2 + m4), Num (x * m1 + y * m3 + m5))"
  by (simp add: applyTransform_def)


lemma inverseTransform_Num:
  "m0 * m3 - m1 * m2 \<noteq> 0 \<Longrightarrow>
    inverseTransform Num (Num m0, Num m1, Num m2, Num m3, Num m4, Num m5)
    = (let d = m0 * m3 - m1 * m2
       in (Num (m3 / d), Num (- m1 / d), Num (- m2 / d), Num (m0 / d),
           Num ((m2 * m5 - m4 * m3) / d), Num ((m4 * m1 - m5 * m0) / d)))"
  by (simp add: inverseTransform_def Let_def)




subsection \<open>The transform of a viewport\<close>

lemma rotate_matrix_cases:
  assumes "rotate_matrix r = Inr (a, b, c, d)"
  obtains "(a, b, c, d) = (1, 0, 0, -1)" | "(a, b, c, d) = (-1, 0, 0, 1)"
    | "(a, b, c, d) = (0, 1, 1, 0)" | "(a, b, c, d) = (0, -1, -1, 0)"
  using assms by (auto simp: rotate_matrix_def split: if_splits)

text \<open>The matrix \<open>k * rotation\<close> that maps the centre of the view box to the centre of the viewport.\<close>

definition viewport_geometry :: "viewport \<Rightarrow> rat \<Rightarrow> rat \<Rightarrow> rat \<Rightarrow> rat \<Rightarrow> rat \<Rightarrow> rat \<Rightarrow> rat
    \<Rightarrow> rat \<Rightarrow> rat \<Rightarrow> rat \<Rightarrow> rat \<Rightarrow> bool" where
  "viewport_geometry v x0 y0 x1 y1 k ox oy a b c d \<longleftrightarrow>
     (let cx = (x1 + x0) / 2; cy = (y1 + y0) / 2;
          (w, h) = (if a = 0 then (y1 - y0, x1 - x0) else (x1 - x0, y1 - y0))
      in transform v = (Num (a * k), Num (b * k), Num (c * k), Num (d * k),
           Num (\<bar>w\<bar> / 2 * k + ox - a * k * cx - c * k * cy), Num (\<bar>h\<bar> / 2 * k + oy - b * k * cx - d * k * cy)) \<and>
         vp_width v = Num (w * k) \<and> vp_height v = Num (h * k))"

lemma half_diff: "(b + a) / 2 - a = (b - a) / (2 :: rat)"
  by (simp add: field_simps)

lemma mk_viewport_geometry:
  assumes "mk_viewport Num (Num x0, Num y0, Num x1, Num y1) (Num u) (Num s) rot (Num ox) (Num oy) flip = Inr v"
  obtains a b c d where "rotate_matrix (norm_rotation Num rot) = Inr (a, b, c, d)"
    and "viewport_geometry v x0 y0 x1 y1 (s * u) ox oy a b (if flip then - c else c) (if flip then - d else d)"
proof -
  from assms obtain a b c d where r: "rotate_matrix (norm_rotation Num rot) = Inr (a, b, c, d)"
    by (auto simp: mk_viewport_def Let_def rbind_eq_Inr)
  with assms have "viewport_geometry v x0 y0 x1 y1 (s * u) ox oy a b (if flip then - c else c) (if flip then - d else d)"
    by (auto simp: mk_viewport_def viewport_geometry_def half_diff)
  with r that show thesis by blast
qed




text \<open>Where a viewport without offsets puts a point of its view box, per rotation.\<close>

lemma viewport_geometry_point:
  assumes "viewport_geometry v x0 y0 x1 y1 k 0 0 a b c d" and "x0 \<le> x1" and "y0 \<le> y1"
  shows "(a, b, c, d) = (1, 0, 0, -1) \<Longrightarrow>
      convertToViewportPoint Num v (Num x) (Num y) = (Num (k * (x - x0)), Num (k * (y1 - y)))"
    and "(a, b, c, d) = (-1, 0, 0, 1) \<Longrightarrow>
      convertToViewportPoint Num v (Num x) (Num y) = (Num (k * (x1 - x)), Num (k * (y - y0)))"
    and "(a, b, c, d) = (0, 1, 1, 0) \<Longrightarrow>
      convertToViewportPoint Num v (Num x) (Num y) = (Num (k * (y - y0)), Num (k * (x - x0)))"
    and "(a, b, c, d) = (0, -1, -1, 0) \<Longrightarrow>
      convertToViewportPoint Num v (Num x) (Num y) = (Num (k * (y1 - y)), Num (k * (x1 - x)))"
  using assms
  by (simp_all add: viewport_geometry_def convertToViewportPoint_def applyTransform_Num)
    (simp_all add: field_simps)

lemma viewport_geometry_bounds:
  assumes g: "viewport_geometry v x0 y0 x1 y1 k 0 0 a b c d" and r: "rotate_matrix r = Inr (a, b, c, d)"
    and k: "0 \<le> k" and x: "x0 \<le> x" "x \<le> x1" and y: "y0 \<le> y" "y \<le> y1"
  shows "\<exists>X Y w h. convertToViewportPoint Num v (Num x) (Num y) = (Num X, Num Y) \<and>
    vp_width v = Num w \<and> vp_height v = Num h \<and> 0 \<le> X \<and> X \<le> w \<and> 0 \<le> Y \<and> Y \<le> h"
proof -
  have o: "x0 \<le> x1" "y0 \<le> y1" using x y by simp_all
  note point = viewport_geometry_point [OF g o, of x y]
  have b: "0 \<le> k * (x - x0)" "k * (x - x0) \<le> (x1 - x0) * k" "0 \<le> k * (x1 - x)" "k * (x1 - x) \<le> (x1 - x0) * k"
    "0 \<le> k * (y - y0)" "k * (y - y0) \<le> (y1 - y0) * k" "0 \<le> k * (y1 - y)" "k * (y1 - y) \<le> (y1 - y0) * k"
    using k x y by (simp_all add: mult.commute mult_left_mono)
  from r show ?thesis
    by (cases rule: rotate_matrix_cases)
      (use g b point in \<open>simp_all add: viewport_geometry_def\<close>)
qed

text \<open>
  The viewport shows the whole page.  In exact arithmetic, without offsets or flip
  and at a non-negative scale, every point of the view box is converted to a point with
  coordinates between 0 and the width and between 0 and the height of the viewport, for
  all four rotations.
\<close>

theorem viewport_contains_page:
  assumes "mk_viewport Num (Num x0, Num y0, Num x1, Num y1) (Num u) (Num s) rot (Num 0) (Num 0) False = Inr v"
    and "0 \<le> s" and "0 \<le> u" and "x0 \<le> x" and "x \<le> x1" and "y0 \<le> y" and "y \<le> y1"
  shows "\<exists>X Y w h. convertToViewportPoint Num v (Num x) (Num y) = (Num X, Num Y) \<and>
    vp_width v = Num w \<and> vp_height v = Num h \<and> 0 \<le> X \<and> X \<le> w \<and> 0 \<le> Y \<and> Y \<le> h"
proof -
  from assms(1) obtain a b c d where r: "rotate_matrix (norm_rotation Num rot) = Inr (a, b, c, d)"
    and g: "viewport_geometry v x0 y0 x1 y1 (s * u) 0 0 a b c d"
    by (rule mk_viewport_geometry) auto
  show ?thesis by (rule viewport_geometry_bounds [OF g r]) (use assms in simp_all)
qed

subsection \<open>Which rotations are accepted\<close>

lemma rem360_bounds:
  fixes r :: rat
  assumes q: "q = r - 360 * of_int (rat_trunc (r / 360))"
  shows "- 360 < q" and "q < 360" and "0 \<le> r \<Longrightarrow> 0 \<le> q"
proof -
  have "0 \<le> r \<Longrightarrow> 0 \<le> q \<and> q < 360"
    using floor_correct [of "r / 360"] by (auto simp: q rat_trunc_def field_simps)
  moreover have "r < 0 \<Longrightarrow> - 360 < q \<and> q \<le> 0"
  proof -
    assume "r < 0"
    then have "r / 360 < 0" by simp
    then have "q = r - 360 * of_int \<lceil>r / 360\<rceil>" by (simp add: q rat_trunc_def)
    moreover have "of_int \<lceil>r / 360\<rceil> - 1 < r / 360" "r / 360 \<le> of_int \<lceil>r / 360\<rceil>"
      using ceiling_correct [of "r / 360"] by simp_all
    ultimately show ?thesis by (intro conjI; linarith)
  qed
  ultimately show "- 360 < q" and "q < 360" and "0 \<le> r \<Longrightarrow> 0 \<le> q" by linarith+
qed

lemma multiple_of_90:
  fixes q :: rat
  assumes "0 \<le> q" and "q < 360"
  shows "(\<exists>k :: int. q = 90 * of_int k) \<longleftrightarrow> q = 0 \<or> q = 90 \<or> q = 180 \<or> q = 270"
proof
  assume "\<exists>k :: int. q = 90 * of_int k"
  then obtain k :: int where k: "q = 90 * of_int k" by blast
  with assms have "0 \<le> (of_int k :: rat)" "(of_int k :: rat) < of_int 4" by simp_all
  then have "0 \<le> k" "k < 4" by (simp_all only: of_int_0_le_iff of_int_less_iff)
  then have "k = 0 \<or> k = 1 \<or> k = 2 \<or> k = 3" by auto
  with k show "q = 0 \<or> q = 90 \<or> q = 180 \<or> q = 270" by auto
next
  assume "q = 0 \<or> q = 90 \<or> q = 180 \<or> q = 270"
  then have "q = 90 * of_int 0 \<or> q = 90 * of_int 1 \<or> q = 90 * of_int 2 \<or> q = 90 * of_int 3" by simp
  then show "\<exists>k :: int. q = 90 * of_int k" by blast
qed

lemma shift_multiple_of_90:
  fixes r :: rat
  shows "(\<exists>k :: int. r + 360 * of_int m = 90 * of_int k) \<longleftrightarrow> (\<exists>k :: int. r = 90 * of_int k)"
proof
  assume "\<exists>k :: int. r + 360 * of_int m = 90 * of_int k"
  then obtain k :: int where "r + 360 * of_int m = 90 * of_int k" by blast
  then have "r = 90 * of_int (k - 4 * m)" by simp
  then show "\<exists>k :: int. r = 90 * of_int k" by blast
next
  assume "\<exists>k :: int. r = 90 * of_int k"
  then obtain k :: int where "r = 90 * of_int k" by blast
  then have "r + 360 * of_int m = 90 * of_int (k + 4 * m)" by simp
  then show "\<exists>k :: int. r + 360 * of_int m = 90 * of_int k" by blast
qed

lemma norm_rotation_Num:
  obtains q m where "norm_rotation Num (Num r) = Num q" and "0 \<le> q" and "q < 360"
    and "q = r + 360 * of_int m"
proof -
  define q0 where "q0 = r - 360 * of_int (rat_trunc (r / 360))"
  note b = rem360_bounds [OF q0_def]
  have n: "norm_rotation Num (Num r) = Num (if q0 < 0 then q0 + 360 else q0)"
    by (simp add: norm_rotation_def q0_def)
  show thesis
  proof (cases "q0 < 0")
    case True
    have "q0 + 360 = r + 360 * of_int (1 - rat_trunc (r / 360))" by (simp add: q0_def algebra_simps)
    moreover have "0 \<le> q0 + 360" "q0 + 360 < 360" using True b(1) by simp_all
    ultimately show ?thesis using True n that [of "q0 + 360" "1 - rat_trunc (r / 360)"] by argo
  next
    case False
    have "q0 = r + 360 * of_int (- rat_trunc (r / 360))" by (simp add: q0_def)
    moreover have "norm_rotation Num (Num r) = Num q0" "0 \<le> q0" using False n by simp_all
    ultimately show ?thesis using b(2) that [of q0 "- rat_trunc (r / 360)"] by blast
  qed
qed

lemma mk_viewport_ok:
  "is_ok (mk_viewport Num vb uu sc (Num r) ox oy flip) \<longleftrightarrow> (\<exists>k :: int. r = 90 * of_int k)"
proof -
  obtain q m where q: "norm_rotation Num (Num r) = Num q" "0 \<le> q" "q < 360" "q = r + 360 * of_int m"
    by (rule norm_rotation_Num)
  have "is_ok (mk_viewport Num vb uu sc (Num r) ox oy flip) \<longleftrightarrow> is_ok (rotate_matrix (Num q))"
    using q(1) by (cases vb; cases "rotate_matrix (Num q)") (auto simp: mk_viewport_def Let_def split: prod.split)
  also have "\<dots> \<longleftrightarrow> q = 0 \<or> q = 90 \<or> q = 180 \<or> q = 270"
    by (simp add: rotate_matrix_def)
  also have "\<dots> \<longleftrightarrow> (\<exists>k :: int. r = 90 * of_int k)"
    using multiple_of_90 [OF q(2,3)] q(4) shift_multiple_of_90 [of r m] by simp
  finally show ?thesis .
qed


lemma mk_viewport_error: "mk_viewport fl vb uu sc rot ox oy flip = Inl e \<Longrightarrow> e = invalid_rotation"
  by (cases vb) (auto simp: mk_viewport_def Let_def rbind_eq_Inl rotate_matrix_def split: if_splits prod.splits)

text \<open>
  The constructor of a viewport accepts exactly the multiples of 90 degrees, negative
  ones and ones beyond a full turn included; every other rotation raises the error that
  names the constraint.
\<close>

theorem viewport_rotation_valid:
  "case mk_viewport Num vb uu sc (Num r) ox oy flip of
     Inr v \<Rightarrow> (\<exists>k :: int. r = 90 * of_int k)
   | Inl e \<Rightarrow> e = invalid_rotation \<and> \<not> (\<exists>k :: int. r = 90 * of_int k)"
  using mk_viewport_ok [of vb uu sc r ox oy flip] mk_viewport_error
  by (cases "mk_viewport Num vb uu sc (Num r) ox oy flip") auto


section \<open>Rectangles\<close>

definition in_rect :: "rat \<Rightarrow> rat \<Rightarrow> rect4 \<Rightarrow> bool" where
  "in_rect x y r \<longleftrightarrow> (let (x0, y0, x1, y1) = r
     in num_le x0 (Num x) \<and> num_le (Num x) x1 \<and> num_le y0 (Num y) \<and> num_le (Num y) y1)"

text \<open>A linear function on an interval lies between its values at the ends.\<close>

lemma linear_between:
  fixes m z lo hi :: rat
  assumes "lo \<le> z" and "z \<le> hi"
  shows "min (m * lo) (m * hi) \<le> m * z" and "m * z \<le> max (m * lo) (m * hi)"
  using assms by (cases "0 \<le> m"; force simp: min_le_iff_disj le_max_iff_disj mult_left_mono mult_left_mono_neg)+

lemma corners_between:
  fixes p q :: rat
  assumes "min a b \<le> p" "p \<le> max a b" "min c d \<le> q" "q \<le> max c d"
  shows "min (a + c) (min (a + d) (min (b + c) (b + d))) \<le> p + q"
    and "p + q \<le> max (a + c) (max (a + d) (max (b + c) (b + d)))"
  using assms by (auto simp: min_def max_def split: if_splits)

text \<open>
  \<open>axialAlignedBoundingBox\<close> computes a bounding box.  In exact arithmetic the box it
  leaves in \<open>output\<close> contains the box that was there and the image under the transform of
  every point of the rectangle.
\<close>

theorem boundingBox_contains:
  assumes "axialAlignedBoundingBox Num (Num r0, Num r1, Num r2, Num r3)
      (Num m0, Num m1, Num m2, Num m3, Num m4, Num m5) (Num o0, Num o1, Num o2, Num o3) = box"
    and "r0 \<le> x" and "x \<le> r2" and "r1 \<le> y" and "y \<le> r3"
  shows "in_rect (x * m0 + y * m2 + m4) (x * m1 + y * m3 + m5) box \<and>
    applyTransform Num (Num x, Num y) (Num m0, Num m1, Num m2, Num m3, Num m4, Num m5)
      = (Num (x * m0 + y * m2 + m4), Num (x * m1 + y * m3 + m5)) \<and>
    (o0 \<le> u \<and> u \<le> o2 \<and> o1 \<le> v \<and> v \<le> o3 \<longrightarrow> in_rect u v box)"
proof -
  note X = corners_between [OF linear_between [OF assms(2,3), of m0] linear_between [OF assms(4,5), of m2]]
  note Y = corners_between [OF linear_between [OF assms(2,3), of m1] linear_between [OF assms(4,5), of m3]]
  define c where "c = (\<lambda>a b m. m0 * a + m2 * b + m)"
  define e where "e = (\<lambda>a b m. m1 * a + m3 * b + m)"
  have box: "box = (Num (min (min (min (min o0 (c r0 r1 m4)) (c r2 r3 m4)) (c r0 r3 m4)) (c r2 r1 m4)),
      Num (min (min (min (min o1 (e r0 r1 m5)) (e r2 r3 m5)) (e r2 r1 m5)) (e r0 r3 m5)),
      Num (max (max (max (max o2 (c r0 r1 m4)) (c r2 r3 m4)) (c r0 r3 m4)) (c r2 r1 m4)),
      Num (max (max (max (max o3 (e r0 r1 m5)) (e r2 r3 m5)) (e r2 r1 m5)) (e r0 r3 m5)))"
    using assms(1) [symmetric]
    by (cases "m1 = 0 \<and> m2 = 0")
      (auto simp: axialAlignedBoundingBox_def num_mins_def num_maxs_def c_def e_def algebra_simps Let_def)
  have "in_rect (x * m0 + y * m2 + m4) (x * m1 + y * m3 + m5) box"
    using X Y unfolding box in_rect_def c_def e_def
    by (auto simp: min_le_iff_disj le_max_iff_disj algebra_simps)
  moreover have "o0 \<le> u \<and> u \<le> o2 \<and> o1 \<le> v \<and> v \<le> o3 \<longrightarrow> in_rect u v box"
    unfolding box in_rect_def by (auto simp: min_le_iff_disj le_max_iff_disj)
  ultimately show ?thesis by (simp add: applyTransform_Num)
qed

text \<open>
  \<open>Util.intersect\<close> is intersection: for rectangles with finite corners in any order, a
  point lies in the result exactly when it lies in both rectangles after normalisation,
  and \<open>null\<close> is returned exactly when no point does.
\<close>

theorem intersect_correct:
  assumes "r = (Num a0, Num a1, Num a2, Num a3)" and "s = (Num b0, Num b1, Num b2, Num b3)"
  shows "(case util_intersect r s of
            Some t \<Rightarrow> in_rect x y t
          | None \<Rightarrow> False) \<longleftrightarrow> in_rect x y (normalizeRect r) \<and> in_rect x y (normalizeRect s)"
  using assms by (auto simp: util_intersect_def normalizeRect_def in_rect_def Let_def)

text \<open>
  \<open>inverseTransform\<close> gives the inverse matrix: composed with the transform, on either
  side, it is the identity matrix, in exact arithmetic and for every invertible matrix.
\<close>

theorem inverseTransform_correct:
  assumes "m = (Num m0, Num m1, Num m2, Num m3, Num m4, Num m5)" and "m0 * m3 - m1 * m2 \<noteq> 0"
  shows "util_transform Num m (inverseTransform Num m) = (Num 1, Num 0, Num 0, Num 1, Num 0, Num 0) \<and>
    util_transform Num (inverseTransform Num m) m = (Num 1, Num 0, Num 0, Num 1, Num 0, Num 0)"
proof -
  define d where "d = m0 * m3 - m1 * m2"
  have d: "d \<noteq> 0" and inv: "inverseTransform Num m = (Num (m3 / d), Num (- m1 / d), Num (- m2 / d), Num (m0 / d),
      Num ((m2 * m5 - m4 * m3) / d), Num ((m4 * m1 - m5 * m0) / d))"
    using assms by (simp_all add: inverseTransform_Num d_def Let_def)
  show ?thesis unfolding inv unfolding assms(1) util_transform_Num using d
    by (simp add: divide_simps) (simp add: d_def algebra_simps)
qed

end
