(* ===== verification/Highlight.thy ===== *)
theory Highlight
  imports Viewport
begin

text \<open>
  The highlight page (\<open>web/highlight.mjs\<close>): the URL parameters, the normalisation of the
  boxes the server returns, the fitting of the page to the stage, the overlay rectangles,
  and the page's life as a state machine whose steps are the code that runs between two
  suspension points (\<open>await\<close>, timer, observer callback).

  Template literals are kept as the list of their parts: \<open>Lit\<close> for the text of the
  source and \<open>Val\<close>, \<open>Str\<close> for the interpolated Numbers and strings.
\<close>

section \<open>The URL parameters\<close>

definition string_param :: "jsstr option \<Rightarrow> jsstr" where
  "string_param p = js_trim (case p of None \<Rightarrow> [] | Some s \<Rightarrow> s)"

definition requestedPage :: "rounding \<Rightarrow> jsstr option \<Rightarrow> js_num" where
  "requestedPage fl p = parseInt10 fl (case p of None \<Rightarrow> js ''1'' | Some s \<Rightarrow> s)"

definition pageNumber :: "rounding \<Rightarrow> jsstr option \<Rightarrow> js_num" where
  "pageNumber fl p =
     (let r = requestedPage fl p in if isFinite r \<and> num_lt (Num 0) r then r else Num 1)"

record url_params =
  u_source :: jsstr
  u_excerpt :: jsstr
  u_page :: js_num

definition read_params :: "rounding \<Rightarrow> jsstr option \<Rightarrow> jsstr option \<Rightarrow> jsstr option \<Rightarrow> url_params" where
  "read_params fl src exc pg =
     \<lparr>u_source = string_param src, u_excerpt = string_param exc, u_page = pageNumber fl pg\<rparr>"

section \<open>The boxes\<close>

record box =
  b_x0 :: js_num
  b_y0 :: js_num
  b_x1 :: js_num
  b_y1 :: js_num

definition json_array :: "json option \<Rightarrow> json list option" where
  "json_array v = (case v of Some (JArr xs) \<Rightarrow> Some xs | _ \<Rightarrow> None)"

definition raw_boxes :: "json \<Rightarrow> json list" where
  "raw_boxes payload =
     (case json_array (Some payload) of
        Some xs \<Rightarrow> xs
      | None \<Rightarrow>
          (case json_array (member payload ''boxes'') of
             Some xs \<Rightarrow> xs
           | None \<Rightarrow> (case json_array (member payload ''rects'') of Some xs \<Rightarrow> xs | None \<Rightarrow> [])))"

text \<open>The four corner values of an entry before conversion; \<open>None\<close> inside is \<open>undefined\<close>.\<close>

definition entry_corners :: "json \<Rightarrow> (json option \<times> json option \<times> json option \<times> json option) option" where
  "entry_corners e =
     (case e of
        JArr (a # b # c # d # _) \<Rightarrow> Some (Some a, Some b, Some c, Some d)
      | JArr _ \<Rightarrow> Some (None, None, None, None)
      | JObj _ \<Rightarrow> Some (member e ''x0'', member e ''y0'', member e ''x1'', member e ''y1'')
      | _ \<Rightarrow> None)"

definition normalizeEntry :: "rounding \<Rightarrow> json \<Rightarrow> box list" where
  "normalizeEntry fl e =
     (case entry_corners e of
        None \<Rightarrow> []
      | Some (a, b, c, d) \<Rightarrow>
          let x0 = toNumber_opt fl a; y0 = toNumber_opt fl b;
              x1 = toNumber_opt fl c; y1 = toNumber_opt fl d
          in if \<not> list_all isFinite [x0, y0, x1, y1] then []
             else if num_lt (num_abs (num_sub fl x1 x0)) (Num (1 / 2))
                   \<or> num_lt (num_abs (num_sub fl y1 y0)) (Num (1 / 2)) then []
             else [\<lparr>b_x0 = x0, b_y0 = y0, b_x1 = x1, b_y1 = y1\<rparr>])"

definition payload_section :: "json \<Rightarrow> json option" where
  "payload_section payload =
     (if json_truthy payload \<and> json_array (Some payload) = None
      then (case member payload ''section'' of
              Some s \<Rightarrow> if json_truthy s then Some s else None
            | None \<Rightarrow> None)
      else None)"

definition normalizeBoxes :: "rounding \<Rightarrow> json \<Rightarrow> box list \<times> json option" where
  "normalizeBoxes fl payload =
     (concat (map (normalizeEntry fl) (raw_boxes payload)), payload_section payload)"

text \<open>The request to the boxes route: its query parameters in order.\<close>

datatype part = Lit string | Val js_num | Str jsstr

definition boxes_query :: "url_params \<Rightarrow> (string \<times> part) list" where
  "boxes_query u =
     [(''source'', Str (u_source u)), (''page'', Val (u_page u))]
       @ (if u_excerpt u \<noteq> [] then [(''excerpt'', Str (u_excerpt u))] else [])"

text \<open>The response of the boxes route: its \<open>ok\<close> flag, status and body (\<open>None\<close> is not JSON).\<close>

record response =
  r_ok :: bool
  r_status :: nat
  r_body :: "json option"

definition fetchHighlightBoxes :: "rounding \<Rightarrow> response option \<Rightarrow> (box list \<times> json option) option" where
  "fetchHighlightBoxes fl resp =
     (case resp of
        None \<Rightarrow> None
      | Some r \<Rightarrow> if \<not> r_ok r then None else map_option (normalizeBoxes fl) (r_body r))"

section \<open>The viewport and the overlay\<close>

definition MIN_SCALE :: "rounding \<Rightarrow> js_num" where
  "MIN_SCALE fl = fl (4 / 10)"

definition MAX_SCALE :: js_num where
  "MAX_SCALE = Num 2"

definition STAGE_GUTTER :: js_num where
  "STAGE_GUTTER = Num 2"

definition fitViewport :: "rounding \<Rightarrow> page_proxy \<Rightarrow> js_num \<Rightarrow> viewport res" where
  "fitViewport fl page stageWidth =
     rbind (getViewport fl page (Num 1)) (\<lambda>unscaled.
       let usable = num_max (num_sub fl stageWidth STAGE_GUTTER) (Num 240);
           scale = num_min MAX_SCALE (num_max (MIN_SCALE fl) (num_div fl usable (vp_width unscaled)))
       in getViewport fl page scale)"

record hrect =
  h_left :: js_num
  h_top :: js_num
  h_width :: js_num
  h_height :: js_num

definition box_rect :: "rounding \<Rightarrow> viewport \<Rightarrow> box \<Rightarrow> hrect" where
  "box_rect fl v b =
     (let (left0, top0) = convertToViewportPoint fl v (b_x0 b) (b_y0 b);
          (left1, top1) = convertToViewportPoint fl v (b_x1 b) (b_y1 b)
      in \<lparr>h_left = num_min left0 left1, h_top = num_min top0 top1,
          h_width = num_abs (num_sub fl left1 left0), h_height = num_abs (num_sub fl top1 top0)\<rparr>)"

definition too_small :: "hrect \<Rightarrow> bool" where
  "too_small r \<longleftrightarrow> num_lt (h_width r) (Num (1 / 2)) \<or> num_lt (h_height r) (Num (1 / 2))"

text \<open>The children of the overlay after \<open>drawHighlights\<close>.\<close>

definition drawHighlights :: "rounding \<Rightarrow> viewport option \<Rightarrow> box list \<Rightarrow> hrect list" where
  "drawHighlights fl vp boxes =
     (case vp of
        None \<Rightarrow> []
      | Some v \<Rightarrow> if boxes = [] then []
                 else filter (\<lambda>r. \<not> too_small r) (map (box_rect fl v) boxes))"

section \<open>The life of the page\<close>

datatype tone = Info | ErrorTone | Warn | OkTone

text \<open>
  A render task of the display layer: running, asked to cancel, or settled with the
  outcome of its promise.
\<close>

datatype outcome = Rendered | RenderingCancelled | RenderFailed
datatype task = Running | CancelRequested | Settled outcome

text \<open>Where \<open>start\<close> is suspended; \<open>FirstRender\<close> keeps the task awaited and \<open>highlightFailure\<close>.\<close>

datatype phase =
    NotStarted
  | LoadingDocument
  | LoadingPage
  | FetchingBoxes
  | FirstRender nat bool
  | Finished

record canvas =
  cv_width :: js_num
  cv_height :: js_num
  cv_style :: "js_num \<times> js_num"
  cv_transform :: "matrix option"

record app =
  ap_phase :: phase
  ap_page :: "page_proxy option"
  ap_boxes :: "box list"
  ap_section :: "json option"
  ap_renderTask :: "nat option"
  ap_stageWidth :: js_num
  ap_viewport :: "viewport option"
  ap_canvas :: "canvas option"
  ap_overlay :: "hrect list"
  ap_meta :: "part list"
  ap_status :: "part list \<times> tone"
  ap_observing :: bool
  ap_timer :: bool
  ap_tasks :: "task list"

definition initial_app :: app where
  "initial_app = \<lparr>ap_phase = NotStarted, ap_page = None, ap_boxes = [], ap_section = None,
     ap_renderTask = None, ap_stageWidth = Num 0, ap_viewport = None, ap_canvas = None, ap_overlay = [],
     ap_meta = [], ap_status = ([], Info), ap_observing = False, ap_timer = False, ap_tasks = []\<rparr>"

text \<open>What the code reads of the browser when a step runs.\<close>

record browser =
  clientWidth :: js_num
  devicePixelRatio :: js_num

definition setStatus :: "part list \<Rightarrow> tone \<Rightarrow> app \<Rightarrow> app" where
  "setStatus msg t s = s\<lparr>ap_status := (msg, t)\<rparr>"

definition section_title :: "json option \<Rightarrow> jsstr" where
  "section_title sec =
     (case sec of
        None \<Rightarrow> []
      | Some v \<Rightarrow> (case member v ''title'' of Some (JStr t) \<Rightarrow> js_trim t | _ \<Rightarrow> []))"

definition renderMeta :: "url_params \<Rightarrow> app \<Rightarrow> app" where
  "renderMeta u s =
     (let title = section_title (ap_section s);
          line = [Lit ''source '', Str (u_source u), Str [0x20, 0xb7, 0x20], Lit ''page '', Val (u_page u)]
      in s\<lparr>ap_meta := (if title \<noteq> [] then line @ [Str [0x20, 0xb7, 0x20], Str title] else line)\<rparr>)"

definition cancel_task :: "nat option \<Rightarrow> task list \<Rightarrow> task list" where
  "cancel_task t ts =
     (case t of
        None \<Rightarrow> ts
      | Some i \<Rightarrow> if i < length ts \<and> ts ! i = Running then ts[i := CancelRequested] else ts)"

text \<open>\<open>renderPage\<close> up to its \<open>await\<close>; the result names the task it awaits, if any.\<close>

definition renderPage_begin :: "rounding \<Rightarrow> browser \<Rightarrow> app \<Rightarrow> (app \<times> nat option) res" where
  "renderPage_begin fl env s =
     (case ap_page s of
        None \<Rightarrow> Inr (s, None)
      | Some page \<Rightarrow>
          rbind (fitViewport fl page (clientWidth env)) (\<lambda>v.
            let outputScale = (if num_truthy (devicePixelRatio env) then devicePixelRatio env else Num 1);
                cv = \<lparr>cv_width = num_floor (num_mul fl (vp_width v) outputScale),
                      cv_height = num_floor (num_mul fl (vp_height v) outputScale),
                      cv_style = (num_floor (vp_width v), num_floor (vp_height v)),
                      cv_transform =
                        (if num_eq outputScale (Num 1) then None
                         else Some (outputScale, Num 0, Num 0, outputScale, Num 0, Num 0))\<rparr>;
                tasks = cancel_task (ap_renderTask s) (ap_tasks s)
            in Inr (s\<lparr>ap_viewport := Some v, ap_canvas := Some cv, ap_tasks := tasks @ [Running],
                      ap_renderTask := Some (length tasks)\<rparr>, Some (length tasks))))"

text \<open>\<open>renderPage\<close> after its \<open>await\<close>: the error of the task is passed on, a cancellation is not.\<close>

definition renderPage_end :: "rounding \<Rightarrow> nat \<Rightarrow> outcome \<Rightarrow> app \<Rightarrow> app \<times> bool" where
  "renderPage_end fl i r s =
     (let s1 = (if ap_renderTask s = Some i then s\<lparr>ap_renderTask := None\<rparr> else s)
      in case r of
           Rendered \<Rightarrow> (s1\<lparr>ap_overlay := drawHighlights fl (ap_viewport s1) (ap_boxes s1)\<rparr>, True)
         | RenderingCancelled \<Rightarrow> (s1, True)
         | RenderFailed \<Rightarrow> (s1, False))"

definition reportRenderFailure :: "app \<Rightarrow> app" where
  "reportRenderFailure s = setStatus [Lit ''The page could not be rendered.''] ErrorTone s"

text \<open>The end of \<open>start\<close>, after its \<open>await renderPage()\<close>.\<close>

definition finish_status :: "url_params \<Rightarrow> bool \<Rightarrow> box list \<Rightarrow> part list \<times> tone" where
  "finish_status u highlightFailure boxes =
     (if highlightFailure then
        ([Lit ''Page '', Val (u_page u), Lit '' rendered; the highlight lookup failed.''], Warn)
      else if 0 < length boxes then
        ([Lit ''Page '', Val (u_page u), Lit '': '', Val (Num (of_nat (length boxes))), Lit '' '',
          Lit (if length boxes = 1 then ''highlight'' else ''highlights''), Lit '' for the cited excerpt.''], OkTone)
      else if u_excerpt u \<noteq> [] then
        ([Lit ''Page '', Val (u_page u), Lit '': the cited excerpt did not match here.''], Info)
      else ([Lit ''Page '', Val (u_page u), Lit ''.''], Info))"

definition start_end :: "url_params \<Rightarrow> bool \<Rightarrow> app \<Rightarrow> app" where
  "start_end u highlightFailure s =
     (let (msg, t) = finish_status u highlightFailure (ap_boxes s)
      in setStatus msg t (s\<lparr>ap_phase := Finished\<rparr>))"

definition start_failed :: "app \<Rightarrow> app" where
  "start_failed s = reportRenderFailure (s\<lparr>ap_phase := Finished\<rparr>)"

text \<open>\<open>start\<close> between its suspension points.\<close>

definition start_begin :: "url_params \<Rightarrow> app \<Rightarrow> app" where
  "start_begin u s =
     (if u_source u = [] then
        setStatus [Lit ''Missing source in the viewer URL.''] ErrorTone (s\<lparr>ap_phase := Finished\<rparr>)
      else setStatus [Lit ''Loading the document'', Str [0x2026]] Info
             (renderMeta u (s\<lparr>ap_phase := LoadingDocument\<rparr>)))"

definition start_document :: "bool \<Rightarrow> app \<Rightarrow> app" where
  "start_document ok s =
     (if ok then s\<lparr>ap_phase := LoadingPage\<rparr>
      else setStatus [Lit ''The document could not be loaded.''] ErrorTone (s\<lparr>ap_phase := Finished\<rparr>))"

definition start_page :: "url_params \<Rightarrow> page_proxy option \<Rightarrow> app \<Rightarrow> app" where
  "start_page u pg s =
     (case pg of
        Some p \<Rightarrow> s\<lparr>ap_page := Some p, ap_phase := FetchingBoxes\<rparr>
      | None \<Rightarrow> setStatus [Lit ''Page '', Val (u_page u), Lit '' is not in this document.''] ErrorTone
                 (s\<lparr>ap_phase := Finished\<rparr>))"

definition start_boxes :: "rounding \<Rightarrow> url_params \<Rightarrow> browser \<Rightarrow> response option \<Rightarrow> app \<Rightarrow> app" where
  "start_boxes fl u env resp s =
     (let (failed, bs, sec) =
            (case fetchHighlightBoxes fl resp of
               Some (bs, sec) \<Rightarrow> (False, bs, sec)
             | None \<Rightarrow> (True, [], None));
          s1 = renderMeta u (s\<lparr>ap_boxes := bs, ap_section := sec\<rparr>);
          s2 = s1\<lparr>ap_stageWidth := num_round (clientWidth env), ap_observing := True\<rparr>
      in case renderPage_begin fl env s2 of
           Inl e \<Rightarrow> start_failed s2
         | Inr (s3, None) \<Rightarrow> start_end u failed s3
         | Inr (s3, Some i) \<Rightarrow> s3\<lparr>ap_phase := FirstRender i failed\<rparr>)"

text \<open>The observer callback and the timer it arms.\<close>

definition on_resize :: "browser \<Rightarrow> app \<Rightarrow> app" where
  "on_resize env s =
     (let width = num_round (clientWidth env)
      in if num_eq width (ap_stageWidth s) then s
         else s\<lparr>ap_stageWidth := width, ap_timer := True\<rparr>)"

definition on_timer :: "rounding \<Rightarrow> browser \<Rightarrow> app \<Rightarrow> app" where
  "on_timer fl env s =
     (let s1 = s\<lparr>ap_timer := False\<rparr>
      in case renderPage_begin fl env s1 of
           Inl e \<Rightarrow> reportRenderFailure s1
         | Inr (s2, _) \<Rightarrow> s2)"

text \<open>A render task settles: \<open>renderPage\<close> goes on, and with it its caller.\<close>

definition on_settled :: "rounding \<Rightarrow> url_params \<Rightarrow> nat \<Rightarrow> outcome \<Rightarrow> app \<Rightarrow> app" where
  "on_settled fl u i r s =
     (let (s1, ok) = renderPage_end fl i r (s\<lparr>ap_tasks := (ap_tasks s)[i := Settled r]\<rparr>)
      in case ap_phase s of
           FirstRender j failed \<Rightarrow>
             if i = j then (if ok then start_end u failed s1 else start_failed s1)
             else if ok then s1 else reportRenderFailure s1
         | _ \<Rightarrow> if ok then s1 else reportRenderFailure s1)"

text \<open>
  The interleavings: every order of the events of the browser.  A task that was not asked
  to cancel does not settle as cancelled.
\<close>

inductive app_step :: "rounding \<Rightarrow> url_params \<Rightarrow> app \<Rightarrow> app \<Rightarrow> bool" for fl u where
  Start: "ap_phase s = NotStarted \<Longrightarrow> app_step fl u s (start_begin u s)"
| Document: "ap_phase s = LoadingDocument \<Longrightarrow> app_step fl u s (start_document ok s)"
| Page: "ap_phase s = LoadingPage \<Longrightarrow> app_step fl u s (start_page u pg s)"
| Boxes: "ap_phase s = FetchingBoxes \<Longrightarrow> app_step fl u s (start_boxes fl u env resp s)"
| Resize: "ap_observing s \<Longrightarrow> app_step fl u s (on_resize env s)"
| Timer: "ap_timer s \<Longrightarrow> app_step fl u s (on_timer fl env s)"
| Settle: "i < length (ap_tasks s) \<Longrightarrow>
    ap_tasks s ! i = Running \<and> r \<noteq> RenderingCancelled \<or> ap_tasks s ! i = CancelRequested \<Longrightarrow>
    app_step fl u s (on_settled fl u i r s)"

inductive app_reachable :: "rounding \<Rightarrow> url_params \<Rightarrow> app \<Rightarrow> bool" for fl u where
  Init: "app_reachable fl u initial_app"
| Step: "app_reachable fl u s \<Longrightarrow> app_step fl u s s' \<Longrightarrow> app_reachable fl u s'"

inductive_cases app_stepE: "app_step fl u s s'"

section \<open>The invariant of the page\<close>

text \<open>What \<open>normalizeBoxes\<close> lets through.\<close>

definition box_ok :: "rounding \<Rightarrow> box \<Rightarrow> bool" where
  "box_ok fl b \<longleftrightarrow> isFinite (b_x0 b) \<and> isFinite (b_y0 b) \<and> isFinite (b_x1 b) \<and> isFinite (b_y1 b) \<and>
     \<not> num_lt (num_abs (num_sub fl (b_x1 b) (b_x0 b))) (Num (1 / 2)) \<and>
     \<not> num_lt (num_abs (num_sub fl (b_y1 b) (b_y0 b))) (Num (1 / 2))"

lemma normalizeEntry_ok: "b \<in> set (normalizeEntry fl e) \<Longrightarrow> box_ok fl b"
  by (auto simp: normalizeEntry_def box_ok_def Let_def split: option.splits if_splits)

lemma normalizeBoxes_ok: "b \<in> set (fst (normalizeBoxes fl payload)) \<Longrightarrow> box_ok fl b"
  by (auto simp: normalizeBoxes_def normalizeEntry_ok)

fun early :: "phase \<Rightarrow> bool" where
  "early (FirstRender _ _) = False"
| "early Finished = False"
| "early _ = True"

text \<open>At most one task is running: the one in \<open>state.renderTask\<close>, which is the last one started.\<close>

definition tasks_ok :: "nat option \<Rightarrow> task list \<Rightarrow> bool" where
  "tasks_ok rt ts \<longleftrightarrow>
     (\<forall>j < length ts. ts ! j = Running \<longleftrightarrow> rt = Some j) \<and>
     (case rt of None \<Rightarrow> True | Some i \<Rightarrow> Suc i = length ts)"

text \<open>When the last render succeeded, the overlay shows the boxes in the current viewport.\<close>

definition overlay_ok :: "rounding \<Rightarrow> task list \<Rightarrow> hrect list \<Rightarrow> viewport option \<Rightarrow> box list \<Rightarrow> bool" where
  "overlay_ok fl ts ov vp bs \<longleftrightarrow>
     (ts \<noteq> [] \<and> last ts = Settled Rendered \<longrightarrow> ov = drawHighlights fl vp bs) \<and> (\<forall>b \<in> set bs. box_ok fl b)"

fun unsettled :: "task \<Rightarrow> bool" where
  "unsettled (Settled r) = False"
| "unsettled t = True"

text \<open>Nothing renders before the boxes are there; \<open>start\<close> awaits a task that has not settled.\<close>

definition phase_ok :: "phase \<Rightarrow> task list \<Rightarrow> bool \<Rightarrow> bool \<Rightarrow> bool" where
  "phase_ok ph ts obs tm \<longleftrightarrow> (early ph \<longrightarrow> ts = [] \<and> \<not> obs) \<and> (tm \<longrightarrow> obs) \<and>
     (case ph of FirstRender i f \<Rightarrow> i < length ts \<and> unsettled (ts ! i) | _ \<Rightarrow> True)"

definition app_inv :: "rounding \<Rightarrow> app \<Rightarrow> bool" where
  "app_inv fl s \<longleftrightarrow>
     tasks_ok (ap_renderTask s) (ap_tasks s) \<and>
     overlay_ok fl (ap_tasks s) (ap_overlay s) (ap_viewport s) (ap_boxes s) \<and>
     phase_ok (ap_phase s) (ap_tasks s) (ap_observing s) (ap_timer s)"

lemma setStatus_simps [simp]:
  "app_inv fl (setStatus m t s) = app_inv fl s" "ap_phase (setStatus m t s) = ap_phase s"
  "ap_boxes (setStatus m t s) = ap_boxes s" "ap_status (setStatus m t s) = (m, t)"
  by (simp_all add: app_inv_def setStatus_def)

lemma reportRenderFailure_inv [simp]: "app_inv fl (reportRenderFailure s) = app_inv fl s"
  by (simp add: reportRenderFailure_def)

lemma renderMeta_inv [simp]: "app_inv fl (renderMeta u s) = app_inv fl s"
  by (simp add: app_inv_def renderMeta_def Let_def)

lemma finished_inv: "app_inv fl s \<Longrightarrow> app_inv fl (s\<lparr>ap_phase := Finished\<rparr>)"
  by (simp add: app_inv_def phase_ok_def)

lemma start_end_inv: "app_inv fl (s\<lparr>ap_phase := Finished\<rparr>) \<Longrightarrow> app_inv fl (start_end u f s)"
  by (simp add: start_end_def split: prod.split)

lemma start_failed_inv: "app_inv fl (s\<lparr>ap_phase := Finished\<rparr>) \<Longrightarrow> app_inv fl (start_failed s)"
  by (simp add: start_failed_def)

lemma length_cancel_task [simp]: "length (cancel_task t ts) = length ts"
  by (simp add: cancel_task_def split: option.split)

text \<open>Cancelling the current task leaves none running.\<close>

lemma cancel_task_none_running:
  "tasks_ok t ts \<Longrightarrow> j < length ts \<Longrightarrow> cancel_task t ts ! j \<noteq> Running"
  by (auto simp: tasks_ok_def cancel_task_def nth_list_update split: option.splits)

lemma tasks_ok_new:
  "tasks_ok t ts \<Longrightarrow> tasks_ok (Some (length ts)) (cancel_task t ts @ [Running])"
  using cancel_task_none_running [of t ts] by (auto simp: tasks_ok_def nth_append less_Suc_eq)

lemma tasks_ok_settle:
  "tasks_ok t ts \<Longrightarrow> i < length ts \<Longrightarrow> tasks_ok (if t = Some i then None else t) (ts[i := Settled r])"
  by (auto simp: tasks_ok_def nth_list_update split: option.splits)

lemma unsettled_cancel_task: "unsettled (ts ! j) \<Longrightarrow> unsettled (cancel_task t ts ! j)"
  by (cases "j < length ts") (auto simp: cancel_task_def nth_list_update split: option.split)

lemma phase_ok_new:
  "phase_ok ph ts obs tm \<Longrightarrow> \<not> early ph \<or> obs \<Longrightarrow> phase_ok ph (cancel_task t ts @ [Running]) obs tm"
  by (auto simp: phase_ok_def nth_append unsettled_cancel_task split: phase.splits)

lemma phase_ok_settle:
  "phase_ok ph ts obs tm \<Longrightarrow> \<forall>f. ph \<noteq> FirstRender i f \<Longrightarrow> phase_ok ph (ts[i := Settled r]) obs tm"
  by (auto simp: phase_ok_def nth_list_update split: phase.splits)

lemma renderPage_begin_inv:
  assumes "app_inv fl s" and "\<not> early (ap_phase s) \<or> ap_observing s" and "renderPage_begin fl env s = Inr (s', t)"
  shows "app_inv fl s' \<and> ap_phase s' = ap_phase s"
proof (cases "ap_page s")
  case None
  with assms show ?thesis by (simp add: renderPage_begin_def)
next
  case (Some page)
  let ?ts = "cancel_task (ap_renderTask s) (ap_tasks s)"
  from Some assms(3) obtain v cv where s': "s' = s\<lparr>ap_viewport := Some v, ap_canvas := Some cv,
      ap_tasks := ?ts @ [Running], ap_renderTask := Some (length (ap_tasks s))\<rparr>"
    by (auto simp: renderPage_begin_def rbind_eq_Inr Let_def)
  with assms(1,2) show ?thesis
    by (simp add: app_inv_def tasks_ok_new phase_ok_new) (simp add: overlay_ok_def)
qed

lemma renderPage_begin_task:
  "renderPage_begin fl env s = Inr (s', Some a) \<Longrightarrow> a < length (ap_tasks s') \<and> unsettled (ap_tasks s' ! a)"
  by (auto simp: renderPage_begin_def rbind_eq_Inr Let_def nth_append split: option.splits)

lemma phase_ok_timer: "phase_ok ph ts obs tm \<Longrightarrow> tm' \<longrightarrow> obs \<Longrightarrow> phase_ok ph ts obs tm'"
  by (simp add: phase_ok_def)

lemma renderPage_end_inv:
  assumes inv: "app_inv fl s" and i: "i < length (ap_tasks s)"
    and e: "renderPage_end fl i r (s\<lparr>ap_tasks := (ap_tasks s)[i := Settled r]\<rparr>) = (s', ok)"
  shows "app_inv fl (s'\<lparr>ap_phase := Finished\<rparr>)"
    and "\<forall>f. ap_phase s \<noteq> FirstRender i f \<Longrightarrow> app_inv fl s'"
    and "ap_phase s' = ap_phase s"
proof -
  have t: "ap_tasks s' = (ap_tasks s)[i := Settled r]"
    "ap_renderTask s' = (if ap_renderTask s = Some i then None else ap_renderTask s)"
    "ap_phase s' = ap_phase s" "ap_boxes s' = ap_boxes s" "ap_viewport s' = ap_viewport s"
    "ap_observing s' = ap_observing s" "ap_timer s' = ap_timer s"
    "ap_overlay s' = (if r = Rendered then drawHighlights fl (ap_viewport s) (ap_boxes s) else ap_overlay s)"
    using e by (auto simp: renderPage_end_def Let_def split: outcome.splits if_splits)
  have "overlay_ok fl (ap_tasks s') (ap_overlay s') (ap_viewport s') (ap_boxes s')"
    using inv i by (auto simp: app_inv_def overlay_ok_def t last_list_update split: if_splits)
  moreover have "phase_ok Finished (ap_tasks s') (ap_observing s') (ap_timer s')"
    using inv by (auto simp: app_inv_def phase_ok_def t)
  ultimately show "app_inv fl (s'\<lparr>ap_phase := Finished\<rparr>)"
      "\<forall>f. ap_phase s \<noteq> FirstRender i f \<Longrightarrow> app_inv fl s'" "ap_phase s' = ap_phase s"
    using inv i by (simp_all add: app_inv_def t tasks_ok_settle phase_ok_settle)
qed

lemma on_settled_inv:
  assumes "app_inv fl s" and "i < length (ap_tasks s)"
  shows "app_inv fl (on_settled fl u i r s)"
proof -
  obtain s1 ok where e: "renderPage_end fl i r (s\<lparr>ap_tasks := (ap_tasks s)[i := Settled r]\<rparr>) = (s1, ok)"
    by fastforce
  note inv = renderPage_end_inv [OF assms e]
  show ?thesis
  proof (cases "\<exists>f. ap_phase s = FirstRender i f")
    case True
    then show ?thesis using inv(1) e by (auto simp: on_settled_def start_end_inv start_failed_inv)
  next
    case False
    then have "app_inv fl s1" using inv(2) by blast
    then show ?thesis using False e by (auto simp: on_settled_def split: phase.split)
  qed
qed

lemma start_boxes_inv:
  assumes inv: "app_inv fl s" and ph: "ap_phase s = FetchingBoxes"
  shows "app_inv fl (start_boxes fl u env resp s)"
proof -
  obtain failed bs sec where f: "(case fetchHighlightBoxes fl resp of
      Some (bs, sec) \<Rightarrow> (False, bs, sec) | None \<Rightarrow> (True, [], None)) = (failed, bs, sec)"
    by (cases "case fetchHighlightBoxes fl resp of Some (bs, sec) \<Rightarrow> (False, bs, sec) | None \<Rightarrow> (True, [], None)")
  then have ok: "\<forall>b \<in> set bs. box_ok fl b"
    using normalizeBoxes_ok [of _ fl]
    by (auto simp: fetchHighlightBoxes_def split: option.splits if_splits prod.splits) (metis fst_conv)+
  define s2 where "s2 = (renderMeta u (s\<lparr>ap_boxes := bs, ap_section := sec\<rparr>))
      \<lparr>ap_stageWidth := num_round (clientWidth env), ap_observing := True\<rparr>"
  have e: "start_boxes fl u env resp s = (case renderPage_begin fl env s2 of
      Inl e \<Rightarrow> start_failed s2
    | Inr (s3, None) \<Rightarrow> start_end u failed s3
    | Inr (s3, Some i) \<Rightarrow> s3\<lparr>ap_phase := FirstRender i failed\<rparr>)"
    unfolding start_boxes_def f Let_def prod.case s2_def by (rule refl)
  let ?s2 = "s2\<lparr>ap_phase := Finished\<rparr>"
  have inv2: "app_inv fl ?s2"
    using inv ph ok by (auto simp: app_inv_def s2_def renderMeta_def Let_def phase_ok_def overlay_ok_def)
  have comm: "renderPage_begin fl env ?s2 =
      (case renderPage_begin fl env s2 of Inl e \<Rightarrow> Inl e | Inr (s3, t) \<Rightarrow> Inr (s3\<lparr>ap_phase := Finished\<rparr>, t))"
    by (auto simp: renderPage_begin_def Let_def rbind_def split: option.split sum.split)
  show ?thesis
  proof (cases "renderPage_begin fl env s2")
    case (Inl e)
    then show ?thesis using inv2 by (simp add: e [simplified Inl] start_failed_def)
  next
    case (Inr r)
    obtain s3 t where r: "r = (s3, t)" by fastforce
    have "app_inv fl (s3\<lparr>ap_phase := Finished\<rparr>)"
      using renderPage_begin_inv [OF inv2] comm Inr r by simp
    then show ?thesis using Inr r renderPage_begin_task [of fl env s2 s3]
      by (cases t) (auto simp: e start_end_def app_inv_def phase_ok_def setStatus_def split: prod.split)
  qed
qed

lemma app_step_inv:
  assumes "app_inv fl s" and "app_step fl u s s'"
  shows "app_inv fl s'"
  using assms(2)
proof (cases rule: app_step.cases)
  case Start
  with assms(1) show ?thesis
    by (simp add: start_begin_def finished_inv) (auto simp: app_inv_def phase_ok_def)
next
  case (Document ok)
  with assms(1) show ?thesis
    by (simp add: start_document_def finished_inv) (auto simp: app_inv_def phase_ok_def)
next
  case (Page pg)
  with assms(1) show ?thesis
    by (cases pg) (auto simp: start_page_def app_inv_def phase_ok_def setStatus_def)
next
  case (Boxes env resp)
  with assms(1) show ?thesis by (simp add: start_boxes_inv)
next
  case (Resize env)
  with assms(1) show ?thesis by (auto simp: on_resize_def Let_def app_inv_def intro: phase_ok_timer [of _ _ _ "ap_timer s"])
next
  case (Timer env)
  then have "ap_observing (s\<lparr>ap_timer := False\<rparr>)" using assms(1) by (simp add: app_inv_def phase_ok_def)
  moreover have inv': "app_inv fl (s\<lparr>ap_timer := False\<rparr>)"
    using assms(1) by (simp add: app_inv_def phase_ok_timer [of _ _ _ "ap_timer s"])
  ultimately have "renderPage_begin fl env (s\<lparr>ap_timer := False\<rparr>) = Inr (s2, t) \<Longrightarrow> app_inv fl s2" for s2 t
    using renderPage_begin_inv by blast
  with inv' show ?thesis using Timer(1)
    by (cases "renderPage_begin fl env (s\<lparr>ap_timer := False\<rparr>)") (simp_all add: on_timer_def split: prod.split)
next
  case (Settle i r)
  with assms(1) show ?thesis by (simp add: on_settled_inv)
qed

lemma app_reachable_inv: "app_reachable fl u s \<Longrightarrow> app_inv fl s"
proof (induction rule: app_reachable.induct)
  case Init
  show ?case by (simp add: initial_app_def app_inv_def tasks_ok_def overlay_ok_def phase_ok_def)
qed (rule app_step_inv)

section \<open>Correctness of the page\<close>

text \<open>
  C1: renders never overlap.  In every reachable state of the page, whatever the order of
  resizes, timers and task completions, a render task is running exactly when it is the
  one in \<open>state.renderTask\<close>, and that one is the last task started: every earlier task
  has settled or was asked to cancel.
\<close>

theorem single_render:
  assumes "app_reachable fl u s"
  shows "(\<forall>j < length (ap_tasks s). ap_tasks s ! j = Running \<longleftrightarrow> ap_renderTask s = Some j) \<and>
    (\<forall>i. ap_renderTask s = Some i \<longrightarrow> Suc i = length (ap_tasks s))"
  using app_reachable_inv [OF assms] by (auto simp: app_inv_def tasks_ok_def)

text \<open>
  C2: the overlay is never stale at rest.  In every reachable state in which the last
  render task has rendered, the overlay holds exactly the rectangles of the accepted
  boxes in the viewport on display, although the viewport is replaced before a render
  and cancelled renders skip the drawing.
\<close>

theorem overlay_current:
  assumes "app_reachable fl u s" and "ap_tasks s \<noteq> []" and "last (ap_tasks s) = Settled Rendered"
  shows "ap_overlay s = drawHighlights fl (ap_viewport s) (ap_boxes s)"
  using app_reachable_inv [OF assms(1)] assms(2,3) by (simp add: app_inv_def overlay_ok_def)


text \<open>A run of the page on a small document, used to instantiate the statements above.\<close>

definition demo_params :: url_params where
  "demo_params = \<lparr>u_source = js ''s'', u_excerpt = [], u_page = Num 1\<rparr>"

definition demo_page :: page_proxy where
  "demo_page = \<lparr>pg_view = (Num 0, Num 0, Num 200, Num 100), pg_userUnit = Num 1, pg_rotate = Num 0\<rparr>"

definition demo_env :: browser where
  "demo_env = \<lparr>clientWidth = Num 402, devicePixelRatio = Num 1\<rparr>"

definition demo_response :: response where
  "demo_response = \<lparr>r_ok = True, r_status = 200,
     r_body = Some (JArr [JArr [JNum (Num 10), JNum (Num 10), JNum (Num 60), JNum (Num 20)]])\<rparr>"

definition demo_started :: app where
  "demo_started = start_boxes Num demo_params demo_env (Some demo_response)
     (start_page demo_params (Some demo_page) (start_document True (start_begin demo_params initial_app)))"

lemma demo_started_simps:
  "ap_tasks demo_started = [Running]" "ap_phase demo_started = FirstRender 0 False"
  "ap_boxes demo_started = [\<lparr>b_x0 = Num 10, b_y0 = Num 10, b_x1 = Num 60, b_y1 = Num 20\<rparr>]"
  by (simp_all add: demo_started_def demo_params_def demo_page_def demo_env_def demo_response_def
      initial_app_def start_begin_def start_document_def start_page_def start_boxes_def fetchHighlightBoxes_def
      normalizeBoxes_def raw_boxes_def json_array_def normalizeEntry_def entry_corners_def toNumber_opt_def
      payload_section_def renderMeta_def section_title_def setStatus_def renderPage_begin_def fitViewport_def
      getViewport_def mk_viewport_def norm_rotation_def rat_trunc_def rotate_matrix_def MAX_SCALE_def MIN_SCALE_def
      STAGE_GUTTER_def cancel_task_def Let_def)

lemma demo_started_reachable: "app_reachable Num demo_params demo_started"
proof -
  let ?s1 = "start_begin demo_params initial_app"
  let ?s2 = "start_document True ?s1"
  let ?s3 = "start_page demo_params (Some demo_page) ?s2"
  have ph: "ap_phase ?s1 = LoadingDocument" "ap_phase ?s2 = LoadingPage" "ap_phase ?s3 = FetchingBoxes"
    by (simp_all add: start_begin_def start_document_def start_page_def demo_params_def renderMeta_def Let_def)
  have "app_reachable Num demo_params ?s1"
    by (rule app_reachable.Step [OF app_reachable.Init app_step.Start]) (simp add: initial_app_def)
  then have "app_reachable Num demo_params ?s2" by (rule app_reachable.Step) (rule app_step.Document, rule ph)
  then have "app_reachable Num demo_params ?s3" by (rule app_reachable.Step) (rule app_step.Page, rule ph)
  then show ?thesis unfolding demo_started_def
    by (rule app_reachable.Step) (rule app_step.Boxes, rule ph)
qed

definition demo_rendered :: app where
  "demo_rendered = on_settled Num demo_params 0 Rendered demo_started"

lemma demo_rendered_reachable: "app_reachable Num demo_params demo_rendered"
  unfolding demo_rendered_def
  by (rule app_reachable.Step [OF demo_started_reachable app_step.Settle]) (simp_all add: demo_started_simps)

lemma demo_rendered_tasks: "ap_tasks demo_rendered = [Settled Rendered]"
  by (simp add: demo_rendered_def on_settled_def demo_started_simps renderPage_end_def start_end_def setStatus_def
      Let_def split: prod.split)

theorem single_render_witness:
  "ap_renderTask demo_started = Some 0 \<and> length (ap_tasks demo_started) = 1"
  using single_render [OF demo_started_reachable] by (auto simp: demo_started_simps)

theorem overlay_current_witness:
  "ap_overlay demo_rendered = drawHighlights Num (ap_viewport demo_rendered) (ap_boxes demo_rendered)"
  by (rule overlay_current [OF demo_rendered_reachable]) (simp_all add: demo_rendered_tasks)


subsection \<open>The parameters and the boxes\<close>

lemma takeWhile_all: "list_all P xs \<Longrightarrow> takeWhile P xs = xs"
  by (induction xs) auto

lemma dec_digit_not_space: "dec_digit c \<Longrightarrow> \<not> js_space c \<and> c \<noteq> 45 \<and> c \<noteq> 43"
  by (auto simp: dec_digit_def js_space_def)

lemma parseInt10_digits:
  assumes "list_all dec_digit ds" and "ds \<noteq> []"
  shows "parseInt10 fl ds = fl (of_nat (dec_val ds))"
proof -
  obtain c t where "ds = c # t" "dec_digit c" using assms by (cases ds) auto
  with assms dec_digit_not_space [of c] show ?thesis
    by (auto simp: parseInt10_def trimStart_def takeWhile_all Let_def)
qed

text \<open>
  The page number is always a positive finite Number, whatever the URL says, and a
  decimal number in the URL that is positive after rounding is the page number.
\<close>

theorem pageNumber_positive:
  "(\<exists>n > 0. pageNumber fl p = Num n) \<and>
   (list_all dec_digit ds \<and> ds \<noteq> [] \<and> fl (of_nat (dec_val ds)) = Num m \<and> 0 < m \<longrightarrow>
      pageNumber fl (Some ds) = Num m)"
proof
  show "\<exists>n > 0. pageNumber fl p = Num n"
    by (auto simp: pageNumber_def Let_def isFinite_iff)
  show "list_all dec_digit ds \<and> ds \<noteq> [] \<and> fl (of_nat (dec_val ds)) = Num m \<and> 0 < m \<longrightarrow>
      pageNumber fl (Some ds) = Num m"
    by (auto simp: pageNumber_def requestedPage_def parseInt10_digits)
qed

lemma length_normalizeEntry: "length (normalizeEntry fl e) \<le> 1"
  by (simp add: normalizeEntry_def Let_def split: option.split prod.split)

text \<open>
  C14: \<open>normalizeBoxes\<close> returns only usable boxes: whatever the JSON payload, every box it
  returns has four finite corners and spans at least half a unit in both directions, and
  there are at most as many boxes as entries.
\<close>

theorem normalizeBoxes_sound:
  "(\<forall>b \<in> set (fst (normalizeBoxes fl payload)). box_ok fl b) \<and>
   length (fst (normalizeBoxes fl payload)) \<le> length (raw_boxes payload)"
proof
  show "\<forall>b \<in> set (fst (normalizeBoxes fl payload)). box_ok fl b"
    by (simp add: normalizeBoxes_ok)
  have "length (concat (map (normalizeEntry fl) es)) \<le> length es" for es
  proof (induction es)
    case (Cons e es)
    then show ?case using length_normalizeEntry [of fl e] by simp
  qed simp
  then show "length (fst (normalizeBoxes fl payload)) \<le> length (raw_boxes payload)"
    by (simp add: normalizeBoxes_def)
qed

theorem normalizeBoxes_sound_witness:
  "list_all (box_ok Num) (fst (normalizeBoxes Num (JArr [JArr [JNull, JStr [], JNum (Num 3), JBool True], JArr []]))) \<and>
   fst (normalizeBoxes Num (JArr [JArr [JNull, JStr [], JNum (Num 3), JBool True], JArr []]))
     = [\<lparr>b_x0 = Num 0, b_y0 = Num 0, b_x1 = Num 3, b_y1 = Num 1\<rparr>]"
proof
  show "list_all (box_ok Num) (fst (normalizeBoxes Num (JArr [JArr [JNull, JStr [], JNum (Num 3), JBool True], JArr []])))"
    unfolding list_all_iff using normalizeBoxes_sound by blast
qed (simp add: normalizeBoxes_def raw_boxes_def json_array_def normalizeEntry_def entry_corners_def toNumber_opt_def
    stringToNumber_def js_trim_def trimStart_def Let_def)

text \<open>The two forms of an entry and the three envelopes of the boxes route.\<close>

definition box_array :: "box \<Rightarrow> json" where
  "box_array b = JArr [JNum (b_x0 b), JNum (b_y0 b), JNum (b_x1 b), JNum (b_y1 b)]"

definition box_object :: "box \<Rightarrow> json" where
  "box_object b = JObj [(js ''x0'', JNum (b_x0 b)), (js ''y0'', JNum (b_y0 b)),
     (js ''x1'', JNum (b_x1 b)), (js ''y1'', JNum (b_y1 b))]"

lemma normalizeEntry_box:
  assumes "box_ok fl b"
  shows "normalizeEntry fl (box_array b) = [b]" and "normalizeEntry fl (box_object b) = [b]"
  using assms by (simp_all add: normalizeEntry_def box_array_def box_object_def entry_corners_def member_def
      toNumber_opt_def box_ok_def js_def)

lemma normalizeEntries_boxes:
  assumes "\<forall>(b, form) \<in> set bfs. box_ok fl b \<and> (form = box_array b \<or> form = box_object b)"
  shows "concat (map (normalizeEntry fl) (map snd bfs)) = map fst bfs"
  using assms by (induction bfs) (auto simp: normalizeEntry_box)

text \<open>
  C15: \<open>normalizeBoxes\<close> loses nothing: a list of usable boxes, each written as a four-number
  array or as an object with the members \<open>x0\<close>, \<open>y0\<close>, \<open>x1\<close>, \<open>y1\<close>, comes back unchanged and
  in order from a bare list, from \<open>{boxes, section}\<close> and from \<open>{rects}\<close>; the section is
  returned when it is truthy.
\<close>

theorem normalizeBoxes_complete:
  assumes "\<forall>(b, form) \<in> set bfs. box_ok fl b \<and> (form = box_array b \<or> form = box_object b)"
  shows "normalizeBoxes fl (JArr (map snd bfs)) = (map fst bfs, None) \<and>
    normalizeBoxes fl (JObj [(js ''boxes'', JArr (map snd bfs)), (js ''section'', sec)])
      = (map fst bfs, if json_truthy sec then Some sec else None) \<and>
    normalizeBoxes fl (JObj [(js ''rects'', JArr (map snd bfs))]) = (map fst bfs, None)"
  using normalizeEntries_boxes [OF assms]
  by (simp_all add: normalizeBoxes_def raw_boxes_def json_array_def member_def payload_section_def js_def)

subsection \<open>The scale\<close>

lemma getViewport_scale: "getViewport fl page s = Inr v \<Longrightarrow> vp_scale v = s"
  by (cases "pg_view page"; clarsimp simp: getViewport_def mk_viewport_def Let_def rbind_eq_Inr split: prod.splits)
    (auto split: if_splits)

text \<open>
  The page is always drawn at a scale between \<open>MIN_SCALE\<close> and \<open>MAX_SCALE\<close>, for every
  rounding that yields no NaN and every finite page width (zero and negative ones
  included) and stage width.
\<close>

theorem fitViewport_scale_bounds:
  assumes "\<forall>x. fl x \<noteq> NaN" and "MIN_SCALE fl = Num lo" and "lo \<le> 2"
    and "getViewport fl page (Num 1) = Inr v0" and "vp_width v0 = Num w"
    and "fitViewport fl page (Num stageWidth) = Inr v"
  shows "\<exists>s. vp_scale v = Num s \<and> lo \<le> s \<and> s \<le> 2"
proof -
  let ?usable = "num_max (num_sub fl (Num stageWidth) STAGE_GUTTER) (Num 240)"
  have u: "?usable = PInf \<or> (\<exists>q \<ge> 240. ?usable = Num q)"
    using assms(1) [rule_format, of "stageWidth - 2"]
    by (cases "fl (stageWidth - 2)") (auto simp: STAGE_GUTTER_def num_max_def)
  have "num_div fl ?usable (Num w) \<noteq> NaN"
    using u assms(1) by (auto simp: inf_of_sign_def split: if_splits)
  with clamp_bounds [OF this assms(3)] assms(2,4,5,6) show ?thesis
    by (auto simp: fitViewport_def Let_def MAX_SCALE_def dest!: getViewport_scale)
qed

lemma fl64_not_NaN: "fl64 x \<noteq> NaN"
  by (simp add: fl64_def Let_def)

theorem normalizeBoxes_complete_witness:
  "normalizeBoxes Num (JArr (map snd [(\<lparr>b_x0 = Num 1, b_y0 = Num 2, b_x1 = Num 3, b_y1 = Num 4\<rparr>,
        box_array \<lparr>b_x0 = Num 1, b_y0 = Num 2, b_x1 = Num 3, b_y1 = Num 4\<rparr>)]))
    = ([\<lparr>b_x0 = Num 1, b_y0 = Num 2, b_x1 = Num 3, b_y1 = Num 4\<rparr>], None)"
proof -
  let ?b = "\<lparr>b_x0 = Num 1, b_y0 = Num 2, b_x1 = Num 3, b_y1 = Num 4\<rparr>"
  have "\<forall>(b, form) \<in> set [(?b, box_array ?b)]. box_ok Num b \<and> (form = box_array b \<or> form = box_object b)"
    by (simp add: box_ok_def)
  from normalizeBoxes_complete [OF this, of JNull] show ?thesis by simp
qed

subsection \<open>The geometry of the overlay\<close>

text \<open>The width of a viewport grows linearly with the scale.\<close>

lemma getViewport_width:
  assumes "pg_view page = (Num x0, Num y0, Num x1, Num y1)" and "pg_userUnit page = Num u"
    and "getViewport Num page (Num s) = Inr v" and "getViewport Num page (Num t) = Inr w"
  shows "\<exists>a. vp_width v = Num (a * s) \<and> vp_width w = Num (a * t)"
proof -
  from assms(1,2,3) have "mk_viewport Num (Num x0, Num y0, Num x1, Num y1) (Num u) (Num s) (pg_rotate page) (Num 0) (Num 0) False = Inr v"
    by (simp add: getViewport_def)
  then obtain a b c d where r: "rotate_matrix (norm_rotation Num (pg_rotate page)) = Inr (a, b, c, d)"
    and g: "viewport_geometry v x0 y0 x1 y1 (s * u) 0 0 a b c d"
    by (rule mk_viewport_geometry) auto
  from assms(1,2,4) have "mk_viewport Num (Num x0, Num y0, Num x1, Num y1) (Num u) (Num t) (pg_rotate page) (Num 0) (Num 0) False = Inr w"
    by (simp add: getViewport_def)
  then have h: "viewport_geometry w x0 y0 x1 y1 (t * u) 0 0 a b c d"
    by (rule mk_viewport_geometry) (use r in auto)
  define k where "k = (if a = 0 then y1 - y0 else x1 - x0) * u"
  have "vp_width v = Num (k * s)" "vp_width w = Num (k * t)"
    using g h by (auto simp: viewport_geometry_def Let_def k_def mult_ac split: if_splits prod.splits)
  then show ?thesis by blast
qed

text \<open>
  The page fills the stage.  In exact arithmetic, when the width of the page at scale 1
  needs a scale between \<open>MIN_SCALE\<close> and \<open>MAX_SCALE\<close> to be as wide as the usable part of
  the stage (its width less the gutter, at least 240), the fitted viewport is exactly that
  wide.
\<close>

theorem fitViewport_fills_stage:
  assumes "pg_view page = (Num x0, Num y0, Num x1, Num y1)" and "pg_userUnit page = Num u"
    and "getViewport Num page (Num 1) = Inr v0" and "vp_width v0 = Num w" and "0 < w"
    and "usable = max (stageWidth - 2) 240" and "4 / 10 * w \<le> usable" and "usable \<le> 2 * w"
    and "fitViewport Num page (Num stageWidth) = Inr v"
  shows "vp_width v = Num usable"
proof -
  have s: "4 / 10 \<le> usable / w" "usable / w \<le> 2" using assms(5,7,8) by (simp_all add: field_simps)
  have "fitViewport Num page (Num stageWidth) = getViewport Num page (Num (min 2 (max (4 / 10) (usable / w))))"
    using assms(3,4,5,6) by (simp add: fitViewport_def Let_def MAX_SCALE_def MIN_SCALE_def STAGE_GUTTER_def)
  also have "min 2 (max (4 / 10) (usable / w)) = usable / w" using s by simp
  finally have v: "getViewport Num page (Num (usable / w)) = Inr v" using assms(9) by simp
  from getViewport_width [OF assms(1,2,3) v] assms(4,5) show ?thesis by auto
qed








end
