(* ===== verification/Streams.thy ===== *)
theory Streams
  imports Js_Prelude
begin

text \<open>
  The byte streams of the worker: \<open>BaseStream\<close>/\<open>Stream\<close> (a cursor over a byte array)
  and \<open>DecodeStream\<close> (the base class of every filter: a growing output buffer that
  subclasses fill one block at a time through \<open>readBlock\<close>).

  A \<open>DecodeStream\<close> object is the record \<open>dstream\<close> with the fields of the base class
  and, in \<open>sub\<close>, the fields of the subclass.  The virtual method \<open>readBlock\<close> is an
  argument of the operations that call it.  The contract a subclass has to meet is the
  locale \<open>block_decoder\<close>; what the base class promises its callers (reading in any
  pattern gives the bytes of the complete decoding, and every read returns) is proved
  there once.
\<close>

section \<open>Stream\<close>

record stream =
  s_bytes :: bytes
  s_start :: nat
  s_pos :: nat
  s_end :: nat

text \<open>
  The constructor; \<open>None\<close> is an argument that is \<open>undefined\<close> or \<open>NaN\<close>.  As in the
  source, an end position of 0 is falsy and selects the length of the array.
\<close>

definition mk_stream :: "bytes \<Rightarrow> nat option \<Rightarrow> nat option \<Rightarrow> stream" where
  "mk_stream arr start len =
     (let st = (case start of None \<Rightarrow> 0 | Some s \<Rightarrow> s);
          en = (case (start, len) of
                  (Some s, Some l) \<Rightarrow> (if s + l = 0 then length arr else s + l)
                | _ \<Rightarrow> length arr)
      in \<lparr>s_bytes = arr, s_start = st, s_pos = st, s_end = en\<rparr>)"

definition stream_length :: "stream \<Rightarrow> int" where
  "stream_length s = int (s_end s) - int (s_start s)"

definition stream_isEmpty :: "stream \<Rightarrow> bool" where
  "stream_isEmpty s \<longleftrightarrow> stream_length s = 0"

text \<open>\<open>getByte\<close>; the end of the stream, -1 in the source, is \<open>None\<close>.\<close>

definition getByte :: "stream \<Rightarrow> u8 option \<times> stream" where
  "getByte s =
     (if s_end s \<le> s_pos s then (None, s)
      else (Some (rd (s_bytes s) (s_pos s)), s\<lparr>s_pos := s_pos s + 1\<rparr>))"

text \<open>\<open>getBytes\<close>; a length of 0 or \<open>undefined\<close> (here 0) reads to the end.\<close>

definition getBytes :: "nat \<Rightarrow> stream \<Rightarrow> bytes \<times> stream" where
  "getBytes n s =
     (let p = s_pos s;
          endPos = (if n = 0 then s_end s else min (p + n) (s_end s))
      in (subarray (s_bytes s) (int p) (int endPos), s\<lparr>s_pos := endPos\<rparr>))"

definition getByteRange :: "int \<Rightarrow> int \<Rightarrow> stream \<Rightarrow> bytes" where
  "getByteRange b e s =
     (let b' = (if b < 0 then 0 else b);
          e' = (if e > int (s_end s) then int (s_end s) else e)
      in subarray (s_bytes s) b' e')"

definition stream_reset :: "stream \<Rightarrow> stream" where
  "stream_reset s = s\<lparr>s_pos := s_start s\<rparr>"

definition moveStart :: "stream \<Rightarrow> stream" where
  "moveStart s = s\<lparr>s_start := s_pos s\<rparr>"

definition makeSubStream :: "nat option \<Rightarrow> nat option \<Rightarrow> stream \<Rightarrow> stream" where
  "makeSubStream start len s = mk_stream (s_bytes s) start len"

definition stream_clone :: "stream \<Rightarrow> stream" where
  "stream_clone s = mk_stream (s_bytes s) (Some (s_start s)) (Some (nat (stream_length s)))"

definition string_stream :: "jsstr \<Rightarrow> stream" where
  "string_stream str = mk_stream (map of_nat str) None None"

definition null_stream :: stream where
  "null_stream = mk_stream [] None None"

subsection \<open>Operations every stream inherits from BaseStream\<close>

definition peekByte :: "stream \<Rightarrow> u8 option \<times> stream" where
  "peekByte s =
     (let (peeked, s') = getByte s
      in if peeked \<noteq> None then (peeked, s'\<lparr>s_pos := s_pos s' - 1\<rparr>) else (peeked, s'))"

definition peekBytes :: "nat \<Rightarrow> stream \<Rightarrow> bytes \<times> stream" where
  "peekBytes n s =
     (let (bs, s') = getBytes n s in (bs, s'\<lparr>s_pos := s_pos s' - length bs\<rparr>))"

definition getUint16 :: "stream \<Rightarrow> int \<times> stream" where
  "getUint16 s =
     (let (b0, s1) = getByte s; (b1, s2) = getByte s1
      in (case (b0, b1) of
            (Some x, Some y) \<Rightarrow> (uint x * 256 + uint y, s2)
          | _ \<Rightarrow> (-1, s2)))"

text \<open>\<open>getInt32\<close> adds the shifted bytes as Numbers: a missing byte contributes the shifted -1.\<close>

definition byte_or_eof :: "u8 option \<Rightarrow> int" where
  "byte_or_eof b = (case b of None \<Rightarrow> -1 | Some x \<Rightarrow> uint x)"

definition shl32 :: "int \<Rightarrow> nat \<Rightarrow> int" where
  "shl32 x n = sint (push_bit n (word_of_int x :: 32 word))"

definition getInt32 :: "stream \<Rightarrow> int \<times> stream" where
  "getInt32 s =
     (let (b0, s1) = getByte s; (b1, s2) = getByte s1;
          (b2, s3) = getByte s2; (b3, s4) = getByte s3
      in (shl32 (byte_or_eof b0) 24 + shl32 (byte_or_eof b1) 16
            + shl32 (byte_or_eof b2) 8 + byte_or_eof b3, s4))"

definition skip_bytes :: "nat \<Rightarrow> stream \<Rightarrow> stream" where
  "skip_bytes n s = s\<lparr>s_pos := s_pos s + (if n = 0 then 1 else n)\<rparr>"

subsection \<open>The cursor a stream represents\<close>

definition stream_ok :: "stream \<Rightarrow> bool" where
  "stream_ok s \<longleftrightarrow> s_pos s \<le> s_end s \<and> s_end s \<le> length (s_bytes s)"

definition rest :: "stream \<Rightarrow> bytes" where
  "rest s = take (s_end s - s_pos s) (drop (s_pos s) (s_bytes s))"

lemma length_rest: "stream_ok s \<Longrightarrow> length (rest s) = s_end s - s_pos s"
  by (auto simp: stream_ok_def rest_def)

lemma mk_stream_ok [simp]: "stream_ok (mk_stream bs None None)"
  by (simp add: stream_ok_def mk_stream_def)

lemma rest_mk_stream [simp]: "rest (mk_stream bs None None) = bs"
  by (simp add: rest_def mk_stream_def)

lemma getByte_spec:
  assumes "stream_ok s"
  shows "(case rest s of
            [] \<Rightarrow> getByte s = (None, s)
          | x # xs \<Rightarrow> \<exists>s'. getByte s = (Some x, s') \<and> rest s' = xs \<and> stream_ok s')"
proof (cases "s_pos s < s_end s")
  case True
  then have p: "s_pos s < length (s_bytes s)" and le: "s_end s \<le> length (s_bytes s)"
    using assms by (auto simp: stream_ok_def)
  have "rest s = s_bytes s ! s_pos s # take (s_end s - Suc (s_pos s)) (drop (Suc (s_pos s)) (s_bytes s))"
    using True p by (simp add: rest_def take_Cons' flip: Cons_nth_drop_Suc)
  with True p le show ?thesis
    by (simp add: getByte_def stream_ok_def rest_def)
next
  case False
  then show ?thesis using assms by (simp add: getByte_def rest_def)
qed

lemma getByte_Nil: "stream_ok s \<Longrightarrow> rest s = [] \<Longrightarrow> getByte s = (None, s)"
  using getByte_spec [of s] by simp

lemma getByte_Cons:
  assumes "stream_ok s" and "rest s = x # xs"
  obtains s' where "getByte s = (Some x, s')" and "rest s' = xs" and "stream_ok s'"
  using getByte_spec [OF assms(1)] assms(2) by auto

lemma getByte_None_iff: "stream_ok s \<Longrightarrow> fst (getByte s) = None \<longleftrightarrow> rest s = []"
  using getByte_spec [of s] by (cases "rest s") auto

lemma getBytes_spec:
  assumes "stream_ok s"
  shows "\<exists>s'. getBytes n s = ((if n = 0 then rest s else take n (rest s)), s') \<and>
    rest s' = (if n = 0 then [] else drop n (rest s)) \<and> stream_ok s'"
  using assms
  by (auto simp: getBytes_def Let_def subarray_nat stream_ok_def rest_def min_def drop_take add.commute
      split: if_splits)

lemma getBytes_rest:
  assumes "stream_ok s" and "0 < n"
  obtains s' where "getBytes n s = (take n (rest s), s')" and "rest s' = drop n (rest s)"
    and "stream_ok s'"
  using getBytes_spec [OF assms(1), of n] assms(2) by auto

lemma peekByte_spec: "stream_ok s \<Longrightarrow>
    peekByte s = ((case rest s of [] \<Rightarrow> None | x # _ \<Rightarrow> Some x), s)"
  using getByte_spec [of s]
  by (cases "rest s") (auto simp: peekByte_def getByte_def split: if_splits)

section \<open>DecodeStream\<close>

record 'x dstream =
  buffer :: bytes
  bufferLength :: nat
  eof :: bool
  minBufferLength :: nat
  pos :: nat
  rawMinBufferLength :: rat
  sub :: 'x

text \<open>
  The constructor doubles the initial size of 512 until it reaches the hint (which the
  subclasses may have scaled by 0.8 or 0.5, hence a rational).
\<close>

function grow_min :: "nat \<Rightarrow> rat \<Rightarrow> nat" where
  "grow_min m hint = (if 0 < m \<and> of_nat m < hint then grow_min (2 * m) hint else m)"
  by pat_completeness auto
termination
proof (relation "measure (\<lambda>(m, hint). nat \<lceil>hint\<rceil> - m)", goal_cases)
  case (2 m hint)
  then have "int m < \<lceil>hint\<rceil>" by (simp add: less_ceiling_iff)
  then have "m < nat \<lceil>hint\<rceil>" by linarith
  with 2 show ?case by auto
qed simp

declare grow_min.simps [simp del]

definition mk_dstream :: "rat \<Rightarrow> 'x \<Rightarrow> 'x dstream" where
  "mk_dstream hint x =
     \<lparr>buffer = [], bufferLength = 0, eof = False,
      minBufferLength = (if hint \<noteq> 0 then grow_min 512 hint else 512),
      pos = 0, rawMinBufferLength = hint, sub = x\<rparr>"

text \<open>
  The doubling loop of \<open>ensureBuffer\<close>; the start value is at least 512 in every
  reachable object, the guard \<open>0 < sz\<close> only makes the function total.
\<close>

function grow_size :: "nat \<Rightarrow> nat \<Rightarrow> nat" where
  "grow_size sz requested =
     (if 0 < sz \<and> sz < requested then grow_size (sz * 2) requested else sz)"
  by pat_completeness auto
termination by (relation "measure (\<lambda>(s, r). r - s)") auto

declare grow_size.simps [simp del]

definition ensureBuffer :: "nat \<Rightarrow> 'x dstream \<Rightarrow> 'x dstream" where
  "ensureBuffer requested d =
     (if requested \<le> length (buffer d) then d
      else let sz = grow_size (minBufferLength d) requested
           in d\<lparr>buffer := buffer d @ zeros (sz - length (buffer d))\<rparr>)"

text \<open>
  The loops of the base class call \<open>readBlock\<close> until the end of the data or until the
  buffer holds enough: \<open>fill rb (Some n)\<close> is \<open>while (!eof && bufferLength < n)\<close>,
  \<open>fill rb None\<close> is \<open>while (!eof)\<close>.  \<open>None\<close> as a result means the loop does not end.
\<close>

partial_function (option) fill ::
  "('x dstream \<Rightarrow> 'x dstream res) \<Rightarrow> nat option \<Rightarrow> 'x dstream \<Rightarrow> 'x dstream res option" where
  "fill rb target d =
     (if eof d \<or> (case target of None \<Rightarrow> False | Some n \<Rightarrow> n \<le> bufferLength d) then Some (Inr d)
      else if is_ok (rb d) then fill rb target (projr (rb d)) else Some (Inl (projl (rb d))))"

definition ds_isEmpty :: "('x dstream \<Rightarrow> 'x dstream res) \<Rightarrow> 'x dstream \<Rightarrow> (bool \<times> 'x dstream) res option" where
  "ds_isEmpty rb d =
     map_option (\<lambda>r. rbind r (\<lambda>d'. Inr (bufferLength d' = 0, d'))) (fill rb (Some 1) d)"

definition ds_getByte :: "('x dstream \<Rightarrow> 'x dstream res) \<Rightarrow> 'x dstream \<Rightarrow> (u8 option \<times> 'x dstream) res option" where
  "ds_getByte rb d =
     map_option (\<lambda>r. rbind r (\<lambda>d'.
         if bufferLength d' \<le> pos d then Inr (None, d')
         else Inr (Some (rd (buffer d') (pos d)), d'\<lparr>pos := pos d' + 1\<rparr>)))
       (fill rb (Some (pos d + 1)) d)"

definition ds_getBytes :: "('x dstream \<Rightarrow> 'x dstream res) \<Rightarrow> nat \<Rightarrow> 'x dstream \<Rightarrow> (bytes \<times> 'x dstream) res option" where
  "ds_getBytes rb n d =
     (let p = pos d;
          filled = (if n \<noteq> 0 then fill rb (Some (p + n)) (ensureBuffer (p + n) d) else fill rb None d)
      in map_option (\<lambda>r. rbind r (\<lambda>d'.
           let e = (if n \<noteq> 0 then min (p + n) (bufferLength d') else bufferLength d')
           in Inr (subarray (buffer d') (int p) (int e), d'\<lparr>pos := e\<rparr>))) filled)"

definition ds_reset :: "'x dstream \<Rightarrow> 'x dstream" where
  "ds_reset d = d\<lparr>pos := 0\<rparr>"

definition ds_makeSubStream ::
  "('x dstream \<Rightarrow> 'x dstream res) \<Rightarrow> nat \<Rightarrow> nat option \<Rightarrow> 'x dstream \<Rightarrow> (stream \<times> 'x dstream) res option" where
  "ds_makeSubStream rb start len d =
     map_option (\<lambda>r. rbind r (\<lambda>d'. Inr (mk_stream (buffer d') (Some start) len, d')))
       (case len of
          None \<Rightarrow> fill rb None d
        | Some l \<Rightarrow> fill rb (Some (start + l + 1)) d)"

definition ds_clone :: "('x dstream \<Rightarrow> 'x dstream res) \<Rightarrow> 'x dstream \<Rightarrow> (stream \<times> 'x dstream) res option" where
  "ds_clone rb d =
     map_option (\<lambda>r. rbind r (\<lambda>d'. Inr (mk_stream (buffer d') (Some 0) (Some (bufferLength d')), d')))
       (fill rb None d)"

subsection \<open>Buffers\<close>

text \<open>
  The class invariant: the decoded bytes fit the buffer, and while decoding goes on the
  rest of the buffer is still zero.
\<close>

definition ds_ok :: "'x dstream \<Rightarrow> bool" where
  "ds_ok d \<longleftrightarrow> bufferLength d \<le> length (buffer d) \<and> 0 < minBufferLength d \<and>
     (\<not> eof d \<longrightarrow> drop (bufferLength d) (buffer d) = zeros (length (buffer d) - bufferLength d))"

definition content :: "'x dstream \<Rightarrow> bytes" where
  "content d = take (bufferLength d) (buffer d)"

lemma length_content [simp]: "ds_ok d \<Longrightarrow> length (content d) = bufferLength d"
  by (simp add: ds_ok_def content_def)

lemma grow_size_ge: "0 < s \<Longrightarrow> r \<le> grow_size s r"
proof (induction s r rule: grow_size.induct)
  case (1 s r)
  then show ?case by (subst grow_size.simps) auto
qed

lemma ensureBuffer_simps [simp]:
  "bufferLength (ensureBuffer n d) = bufferLength d" "eof (ensureBuffer n d) = eof d"
  "minBufferLength (ensureBuffer n d) = minBufferLength d" "pos (ensureBuffer n d) = pos d"
  "sub (ensureBuffer n d) = sub d"
  by (simp_all add: ensureBuffer_def Let_def)

lemma ensureBuffer_length:
  assumes "0 < minBufferLength d"
  shows "n \<le> length (buffer (ensureBuffer n d))"
    and "length (buffer d) \<le> length (buffer (ensureBuffer n d))"
  using assms grow_size_ge [of "minBufferLength d" n]
  by (auto simp: ensureBuffer_def Let_def)

lemma ensureBuffer_prefix: "\<exists>zs. buffer (ensureBuffer n d) = buffer d @ zs"
  by (auto simp: ensureBuffer_def Let_def)

lemma take_ensureBuffer: "k \<le> length (buffer d) \<Longrightarrow> take k (buffer (ensureBuffer n d)) = take k (buffer d)"
  using ensureBuffer_prefix [of n d] by auto

lemma ensureBuffer_ok [simp]: "ds_ok d \<Longrightarrow> ds_ok (ensureBuffer n d)"
  by (auto simp: ds_ok_def ensureBuffer_def Let_def)

lemma content_ensureBuffer [simp]: "ds_ok d \<Longrightarrow> content (ensureBuffer n d) = content d"
  by (simp add: content_def ds_ok_def take_ensureBuffer)

text \<open>What a subclass finds in the buffer after asking for space, and what it must leave there.\<close>

lemma buffer_ensured:
  assumes "ds_ok d" and "\<not> eof d"
  shows "buffer (ensureBuffer n d) = content d @ zeros (length (buffer (ensureBuffer n d)) - bufferLength d)"
proof -
  have "ds_ok (ensureBuffer n d)" and "\<not> eof (ensureBuffer n d)" using assms by simp_all
  then show ?thesis
    using assms append_take_drop_id [of "bufferLength d" "buffer (ensureBuffer n d)"]
    by (simp add: ds_ok_def content_def take_ensureBuffer)
qed

lemma obtain_ensured:
  assumes "ds_ok d" and "\<not> eof d"
  obtains m where "buffer (ensureBuffer n d) = content d @ zeros m" and "n \<le> bufferLength d + m"
proof -
  let ?m = "length (buffer (ensureBuffer n d)) - bufferLength d"
  have "n \<le> length (buffer (ensureBuffer n d))"
    using assms ensureBuffer_length(1) [of d n] by (simp add: ds_ok_def)
  then show ?thesis using that [of ?m] buffer_ensured [OF assms, of n] by simp
qed

text \<open>The object after a block that appends \<open>out\<close>, as a subclass has to leave it.\<close>

definition appends :: "'x dstream \<Rightarrow> bytes \<Rightarrow> bool \<Rightarrow> 'x \<Rightarrow> 'x dstream \<Rightarrow> bool" where
  "appends d out fin x d' \<longleftrightarrow> ds_ok d' \<and> content d' = content d @ out \<and>
     eof d' = fin \<and> sub d' = x \<and> pos d' = pos d"

lemma appendsI:
  assumes "ds_ok d" and "buffer d' = content d @ out @ zeros m"
    and "bufferLength d' = bufferLength d + length out" and "minBufferLength d' = minBufferLength d"
    and "eof d' = fin" and "sub d' = x" and "pos d' = pos d"
  shows "appends d out fin x d'"
  using assms by (simp add: appends_def ds_ok_def content_def)

lemma appends_eofI:
  assumes "ds_ok d" and "take (bufferLength d') (buffer d') = content d @ out"
    and "bufferLength d' \<le> length (buffer d')" and "minBufferLength d' = minBufferLength d"
    and "eof d'" and "sub d' = x" and "pos d' = pos d"
  shows "appends d out True x d'"
  using assms by (simp add: appends_def ds_ok_def content_def)

lemma appends_end: "ds_ok d \<Longrightarrow> appends d [] True x (d\<lparr>eof := True, sub := x\<rparr>)"
  by (simp add: appends_def ds_ok_def content_def)

lemma grow_min_pos: "0 < m \<Longrightarrow> 0 < grow_min m h"
proof (induction m h rule: grow_min.induct)
  case (1 m h)
  then show ?case by (subst grow_min.simps) auto
qed

lemma mk_dstream_ok [simp]: "ds_ok (mk_dstream h x)"
  by (simp add: ds_ok_def mk_dstream_def grow_min_pos zeros_def)

lemma mk_dstream_simps [simp]:
  "content (mk_dstream h x) = []" "eof (mk_dstream h x) = False" "pos (mk_dstream h x) = 0"
  "sub (mk_dstream h x) = x" "bufferLength (mk_dstream h x) = 0"
  by (simp_all add: content_def mk_dstream_def)

section \<open>The contract of a subclass and what the base class makes of it\<close>

text \<open>
  The complete decoding of a subclass state: iterate the abstract effect \<open>st\<close> of one
  block (the bytes it appends, whether the data ends, the new subclass state) on the
  bytes decoded so far.
\<close>

partial_function (option) decode_all ::
  "(bytes \<Rightarrow> 'x \<Rightarrow> (bytes \<times> bool \<times> 'x) res) \<Rightarrow> bytes \<Rightarrow> 'x \<Rightarrow> bytes res option" where
  "decode_all st c x =
     (if \<not> is_ok (st c x) then Some (Inl (projl (st c x)))
      else if fst (snd (projr (st c x))) then Some (Inr (c @ fst (projr (st c x))))
      else decode_all st (c @ fst (projr (st c x))) (snd (snd (projr (st c x)))))"

lemma decode_all_Inl [simp]: "st c x = Inl e \<Longrightarrow> decode_all st c x = Some (Inl e)"
  by (simp add: decode_all.simps)

lemma decode_all_last [simp]: "st c x = Inr (out, True, x') \<Longrightarrow> decode_all st c x = Some (Inr (c @ out))"
  by (simp add: decode_all.simps)

lemma decode_all_more:
  "st c x = Inr (out, False, x') \<Longrightarrow> decode_all st c x = decode_all st (c @ out) x'"
  by (subst decode_all.simps) simp

lemma fill_stop: "eof d \<or> (\<exists>n. target = Some n \<and> n \<le> bufferLength d) \<Longrightarrow> fill rb target d = Some (Inr d)"
  by (subst fill.simps) auto

lemma fill_error: "\<not> eof d \<Longrightarrow> \<not> (\<exists>n. target = Some n \<and> n \<le> bufferLength d) \<Longrightarrow> rb d = Inl e \<Longrightarrow>
    fill rb target d = Some (Inl e)"
  by (subst fill.simps) (auto split: option.splits)

lemma fill_step: "\<not> eof d \<Longrightarrow> \<not> (\<exists>n. target = Some n \<and> n \<le> bufferLength d) \<Longrightarrow> rb d = Inr d' \<Longrightarrow>
    fill rb target d = fill rb target d'"
  by (subst fill.simps) (auto split: option.splits)

text \<open>A caller that reads a list of chunk sizes, one \<open>getBytes\<close> call each.\<close>

fun read_chunks :: "('x dstream \<Rightarrow> 'x dstream res) \<Rightarrow> nat list \<Rightarrow> 'x dstream \<Rightarrow> (bytes \<times> 'x dstream) res option" where
  "read_chunks rb [] d = Some (Inr ([], d))"
| "read_chunks rb (n # ns) d =
     (case ds_getBytes rb n d of
        None \<Rightarrow> None
      | Some (Inl e) \<Rightarrow> Some (Inl e)
      | Some (Inr (bs, d')) \<Rightarrow>
          (case read_chunks rb ns d' of
             None \<Rightarrow> None
           | Some (Inl e) \<Rightarrow> Some (Inl e)
           | Some (Inr (bs', d'')) \<Rightarrow> Some (Inr (bs @ bs', d''))))"

locale block_decoder =
  fixes readBlock :: "'x dstream \<Rightarrow> 'x dstream res"
    and block :: "bytes \<Rightarrow> 'x \<Rightarrow> (bytes \<times> bool \<times> 'x) res"
    and inv :: "bytes \<Rightarrow> 'x \<Rightarrow> bool"
    and todo :: "'x \<Rightarrow> nat"
  assumes readBlock_error:
      "\<lbrakk>ds_ok d; \<not> eof d; inv (content d) (sub d); block (content d) (sub d) = Inl e\<rbrakk>
        \<Longrightarrow> readBlock d = Inl e"
    and readBlock_ok:
      "\<lbrakk>ds_ok d; \<not> eof d; inv (content d) (sub d); block (content d) (sub d) = Inr (out, fin, x')\<rbrakk>
        \<Longrightarrow> \<exists>d'. readBlock d = Inr d' \<and> appends d out fin x' d'"
    and block_inv: "\<lbrakk>inv c x; block c x = Inr (out, False, x')\<rbrakk> \<Longrightarrow> inv (c @ out) x'"
    and block_todo: "\<lbrakk>inv c x; block c x = Inr (out, False, x')\<rbrakk> \<Longrightarrow> todo x' < todo x"
begin

lemma decode_all_returns: "inv c x \<Longrightarrow> \<exists>r. decode_all block c x = Some r"
proof (induction "todo x" arbitrary: c x rule: less_induct)
  case less
  show ?case
  proof (cases "block c x")
    case (Inl e)
    then show ?thesis by simp
  next
    case (Inr r)
    obtain out fin x' where r: "r = (out, fin, x')" by (cases r) auto
    show ?thesis
    proof (cases fin)
      case True
      with Inr r show ?thesis by simp
    next
      case False
      with Inr r less block_inv block_todo show ?thesis
        by (simp add: decode_all_more)
    qed
  qed
qed

lemma decode_all_prefix: "inv c x \<Longrightarrow> decode_all block c x = Some (Inr out) \<Longrightarrow> \<exists>ys. out = c @ ys"
proof (induction "todo x" arbitrary: c x rule: less_induct)
  case less
  obtain o1 fin x' where b: "block c x = Inr (o1, fin, x')"
    using less.prems by (cases "block c x") auto
  show ?case
  proof (cases fin)
    case True
    with b less.prems show ?thesis by auto
  next
    case False
    with b less.prems have d: "decode_all block (c @ o1) x' = Some (Inr out)"
      by (simp add: decode_all_more)
    from b False have b': "block c x = Inr (o1, False, x')" by simp
    have "\<exists>ys. out = (c @ o1) @ ys"
      by (rule less.hyps [OF block_todo [OF less.prems(1) b'] block_inv [OF less.prems(1) b'] d])
    then show ?thesis by auto
  qed
qed

definition represents :: "'x dstream \<Rightarrow> bytes \<Rightarrow> bool" where
  "represents d out \<longleftrightarrow> ds_ok d \<and>
     (if eof d then content d = out
      else inv (content d) (sub d) \<and> decode_all block (content d) (sub d) = Some (Inr out))"

lemma represents_prefix: "represents d out \<Longrightarrow> \<exists>ys. out = content d @ ys"
  using decode_all_prefix [of "content d" "sub d" out]
  by (auto simp: represents_def split: if_splits)

lemma represents_step:
  assumes "represents d out" and "\<not> eof d"
  obtains d' where "readBlock d = Inr d'" and "represents d' out" and "pos d' = pos d"
    and "eof d' \<or> todo (sub d') < todo (sub d)"
proof -
  have ok: "ds_ok d" and i: "inv (content d) (sub d)"
    and dec: "decode_all block (content d) (sub d) = Some (Inr out)"
    using assms by (auto simp: represents_def)
  from dec obtain o1 fin x' where b: "block (content d) (sub d) = Inr (o1, fin, x')"
    by (cases "block (content d) (sub d)") auto
  obtain d' where d': "readBlock d = Inr d'" "ds_ok d'" "content d' = content d @ o1"
    "eof d' = fin" "sub d' = x'" "pos d' = pos d"
    using readBlock_ok [OF ok assms(2) i b] by (auto simp: appends_def)
  have "represents d' out"
    using b d' dec i block_inv by (cases fin) (auto simp: represents_def decode_all_more)
  moreover have "eof d' \<or> todo (sub d') < todo (sub d)"
    using b d' i block_todo by (cases fin) auto
  ultimately show ?thesis using that d' by blast
qed

lemma fill_represents:
  assumes "represents d out"
  shows "\<exists>d'. fill readBlock target d = Some (Inr d') \<and> represents d' out \<and> pos d' = pos d \<and>
    (eof d' \<or> (\<exists>n. target = Some n \<and> n \<le> bufferLength d'))"
  using assms
proof (induction "if eof d then 0 else Suc (todo (sub d))" arbitrary: d rule: less_induct)
  case less
  show ?case
  proof (cases "eof d \<or> (\<exists>n. target = Some n \<and> n \<le> bufferLength d)")
    case True
    with less.prems show ?thesis by (auto simp: fill_stop)
  next
    case False
    then have ne: "\<not> eof d" by simp
    from less.prems ne obtain d' where d': "readBlock d = Inr d'" "represents d' out" "pos d' = pos d"
      and m: "eof d' \<or> todo (sub d') < todo (sub d)"
      by (rule represents_step)
    have "(if eof d' then 0 else Suc (todo (sub d'))) < (if eof d then 0 else Suc (todo (sub d)))"
      using m ne by auto
    then have "\<exists>e. fill readBlock target d' = Some (Inr e) \<and> represents e out \<and> pos e = pos d' \<and>
        (eof e \<or> (\<exists>n. target = Some n \<and> n \<le> bufferLength e))"
      using d'(2) by (rule less.hyps)
    with False d' show ?thesis by (simp add: fill_step)
  qed
qed

lemma represents_ensureBuffer [simp]: "represents d out \<Longrightarrow> represents (ensureBuffer n d) out"
  by (simp add: represents_def)

lemma represents_pos [simp]: "represents (d\<lparr>pos := p\<rparr>) out \<longleftrightarrow> represents d out"
  by (simp add: represents_def ds_ok_def content_def)

lemma represents_take: "represents d out \<Longrightarrow> take (bufferLength d) (buffer d) = take (bufferLength d) out
    \<and> bufferLength d \<le> length out \<and> bufferLength d \<le> length (buffer d)"
proof -
  assume r: "represents d out"
  obtain ys where ys: "out = content d @ ys" using represents_prefix [OF r] by blast
  have ok: "ds_ok d" using r by (simp add: represents_def)
  have "take (bufferLength d) out = content d" using ys ok by simp
  with ys ok show ?thesis by (simp add: content_def ds_ok_def)
qed

text \<open>Every read returns the corresponding slice of the complete decoding.\<close>

lemma getBytes_represents:
  assumes r: "represents d out"
  shows "\<exists>d'. ds_getBytes readBlock n d =
      Some (Inr ((if n = 0 then drop (pos d) out else take n (drop (pos d) out)), d')) \<and>
    represents d' out \<and> pos d' = (if n = 0 then length out else min (pos d + n) (length out))"
proof (cases "n = 0")
  case True
  obtain d' where d': "fill readBlock None d = Some (Inr d')" "represents d' out" "eof d'"
    using fill_represents [OF r, of None] by auto
  have "content d' = out" using d' by (simp add: represents_def)
  moreover from this have "bufferLength d' = length out"
    using d'(2) by (auto simp: represents_def)
  ultimately show ?thesis using True d'
    by (simp add: ds_getBytes_def Let_def subarray_nat content_def)
next
  case False
  obtain d' where d': "fill readBlock (Some (pos d + n)) (ensureBuffer (pos d + n) d) = Some (Inr d')"
      "represents d' out" "eof d' \<or> pos d + n \<le> bufferLength d'"
    using fill_represents [of "ensureBuffer (pos d + n) d" out "Some (pos d + n)"] r by auto
  let ?e = "min (pos d + n) (bufferLength d')"
  have t: "take (bufferLength d') (buffer d') = take (bufferLength d') out"
    "bufferLength d' \<le> length out" "bufferLength d' \<le> length (buffer d')"
    using represents_take [OF d'(2)] by auto
  have e: "?e = min (pos d + n) (length out)"
    using d'(2,3) t by (auto simp: represents_def)
  have "take ?e (buffer d') = take ?e out"
    using t by (metis min.commute take_take)
  then have "subarray (buffer d') (int (pos d)) (int ?e) = drop (pos d) (take ?e out)"
    by (simp add: subarray_nat)
  also have "take ?e out = take (pos d + n) out"
    using e by (simp add: min_def)
  also have "drop (pos d) (take (pos d + n) out) = take n (drop (pos d) out)"
    by (simp add: drop_take)
  finally show ?thesis using False d' e
    by (simp add: ds_getBytes_def Let_def)
qed

lemma getByte_represents:
  assumes r: "represents d out"
  shows "\<exists>d'. ds_getByte readBlock d =
      Some (Inr ((if pos d < length out then Some (out ! pos d) else None), d')) \<and>
    represents d' out \<and> pos d' = (if pos d < length out then pos d + 1 else pos d)"
proof -
  obtain d' where d': "fill readBlock (Some (pos d + 1)) d = Some (Inr d')" "represents d' out"
      "eof d' \<or> pos d + 1 \<le> bufferLength d'" "pos d' = pos d"
    using fill_represents [OF r, of "Some (pos d + 1)"] by auto
  have t: "take (bufferLength d') (buffer d') = take (bufferLength d') out"
    "bufferLength d' \<le> length out" "bufferLength d' \<le> length (buffer d')"
    using represents_take [OF d'(2)] by auto
  have "eof d' \<Longrightarrow> bufferLength d' = length out"
    using d'(2) t by (auto simp: represents_def content_def)
  moreover have "pos d < bufferLength d' \<Longrightarrow> buffer d' ! pos d = out ! pos d"
    using t(1) by (metis nth_take)
  ultimately show ?thesis using d' t by (auto simp: ds_getByte_def)
qed

lemma fresh_represents:
  "inv [] x \<Longrightarrow> decode_all block [] x = Some (Inr out) \<Longrightarrow> represents (mk_dstream h x) out"
  by (simp add: represents_def)

lemma read_chunks_represents:
  assumes "represents d out" and "\<forall>n \<in> set ns. 0 < n"
  shows "\<exists>d'. read_chunks readBlock ns d = Some (Inr (take (sum_list ns) (drop (pos d) out), d'))"
  using assms
proof (induction ns arbitrary: d)
  case Nil
  then show ?case by simp
next
  case (Cons n ns)
  obtain d' where d': "ds_getBytes readBlock n d = Some (Inr (take n (drop (pos d) out), d'))"
      "represents d' out" "pos d' = min (pos d + n) (length out)"
    using getBytes_represents [OF Cons.prems(1), of n] Cons.prems(2) by auto
  obtain d'' where "read_chunks readBlock ns d' = Some (Inr (take (sum_list ns) (drop (pos d') out), d''))"
    using Cons.IH [OF d'(2)] Cons.prems(2) by auto
  moreover have "take (n + sum_list ns) (drop (pos d) out)
      = take n (drop (pos d) out) @ take (sum_list ns) (drop (pos d') out)"
    using d'(3) by (auto simp: take_add min_def add.commute)
  ultimately show ?case using d'(1) by simp
qed

text \<open>Reads return in every case, also when the data is malformed.\<close>

lemma fill_returns:
  assumes "ds_ok d" and "eof d \<or> inv (content d) (sub d)"
  shows "\<exists>r. fill readBlock target d = Some r"
  using assms
proof (induction "if eof d then 0 else Suc (todo (sub d))" arbitrary: d rule: less_induct)
  case less
  show ?case
  proof (cases "eof d \<or> (\<exists>n. target = Some n \<and> n \<le> bufferLength d)")
    case True
    then show ?thesis by (auto simp: fill_stop)
  next
    case False
    then have i: "inv (content d) (sub d)" using less.prems by simp
    show ?thesis
    proof (cases "block (content d) (sub d)")
      case (Inl e)
      then have "readBlock d = Inl e"
        using readBlock_error [OF less.prems(1) _ i] False by simp
      then show ?thesis using False by (simp add: fill_error)
    next
      case (Inr r)
      obtain o1 fin x' where r: "r = (o1, fin, x')" by (cases r) auto
      obtain d' where d': "readBlock d = Inr d'" "ds_ok d'" "content d' = content d @ o1"
          "eof d' = fin" "sub d' = x'"
        using readBlock_ok [OF less.prems(1) _ i] False Inr r by (auto simp: appends_def)
      have "\<exists>q. fill readBlock target d' = Some q"
        using d' Inr r i False block_inv block_todo
        by (intro less.hyps) (cases fin; auto)+
      then show ?thesis using False d'(1) by (simp add: fill_step)
    qed
  qed
qed

lemma getBytes_returns:
  "ds_ok d \<Longrightarrow> eof d \<or> inv (content d) (sub d) \<Longrightarrow> \<exists>r. ds_getBytes readBlock n d = Some r"
  using fill_returns [of d None] fill_returns [of "ensureBuffer (pos d + n) d" "Some (pos d + n)"]
  by (auto simp: ds_getBytes_def Let_def)

end

section \<open>Appending a chunk\<close>

text \<open>
  \<open>DecryptStream\<close> and \<open>StreamsSequenceStream\<close> end their \<open>readBlock\<close> with the same
  statements: make room for the chunk, copy it behind the decoded bytes and advance
  \<open>bufferLength\<close>.
\<close>

definition append_chunk :: "bytes \<Rightarrow> 'x \<Rightarrow> 'x dstream \<Rightarrow> 'x dstream res" where
  "append_chunk chunk x d =
     (let newLength = bufferLength d + length chunk;
          d1 = ensureBuffer newLength d
      in rbind (arr_set (buffer d1) chunk (bufferLength d)) (\<lambda>b.
           Inr (d1\<lparr>buffer := b, bufferLength := newLength, sub := x\<rparr>)))"

lemma append_chunk_appends:
  assumes ok: "ds_ok d" and ne: "\<not> eof d"
  shows "\<exists>d'. append_chunk chunk x d = Inr d' \<and> appends d chunk False x d'"
proof -
  obtain m where m: "buffer (ensureBuffer (bufferLength d + length chunk) d) = content d @ zeros m"
      "bufferLength d + length chunk \<le> bufferLength d + m"
    using obtain_ensured [OF ok ne] .
  have "blit (content d @ zeros m) chunk (bufferLength d) = content d @ chunk @ zeros (m - length chunk)"
    using ok by (simp add: blit_def)
  then show ?thesis using m ok ne
    by (auto simp: append_chunk_def Let_def arr_set_ok intro!: appendsI [where m = "m - length chunk"])
qed

section \<open>StreamsSequenceStream\<close>

text \<open>
  The concatenation of streams.  The component streams are read to their end by
  \<open>stream.getBytes()\<close>, an argument of the model since the components may be of any class;
  \<open>hasOnError\<close> tells whether an error handler was given, which then swallows the error of a
  component.
\<close>

definition seq_readBlock :: "('s \<Rightarrow> bytes res) \<Rightarrow> bool \<Rightarrow> 's list dstream \<Rightarrow> 's list dstream res" where
  "seq_readBlock getAll hasOnError d =
     (case sub d of
        [] \<Rightarrow> Inr (d\<lparr>eof := True\<rparr>)
      | s # ss \<Rightarrow>
          (case getAll s of
             Inl e \<Rightarrow> if hasOnError then Inr (d\<lparr>sub := ss\<rparr>) else Inl e
           | Inr chunk \<Rightarrow> append_chunk chunk ss d))"

definition seq_block :: "('s \<Rightarrow> bytes res) \<Rightarrow> bool \<Rightarrow> bytes \<Rightarrow> 's list \<Rightarrow> (bytes \<times> bool \<times> 's list) res" where
  "seq_block getAll hasOnError c ss =
     (case ss of
        [] \<Rightarrow> Inr ([], True, [])
      | s # ss \<Rightarrow>
          (case getAll s of
             Inl e \<Rightarrow> if hasOnError then Inr ([], False, ss) else Inl e
           | Inr chunk \<Rightarrow> Inr (chunk, False, ss)))"

text \<open>Two side conditions that occur for every decoder: ending the data, and changing only the subclass.\<close>

lemma appends_sub: "ds_ok d \<Longrightarrow> \<not> eof d \<Longrightarrow> appends d [] False x (d\<lparr>sub := x\<rparr>)"
  by (simp add: appends_def ds_ok_def content_def)

interpretation seq: block_decoder "seq_readBlock getAll hasOnError" "seq_block getAll hasOnError" "\<lambda>c ss. True" length
proof unfold_locales
  show "seq_readBlock getAll hasOnError d = Inl e"
    if "seq_block getAll hasOnError (content d) (sub d) = Inl e" for d e
    using that by (auto simp: seq_block_def seq_readBlock_def split: list.splits sum.splits if_splits)
  show "\<exists>d'. seq_readBlock getAll hasOnError d = Inr d' \<and> appends d out fin x' d'"
    if "ds_ok d" "\<not> eof d" "seq_block getAll hasOnError (content d) (sub d) = Inr (out, fin, x')" for d out fin x'
  proof (cases "sub d")
    case Nil
    with that show ?thesis by (simp add: seq_block_def seq_readBlock_def appends_def ds_ok_def content_def)
  next
    case (Cons s ss)
    with that append_chunk_appends [OF that(1,2)] appends_sub [OF that(1,2)] show ?thesis
      by (auto simp: seq_block_def seq_readBlock_def split: sum.splits if_splits)
  qed
qed (auto simp: seq_block_def split: list.splits sum.splits if_splits)

fun seq_concat :: "('s \<Rightarrow> bytes res) \<Rightarrow> bool \<Rightarrow> 's list \<Rightarrow> bytes res" where
  "seq_concat getAll hasOnError [] = Inr []"
| "seq_concat getAll hasOnError (s # ss) =
     (case getAll s of
        Inl e \<Rightarrow> if hasOnError then seq_concat getAll hasOnError ss else Inl e
      | Inr chunk \<Rightarrow> rbind (seq_concat getAll hasOnError ss) (\<lambda>r. Inr (chunk @ r)))"

lemma seq_block_simps:
  "seq_block getAll hasOnError c [] = Inr ([], True, [])"
  "getAll s = Inr chunk \<Longrightarrow> seq_block getAll hasOnError c (s # ss) = Inr (chunk, False, ss)"
  "getAll s = Inl e \<Longrightarrow> seq_block getAll True c (s # ss) = Inr ([], False, ss)"
  "getAll s = Inl e \<Longrightarrow> seq_block getAll False c (s # ss) = Inl e"
  by (simp_all add: seq_block_def)

lemma seq_decode_all:
  "decode_all (seq_block getAll hasOnError) c ss = Some (rbind (seq_concat getAll hasOnError ss) (\<lambda>r. Inr (c @ r)))"
proof (induction ss arbitrary: c)
  case Nil
  show ?case by (simp add: seq_block_simps)
next
  case (Cons s ss)
  show ?case
  proof (cases "getAll s")
    case (Inl e)
    then show ?thesis
      using Cons decode_all_more [of "seq_block getAll True" c "s # ss" "[]" ss]
      by (cases hasOnError) (simp_all add: seq_block_simps)
  next
    case (Inr chunk)
    then show ?thesis
      using Cons decode_all_more [of "seq_block getAll hasOnError" c "s # ss" chunk ss]
      by (cases "seq_concat getAll hasOnError ss") (simp_all add: seq_block_simps)
  qed
qed

text \<open>
  A StreamsSequenceStream is the concatenation of its streams: reading it in chunks of
  any positive sizes gives the bytes of the component streams one after the other, where
  a component whose reading fails is left out if there is an error handler.
\<close>

theorem sequence_concatenates:
  assumes "seq_concat getAll hasOnError ss = Inr out" and "\<forall>n \<in> set ns. 0 < n"
  shows "\<exists>d. read_chunks (seq_readBlock getAll hasOnError) ns (mk_dstream maybeLength ss)
    = Some (Inr (take (sum_list ns) out, d))"
proof -
  have "seq.represents getAll hasOnError (mk_dstream maybeLength ss) out"
    by (intro seq.fresh_represents) (simp_all add: seq_decode_all assms(1))
  from seq.read_chunks_represents [OF this assms(2)] show ?thesis by simp
qed

end
