(* ===== verification/Ascii_Filters.thy ===== *)
theory Ascii_Filters
  imports Streams
begin

text \<open>
  The three byte-oriented filters: \<open>RunLengthStream\<close>, \<open>AsciiHexStream\<close> and
  \<open>Ascii85Stream\<close>.  For each: \<open>readBlock\<close> as the source has it, on the real output
  buffer; the abstract effect of one block; the interpretation of \<open>block_decoder\<close>
  that ties the two; and what the complete decoding of a stream is.
\<close>

section \<open>RunLengthStream\<close>

definition rl_readBlock :: "stream dstream \<Rightarrow> stream dstream res" where
  "rl_readBlock d =
     (let (repeatHeader, s1) = getBytes 2 (sub d)
      in if length repeatHeader < 2 \<or> repeatHeader ! 0 = 128 then Inr (d\<lparr>eof := True, sub := s1\<rparr>)
         else
           let bl = bufferLength d; n = unat (repeatHeader ! 0)
           in if n < 128 then
                let d1 = ensureBuffer (bl + n + 1) d;
                    buf1 = (buffer d1)[bl := repeatHeader ! 1]
                in if n > 0 then
                     let (source, s2) = getBytes n s1
                     in rbind (arr_set buf1 source (bl + 1)) (\<lambda>buf2.
                          Inr (d1\<lparr>buffer := buf2, bufferLength := bl + 1 + n, sub := s2\<rparr>))
                   else Inr (d1\<lparr>buffer := buf1, bufferLength := bl + 1, sub := s1\<rparr>)
              else
                let m = 257 - n; d1 = ensureBuffer (bl + m + 1) d
                in Inr (d1\<lparr>buffer := arr_fill (buffer d1) (repeatHeader ! 1) bl (bl + m),
                          bufferLength := bl + m, sub := s1\<rparr>))"

definition rl_block :: "bytes \<Rightarrow> stream \<Rightarrow> (bytes \<times> bool \<times> stream) res" where
  "rl_block c s =
     (let (hdr, s1) = getBytes 2 s
      in if length hdr < 2 \<or> hdr ! 0 = 128 then Inr ([], True, s1)
         else let n = unat (hdr ! 0)
              in if n < 128 then
                   let (src, s2) = (if n > 0 then getBytes n s1 else ([], s1))
                   in Inr (hdr ! 1 # src @ zeros (n - length src), False, s2)
                 else Inr (replicate (257 - n) (hdr ! 1), False, s1))"

lemma update_append_zeros: "length c = k \<Longrightarrow> 0 < m \<Longrightarrow> (c @ zeros m)[k := v] = c @ v # zeros (m - 1)"
  by (cases m) (simp_all add: zeros_def list_update_append)

lemma blit_append_zeros: "length c = k \<Longrightarrow> length src \<le> m \<Longrightarrow>
    blit (c @ zeros m) src k = c @ src @ zeros (m - length src)"
  by (simp add: blit_def zeros_def)

lemma fill_append_zeros: "length c = k \<Longrightarrow> n \<le> m \<Longrightarrow>
    arr_fill (c @ zeros m) v k (k + n) = c @ replicate n v @ zeros (m - n)"
  by (cases "n = 0") (auto simp: arr_fill_def Let_def zeros_def)

lemma rl_refines:
  assumes ok: "ds_ok d" and ne: "\<not> eof d" and s: "stream_ok (sub d)"
    and b: "rl_block (content d) (sub d) = Inr (out, fin, x')"
  shows "\<exists>d'. rl_readBlock d = Inr d' \<and> appends d out fin x' d'"
proof -
  obtain hdr s1 where g: "getBytes 2 (sub d) = (hdr, s1)" and s1: "stream_ok s1"
    using getBytes_spec [OF s, of 2] by auto
  have lc: "length (content d) = bufferLength d" using ok by simp
  show ?thesis
  proof (cases "length hdr < 2 \<or> hdr ! 0 = 128")
    case True
    with b g ok show ?thesis
      by (auto simp: rl_block_def rl_readBlock_def intro!: appends_end)
  next
    case False
    let ?n = "unat (hdr ! 0)"
    show ?thesis
    proof (cases "?n < 128")
      case True
      obtain m where m: "buffer (ensureBuffer (bufferLength d + ?n + 1) d) = content d @ zeros m"
          "bufferLength d + ?n + 1 \<le> bufferLength d + m"
        using obtain_ensured [OF ok ne] .
      obtain src s2 where src: "getBytes ?n s1 = (src, s2)" "0 < ?n \<Longrightarrow> length src \<le> ?n"
        using getBytes_spec [OF s1, of ?n] by (auto split: if_splits)
      show ?thesis
      proof (cases "?n = 0")
        case True
        have "(content d @ zeros m)[bufferLength d := hdr ! 1] = content d @ [hdr ! 1] @ zeros (m - 1)"
          using m lc by (simp add: update_append_zeros)
        with True False m g b show ?thesis
          by (auto simp: rl_block_def rl_readBlock_def Let_def ne zeros_def
              intro!: appendsI [OF ok, where m = "m - 1"])
      next
        case n0: False
        have w: "arr_set ((content d @ zeros m)[bufferLength d := hdr ! 1]) src (bufferLength d + 1)
            = Inr (content d @ (hdr ! 1 # src @ zeros (?n - length src)) @ zeros (m - 1 - ?n))"
        proof -
          have "(content d @ zeros m)[bufferLength d := hdr ! 1] = (content d @ [hdr ! 1]) @ zeros (m - 1)"
            using m lc by (simp add: update_append_zeros)
          moreover have "blit ((content d @ [hdr ! 1]) @ zeros (m - 1)) src (bufferLength d + 1)
              = (content d @ [hdr ! 1]) @ src @ zeros (m - 1 - length src)"
            using m lc src n0 by (intro blit_append_zeros) auto
          moreover have "zeros (m - 1 - length src) = zeros (?n - length src) @ (zeros (m - 1 - ?n) :: bytes)"
            using m src n0 by (simp add: zeros_append)
          ultimately show ?thesis using m lc src n0 by (simp add: arr_set_ok)
        qed
        from True False n0 m g b src w show ?thesis
          by (auto simp: rl_block_def rl_readBlock_def Let_def ne
              intro!: appendsI [OF ok, where m = "m - 1 - ?n"])
      qed
    next
      case ge: False
      obtain m where m: "buffer (ensureBuffer (bufferLength d + (257 - ?n) + 1) d) = content d @ zeros m"
          "bufferLength d + (257 - ?n) + 1 \<le> bufferLength d + m"
        using obtain_ensured [OF ok ne] .
      have "arr_fill (content d @ zeros m) (hdr ! 1) (bufferLength d) (bufferLength d + (257 - ?n))
          = content d @ replicate (257 - ?n) (hdr ! 1) @ zeros (m - (257 - ?n))"
        using m lc by (intro fill_append_zeros) auto
      with False ge m g b show ?thesis
        by (auto simp: rl_block_def rl_readBlock_def Let_def ne
            intro!: appendsI [OF ok, where m = "m - (257 - ?n)"])
    qed
  qed
qed

lemma rl_block_no_error: "rl_block c s \<noteq> Inl e"
  by (auto simp: rl_block_def Let_def split: prod.splits)

lemma rl_block_progress:
  assumes "stream_ok s" and "rl_block c s = Inr (out, False, s')"
  shows "stream_ok s' \<and> length (rest s') < length (rest s)"
proof -
  obtain hdr s1 where g: "getBytes 2 s = (hdr, s1)" "hdr = take 2 (rest s)" "rest s1 = drop 2 (rest s)"
      "stream_ok s1"
    using getBytes_spec [OF assms(1), of 2] by auto
  obtain src s2 where g2: "getBytes (unat (hdr ! 0)) s1 = (src, s2)" "stream_ok s2"
      "length (rest s2) \<le> length (rest s1)"
    using getBytes_spec [OF g(4), of "unat (hdr ! 0)"] by auto
  have "\<not> length hdr < 2" using assms(2) g(1) by (auto simp: rl_block_def)
  with assms g g2 show ?thesis
    by (auto simp: rl_block_def Let_def split: if_splits)
qed

interpretation rl: block_decoder rl_readBlock rl_block "\<lambda>c s. stream_ok s" "\<lambda>s. length (rest s)"
proof unfold_locales
  show "rl_readBlock d = Inl e" if "rl_block (content d) (sub d) = Inl e" for d e
    using that rl_block_no_error by blast
  show "\<exists>d'. rl_readBlock d = Inr d' \<and> appends d out fin x' d'"
    if "ds_ok d" "\<not> eof d" "stream_ok (sub d)" "rl_block (content d) (sub d) = Inr (out, fin, x')"
    for d out fin x'
    using that by (rule rl_refines)
qed (auto dest: rl_block_progress)

subsection \<open>The decoding of a run-length encoded stream\<close>

text \<open>The format: literal runs of 1 to 128 bytes and repeated bytes, 2 to 128 times.\<close>

datatype rl_run = Literal bytes | Repeat nat u8

fun run_ok :: "rl_run \<Rightarrow> bool" where
  "run_ok (Literal bs) = (1 \<le> length bs \<and> length bs \<le> 128)"
| "run_ok (Repeat n b) = (2 \<le> n \<and> n \<le> 128)"

fun run_bytes :: "rl_run \<Rightarrow> bytes" where
  "run_bytes (Literal bs) = bs"
| "run_bytes (Repeat n b) = replicate n b"

fun run_encode :: "rl_run \<Rightarrow> bytes" where
  "run_encode (Literal bs) = of_nat (length bs - 1) # bs"
| "run_encode (Repeat n b) = [of_nat (257 - n), b]"

lemma unat_of_nat_u8: "n < 256 \<Longrightarrow> unat (of_nat n :: u8) = n"
  by (simp add: unat_of_nat)

lemma of_nat_u8_neq: "n < 256 \<Longrightarrow> m < 256 \<Longrightarrow> n \<noteq> m \<Longrightarrow> (of_nat n :: u8) \<noteq> of_nat m"
  by (metis unat_of_nat_u8)

lemma rl_block_run:
  assumes s: "stream_ok s" and r: "run_ok r" and rest: "rest s = run_encode r @ t"
  shows "\<exists>s'. rl_block c s = Inr (run_bytes r, False, s') \<and> stream_ok s' \<and> rest s' = t"
proof -
  obtain hdr s1 where g: "getBytes 2 s = (hdr, s1)" "hdr = take 2 (rest s)" "rest s1 = drop 2 (rest s)"
      "stream_ok s1"
    using getBytes_spec [OF s, of 2] by auto
  show ?thesis
  proof (cases r)
    case (Literal bs)
    then obtain b bs' where bs: "bs = b # bs'" "length bs' < 128"
      using r by (cases bs) auto
    have n: "unat (of_nat (length bs') :: u8) = length bs'" "(of_nat (length bs') :: u8) \<noteq> 128"
      using bs unat_of_nat_u8 [of "length bs'"] by auto
    have hdr: "hdr = [of_nat (length bs'), b]" "rest s1 = bs' @ t"
      using g rest Literal bs by (simp_all add: numeral_2_eq_2)
    then have g1: "getBytes 2 s = ([of_nat (length bs'), b], s1)" using g(1) by simp
    show ?thesis
    proof (cases "bs' = []")
      case True
      then show ?thesis using g1 g(4) hdr(2) n Literal bs
        by (simp add: rl_block_def zeros_def)
    next
      case False
      obtain s2 where "getBytes (length bs') s1 = (bs', s2)" "rest s2 = t" "stream_ok s2"
        using getBytes_rest [OF g(4), of "length bs'"] False hdr by auto
      then show ?thesis using g1 n Literal bs False
        by (simp add: rl_block_def zeros_def)
    qed
  next
    case (Repeat n b)
    define k where "k = 257 - n"
    have k: "k < 256" "k \<noteq> 128" "128 \<le> k" "n = 257 - k" using r Repeat by (auto simp: k_def)
    have n: "unat (of_nat k :: u8) = k" "(of_nat k :: u8) \<noteq> 128"
      using k unat_of_nat_u8 [of k] of_nat_u8_neq [of k 128] by auto
    have hdr: "hdr = [of_nat k, b]" "rest s1 = t"
      using g rest Repeat by (simp_all add: numeral_2_eq_2 k_def)
    then have "getBytes 2 s = ([of_nat k, b], s1)" using g(1) by simp
    then show ?thesis using hdr(2) g(4) n k Repeat by (simp add: rl_block_def Let_def)
  qed
qed

lemma rl_decode_runs:
  assumes "stream_ok s" and "\<forall>r \<in> set rs. run_ok r" and "rest s = concat (map run_encode rs) @ 128 # t"
  shows "decode_all rl_block c s = Some (Inr (c @ concat (map run_bytes rs)))"
  using assms
proof (induction rs arbitrary: s c)
  case Nil
  then obtain s1 where "getBytes 2 s = (take 2 (rest s), s1)"
    using getBytes_rest [of s 2] by auto
  with Nil have "rl_block c s = Inr ([], True, s1)"
    by (auto simp: rl_block_def)
  then show ?case by simp
next
  case (Cons r rs)
  then obtain s' where "rl_block c s = Inr (run_bytes r, False, s')" "stream_ok s'"
      "rest s' = concat (map run_encode rs) @ 128 # t"
    using rl_block_run [of s r "concat (map run_encode rs) @ 128 # t" c] by auto
  with Cons show ?case by (simp add: decode_all_more)
qed

definition runLengthStream :: "bytes \<Rightarrow> rat \<Rightarrow> stream dstream" where
  "runLengthStream bs maybeLength = mk_dstream maybeLength (mk_stream bs None None)"

section \<open>AsciiHexStream\<close>

record hex_state =
  hx_stream :: stream
  firstDigit :: int

definition hex_digit :: "u8 \<Rightarrow> int option" where
  "hex_digit ch =
     (if 0x30 \<le> ch \<and> ch \<le> 0x39 then Some (uint (ch AND 0x0f))
      else if 0x41 \<le> ch \<and> ch \<le> 0x46 \<or> 0x61 \<le> ch \<and> ch \<le> 0x66 then Some (uint (ch AND 0x0f) + 9)
      else None)"

definition hex_pair :: "int \<Rightarrow> int \<Rightarrow> u8" where
  "hex_pair hi lo = push_bit 4 (word_of_int hi) OR word_of_int lo"

text \<open>The loop over the bytes of one upstream block: buffer, length, pending digit, end marker seen.\<close>

fun hex_loop :: "bytes \<Rightarrow> bytes \<Rightarrow> nat \<Rightarrow> int \<Rightarrow> bytes \<times> nat \<times> int \<times> bool" where
  "hex_loop [] buf bl fd = (buf, bl, fd, False)"
| "hex_loop (ch # chs) buf bl fd =
     (case hex_digit ch of
        Some digit \<Rightarrow>
          if fd < 0 then hex_loop chs buf bl digit
          else hex_loop chs (buf[bl := hex_pair fd digit]) (bl + 1) (-1)
      | None \<Rightarrow> if ch = 0x3e then (buf, bl, fd, True) else hex_loop chs buf bl fd)"

definition hex_readBlock :: "hex_state dstream \<Rightarrow> hex_state dstream res" where
  "hex_readBlock d =
     (let (bs, s1) = getBytes 8000 (hx_stream (sub d))
      in if length bs = 0 then Inr (d\<lparr>eof := True, sub := (sub d)\<lparr>hx_stream := s1\<rparr>\<rparr>)
         else
           let maxDecodeLength = (length bs + 1) div 2;
               d1 = ensureBuffer (bufferLength d + maxDecodeLength) d;
               (buf, bl, fd, fin) = hex_loop bs (buffer d1) (bufferLength d) (firstDigit (sub d));
               (buf', bl', fd') =
                 (if 0 \<le> fd \<and> fin then (buf[bl := push_bit 4 (word_of_int fd)], bl + 1, -1)
                  else (buf, bl, fd))
           in Inr (d1\<lparr>buffer := buf', bufferLength := bl', eof := fin,
                     sub := \<lparr>hx_stream = s1, firstDigit = fd'\<rparr>\<rparr>))"

text \<open>The bytes the loop appends, without the buffer.\<close>

fun hex_pairs :: "bytes \<Rightarrow> int \<Rightarrow> bytes \<times> int \<times> bool" where
  "hex_pairs [] fd = ([], fd, False)"
| "hex_pairs (ch # chs) fd =
     (case hex_digit ch of
        Some digit \<Rightarrow>
          if fd < 0 then hex_pairs chs digit
          else (let (out, r) = hex_pairs chs (-1) in (hex_pair fd digit # out, r))
      | None \<Rightarrow> if ch = 0x3e then ([], fd, True) else hex_pairs chs fd)"

definition hex_block :: "bytes \<Rightarrow> hex_state \<Rightarrow> (bytes \<times> bool \<times> hex_state) res" where
  "hex_block c x =
     (let (bs, s1) = getBytes 8000 (hx_stream x)
      in if bs = [] then Inr ([], True, x\<lparr>hx_stream := s1\<rparr>)
         else let (out, fd, fin) = hex_pairs bs (firstDigit x)
              in if 0 \<le> fd \<and> fin
                 then Inr (out @ [push_bit 4 (word_of_int fd)], fin, \<lparr>hx_stream = s1, firstDigit = -1\<rparr>)
                 else Inr (out, fin, \<lparr>hx_stream = s1, firstDigit = fd\<rparr>))"

lemma hex_pairs_length:
  "hex_pairs bs fd = (out, fd', fin) \<Longrightarrow>
     2 * length out + (if 0 \<le> fd' then 1 else 0) + (if fin then 1 else 0) \<le> length bs + (if 0 \<le> fd then 1 else 0)"
proof (induction bs fd arbitrary: out fd' fin rule: hex_pairs.induct)
  case (1 fd)
  then show ?case by auto
next
  case (2 ch chs fd)
  show ?case
  proof (cases "hex_digit ch")
    case None
    with 2 show ?thesis by (fastforce split: if_splits)
  next
    case (Some digit)
    show ?thesis
    proof (cases "fd < 0")
      case True
      with Some "2.prems" "2.IH"(2) [OF Some True] show ?thesis by (fastforce split: if_splits)
    next
      case False
      obtain o1 f1 e1 where r: "hex_pairs chs (-1) = (o1, f1, e1)" by (cases "hex_pairs chs (-1)") auto
      with Some False "2.prems" have "out = hex_pair fd digit # o1" "fd' = f1" "fin = e1" by auto
      with "2.IH"(3) [OF Some False r] False show ?thesis by auto
    qed
  qed
qed

lemma hex_loop_pairs:
  assumes "hex_pairs bs fd = (out, fd', fin)" and "length c = bl" and "length out \<le> m"
  shows "hex_loop bs (c @ zeros m) bl fd = (c @ out @ zeros (m - length out), bl + length out, fd', fin)"
  using assms
proof (induction bs fd arbitrary: out fd' fin c bl m rule: hex_pairs.induct)
  case (1 fd)
  then show ?case by auto
next
  case (2 ch chs fd)
  show ?case
  proof (cases "hex_digit ch")
    case None
    with 2 show ?thesis by (auto split: if_splits)
  next
    case (Some digit)
    show ?thesis
    proof (cases "fd < 0")
      case True
      with Some 2 show ?thesis by simp
    next
      case False
      obtain o1 f1 e1 where r: "hex_pairs chs (-1) = (o1, f1, e1)" by (cases "hex_pairs chs (-1)") auto
      with Some False "2.prems" have o: "out = hex_pair fd digit # o1" "fd' = f1" "fin = e1" by auto
      have "hex_loop chs ((c @ [hex_pair fd digit]) @ zeros (m - 1)) (bl + 1) (-1)
          = ((c @ [hex_pair fd digit]) @ o1 @ zeros (m - 1 - length o1), bl + 1 + length o1, f1, e1)"
        using "2.prems" o by (intro "2.IH"(3) [OF Some False r]) auto
      with Some False o "2.prems" show ?thesis by (simp add: update_append_zeros)
    qed
  qed
qed

lemma hex_refines:
  assumes ok: "ds_ok d" and ne: "\<not> eof d" and s: "stream_ok (hx_stream (sub d))"
    and b: "hex_block (content d) (sub d) = Inr (out, fin, x')"
  shows "\<exists>d'. hex_readBlock d = Inr d' \<and> appends d out fin x' d'"
proof -
  obtain bs s1 where g: "getBytes 8000 (hx_stream (sub d)) = (bs, s1)"
    by (cases "getBytes 8000 (hx_stream (sub d))") auto
  obtain o1 fd e where p: "hex_pairs bs (firstDigit (sub d)) = (o1, fd, e)"
    by (cases "hex_pairs bs (firstDigit (sub d))") auto
  show ?thesis
  proof (cases "bs = []")
    case True
    with b g ok show ?thesis
      by (auto simp: hex_block_def hex_readBlock_def intro!: appends_end)
  next
    case False
    obtain m where m: "buffer (ensureBuffer (bufferLength d + (length bs + 1) div 2) d) = content d @ zeros m"
        "bufferLength d + (length bs + 1) div 2 \<le> bufferLength d + m"
      using obtain_ensured [OF ok ne] .
    have len: "2 * length o1 + (if 0 \<le> fd then 1 else 0) + (if e then 1 else 0) \<le> length bs + 1"
      using hex_pairs_length [OF p] by (auto split: if_splits)
    then have "length o1 \<le> m" using m by (auto split: if_splits)
    then have l: "hex_loop bs (content d @ zeros m) (bufferLength d) (firstDigit (sub d))
        = (content d @ o1 @ zeros (m - length o1), bufferLength d + length o1, fd, e)"
      using ok by (intro hex_loop_pairs [OF p]) simp_all
    show ?thesis
    proof (cases "0 \<le> fd \<and> e")
      case True
      then have "length o1 < m" using len m by auto
      then have "(content d @ o1 @ zeros (m - length o1))[bufferLength d + length o1 := push_bit 4 (word_of_int fd)]
          = content d @ (o1 @ [push_bit 4 (word_of_int fd)]) @ zeros (m - length o1 - 1)"
        using update_append_zeros [of "content d @ o1" "bufferLength d + length o1" "m - length o1"] ok
        by simp
      with True False g p l m b show ?thesis
        by (auto simp: hex_block_def hex_readBlock_def Let_def
            intro!: appendsI [OF ok, where m = "m - length o1 - 1"])
    next
      case no: False
      with False g p l m b show ?thesis
        by (auto simp: hex_block_def hex_readBlock_def Let_def
            intro!: appendsI [OF ok, where m = "m - length o1"])
    qed
  qed
qed

lemma hex_block_no_error: "hex_block c x \<noteq> Inl e"
  by (auto simp: hex_block_def Let_def split: prod.splits)

lemma hex_block_progress:
  assumes "stream_ok (hx_stream x)" and "hex_block c x = Inr (out, False, x')"
  shows "stream_ok (hx_stream x') \<and> length (rest (hx_stream x')) < length (rest (hx_stream x))"
proof -
  obtain s1 where "getBytes 8000 (hx_stream x) = (take 8000 (rest (hx_stream x)), s1)"
      "rest s1 = drop 8000 (rest (hx_stream x))" "stream_ok s1"
    using getBytes_rest [OF assms(1), of 8000] by auto
  with assms(2) show ?thesis
    by (cases "rest (hx_stream x) = []") (auto simp: hex_block_def Let_def split: prod.splits if_splits)
qed

interpretation hex: block_decoder hex_readBlock hex_block
  "\<lambda>c x. stream_ok (hx_stream x)" "\<lambda>x. length (rest (hx_stream x))"
proof unfold_locales
  show "hex_readBlock d = Inl e" if "hex_block (content d) (sub d) = Inl e" for d e
    using that hex_block_no_error by blast
  show "\<exists>d'. hex_readBlock d = Inr d' \<and> appends d out fin x' d'"
    if "ds_ok d" "\<not> eof d" "stream_ok (hx_stream (sub d))" "hex_block (content d) (sub d) = Inr (out, fin, x')"
    for d out fin x'
    using that by (rule hex_refines)
qed (auto dest: hex_block_progress)

subsection \<open>The decoding of a hexadecimal stream\<close>

text \<open>
  The digits up to the end marker, taken in pairs; a last single digit counts as the
  high half of a byte only when the end marker is there.
\<close>

definition hex_digits :: "bytes \<Rightarrow> int list" where
  "hex_digits bs = List.map_filter hex_digit (takeWhile (\<lambda>c. c \<noteq> 0x3e) bs)"

fun pair_up :: "bool \<Rightarrow> int list \<Rightarrow> bytes" where
  "pair_up pad [] = []"
| "pair_up pad [x] = (if pad then [hex_pair x 0] else [])"
| "pair_up pad (x # y # zs) = hex_pair x y # pair_up pad zs"

definition hex_flush :: "bytes \<times> int \<times> bool \<Rightarrow> bytes" where
  "hex_flush r = (let (out, fd, fin) = r
     in if 0 \<le> fd \<and> fin then out @ [push_bit 4 (word_of_int fd)] else out)"

lemma hex_digit_range: "hex_digit ch = Some d \<Longrightarrow> 0 \<le> d"
  by (auto simp: hex_digit_def split: if_splits)

lemma hex_digit_gt [simp]: "hex_digit 0x3e = None"
  by (simp add: hex_digit_def)

lemma hex_digits_simps:
  "hex_digits [] = []"
  "hex_digits (ch # bs) = (if ch = 0x3e then [] else
     case hex_digit ch of None \<Rightarrow> hex_digits bs | Some d \<Rightarrow> d # hex_digits bs)"
  by (auto simp: hex_digits_def List.map_filter_simps split: option.splits)

lemma hex_pairs_spec:
  "hex_flush (hex_pairs bs fd) = pair_up (0x3e \<in> set bs) ((if fd < 0 then [] else [fd]) @ hex_digits bs)"
proof (induction bs fd rule: hex_pairs.induct)
  case (1 fd)
  then show ?case by (simp add: hex_flush_def hex_digits_simps)
next
  case (2 ch chs fd)
  show ?case
  proof (cases "hex_digit ch")
    case None
    show ?thesis
    proof (cases "ch = 0x3e")
      case True
      then show ?thesis by (simp add: hex_flush_def hex_digits_simps hex_pair_def)
    next
      case False
      with None "2.IH"(1) show ?thesis by (simp add: hex_digits_simps)
    qed
  next
    case (Some d)
    then have ne: "ch \<noteq> 0x3e" by auto
    show ?thesis
    proof (cases "fd < 0")
      case True
      with Some ne "2.IH"(2) [OF Some True] hex_digit_range [OF Some] show ?thesis
        by (simp add: hex_digits_simps)
    next
      case False
      obtain o1 f1 e1 where r: "hex_pairs chs (-1) = (o1, f1, e1)" by (cases "hex_pairs chs (-1)") auto
      with Some False ne "2.IH"(3) [OF Some False] show ?thesis
        by (auto simp: hex_digits_simps hex_flush_def split: if_splits)
    qed
  qed
qed

lemma hex_pairs_append:
  "hex_pairs xs fd = (o1, f1, e1) \<Longrightarrow>
     hex_pairs (xs @ ys) fd =
       (if e1 then (o1, f1, e1) else let (o2, r) = hex_pairs ys f1 in (o1 @ o2, r))"
proof (induction xs fd arbitrary: o1 f1 e1 rule: hex_pairs.induct)
  case (1 fd)
  then show ?case by (auto split: prod.splits)
next
  case (2 ch chs fd)
  then show ?case
    by (auto split: option.splits if_splits prod.splits)
qed

lemma hex_decode_all:
  "stream_ok (hx_stream x) \<Longrightarrow>
     decode_all hex_block c x = Some (Inr (c @ hex_flush (hex_pairs (rest (hx_stream x)) (firstDigit x))))"
proof (induction "length (rest (hx_stream x))" arbitrary: c x rule: less_induct)
  case less
  let ?s = "hx_stream x"
  obtain s1 where g: "getBytes 8000 ?s = (take 8000 (rest ?s), s1)" "rest s1 = drop 8000 (rest ?s)"
      "stream_ok s1"
    using getBytes_rest [OF less.prems, of 8000] by auto
  show ?case
  proof (cases "rest ?s = []")
    case True
    with g have "hex_block c x = Inr ([], True, x\<lparr>hx_stream := s1\<rparr>)"
      by (simp add: hex_block_def)
    with True show ?thesis by (simp add: hex_flush_def)
  next
    case False
    obtain o1 f1 e1 where p: "hex_pairs (take 8000 (rest ?s)) (firstDigit x) = (o1, f1, e1)"
      by (cases "hex_pairs (take 8000 (rest ?s)) (firstDigit x)") auto
    have all: "hex_pairs (rest ?s) (firstDigit x) =
        (if e1 then (o1, f1, e1) else let (o2, r) = hex_pairs (rest s1) f1 in (o1 @ o2, r))"
      using hex_pairs_append [OF p, of "drop 8000 (rest ?s)"] g by simp
    show ?thesis
    proof (cases e1)
      case True
      with False g p all show ?thesis
        by (cases "0 \<le> f1") (simp_all add: hex_block_def hex_flush_def)
    next
      case ne: False
      let ?x' = "\<lparr>hx_stream = s1, firstDigit = f1\<rparr>"
      have b: "hex_block c x = Inr (o1, False, ?x')"
        using False g p ne by (simp add: hex_block_def)
      have "decode_all hex_block (c @ o1) ?x' = Some (Inr ((c @ o1) @ hex_flush (hex_pairs (rest s1) f1)))"
        using less.hyps [of ?x' "c @ o1"] g False by simp
      with b all ne show ?thesis
        by (auto simp: decode_all_more hex_flush_def split: prod.splits if_splits)
    qed
  qed
qed

definition asciiHexStream :: "bytes \<Rightarrow> rat \<Rightarrow> hex_state dstream" where
  "asciiHexStream bs maybeLength =
     mk_dstream (maybeLength * (1 / 2)) \<lparr>hx_stream = mk_stream bs None None, firstDigit = -1\<rparr>"

section \<open>Ascii85Stream\<close>

definition isWhiteSpace :: "u8 \<Rightarrow> bool" where
  "isWhiteSpace ch \<longleftrightarrow> ch = 0x20 \<or> ch = 0x09 \<or> ch = 0x0d \<or> ch = 0x0a"

text \<open>\<open>c = str.getByte(); while (isWhiteSpace(c)) c = str.getByte();\<close>\<close>

function a85_next :: "stream \<Rightarrow> u8 option \<times> stream" where
  "a85_next s =
     (let (c, s1) = getByte s
      in case c of
           None \<Rightarrow> (c, s1)
         | Some b \<Rightarrow> if isWhiteSpace b then a85_next s1 else (c, s1))"
  by pat_completeness auto
termination
  by (relation "measure (\<lambda>s. s_end s - s_pos s)") (auto simp: getByte_def split: if_splits)

declare a85_next.simps [simp del]

text \<open>The loop that collects the input characters 1 to 4 of a group.\<close>

function a85_group :: "nat \<Rightarrow> bytes \<Rightarrow> stream \<Rightarrow> bytes \<times> nat \<times> stream" where
  "a85_group i input s =
     (if i < 5 then
        let (c, s1) = a85_next s;
            input' = input[i := (case c of None \<Rightarrow> -1 | Some b \<Rightarrow> b)]
        in if c = None \<or> c = Some 0x7e then (input', i, s1) else a85_group (i + 1) input' s1
      else (input, i, s))"
  by pat_completeness auto
termination by (relation "measure (\<lambda>(i, input, s). 5 - i)") auto

declare a85_group.simps [simp del]

definition a85_value :: "bytes \<Rightarrow> int" where
  "a85_value input = foldl (\<lambda>t x. t * 85 + (uint x - 0x21)) 0 (take 5 input)"

text \<open>The store loop: \<open>t & 0xff\<close> and \<open>t >>= 8\<close> first convert the Number to 32 bits.\<close>

definition a85_store :: "bytes \<Rightarrow> nat \<Rightarrow> int \<Rightarrow> bytes" where
  "a85_store buf bl t =
     (let w3 = word_of_int t :: u32; w2 = signed_drop_bit 8 w3;
          w1 = signed_drop_bit 8 w2; w0 = signed_drop_bit 8 w1
      in buf[bl + 3 := ucast w3, bl + 2 := ucast w2, bl + 1 := ucast w1, bl := ucast w0])"

definition a85_readBlock :: "stream dstream \<Rightarrow> stream dstream res" where
  "a85_readBlock d =
     (let (c, s1) = a85_next (sub d)
      in case c of
           None \<Rightarrow> Inr (d\<lparr>eof := True, sub := s1\<rparr>)
         | Some b \<Rightarrow>
             if b = 0x7e then Inr (d\<lparr>eof := True, sub := s1\<rparr>)
             else
               let bl = bufferLength d
               in if b = 0x7a then
                    let d1 = ensureBuffer (bl + 4) d
                    in Inr (d1\<lparr>buffer := arr_fill (buffer d1) 0 bl (bl + 4), bufferLength := bl + 4, sub := s1\<rparr>)
                  else
                    let (input, i, s2) = a85_group 1 ((zeros 5)[0 := b]) s1;
                        d1 = ensureBuffer (bl + (i - 1)) d;
                        input' = (if i < 5 then arr_fill input (0x21 + 84) i 5 else input);
                        t = a85_value input'
                    in Inr (d1\<lparr>buffer := a85_store (buffer d1) bl t, bufferLength := bl + (i - 1),
                              eof := (if i < 5 then True else eof d1), sub := s2\<rparr>))"

definition a85_bytes :: "int \<Rightarrow> bytes" where
  "a85_bytes t = map (\<lambda>k. word_of_int (t div 256 ^ k)) [3, 2, 1, 0]"

definition a85_block :: "bytes \<Rightarrow> stream \<Rightarrow> (bytes \<times> bool \<times> stream) res" where
  "a85_block c s =
     (let (b, s1) = a85_next s
      in if b = None \<or> b = Some 0x7e then Inr ([], True, s1)
         else if b = Some 0x7a then Inr (zeros 4, False, s1)
         else let (input, i, s2) = a85_group 1 ((zeros 5)[0 := the b]) s1;
                  input' = (if i < 5 then arr_fill input (0x21 + 84) i 5 else input)
              in Inr (take (i - 1) (a85_bytes (a85_value input')), i < 5, s2))"

lemma ucast_shift8: "ucast (word_of_int t :: u32) = (word_of_int t :: u8)"
  "ucast (signed_drop_bit 8 (word_of_int t :: u32)) = (word_of_int (t div 256) :: u8)"
  "ucast (signed_drop_bit 16 (word_of_int t :: u32)) = (word_of_int (t div 65536) :: u8)"
  "ucast (signed_drop_bit 24 (word_of_int t :: u32)) = (word_of_int (t div 16777216) :: u8)"
proof -
  have d: "t div 256 = drop_bit 8 t" "t div 65536 = drop_bit 16 t" "t div 16777216 = drop_bit 24 t"
    by (simp_all add: drop_bit_eq_div)
  have "ucast (signed_drop_bit k (word_of_int t :: u32)) = (word_of_int (drop_bit k t) :: u8)"
    if "k \<le> 24" for k
    using that by (intro bit_word_eqI) (auto simp: bit_simps)
  from this [of 0] this [of 8] this [of 16] this [of 24]
  show "ucast (word_of_int t :: u32) = (word_of_int t :: u8)"
    "ucast (signed_drop_bit 8 (word_of_int t :: u32)) = (word_of_int (t div 256) :: u8)"
    "ucast (signed_drop_bit 16 (word_of_int t :: u32)) = (word_of_int (t div 65536) :: u8)"
    "ucast (signed_drop_bit 24 (word_of_int t :: u32)) = (word_of_int (t div 16777216) :: u8)"
    by (simp_all add: d)
qed

lemma a85_store_eq: "a85_store buf bl t =
    buf[bl + 3 := a85_bytes t ! 3, bl + 2 := a85_bytes t ! 2, bl + 1 := a85_bytes t ! 1, bl := a85_bytes t ! 0]"
  by (simp add: a85_store_def a85_bytes_def Let_def ucast_shift8 numeral_3_eq_3 numeral_2_eq_2)

lemma length_a85_bytes [simp]: "length (a85_bytes t) = 4"
  by (simp add: a85_bytes_def)

lemma four_split: "length (xs :: 'a list) = 4 \<Longrightarrow> \<exists>a b c d. xs = [a, b, c, d]"
  by (auto simp: numeral_eq_Suc length_Suc_conv)

lemma a85_store_full:
  assumes "length c = bl" and "4 \<le> m"
  shows "a85_store (c @ zeros m) bl t = c @ a85_bytes t @ zeros (m - 4)"
proof -
  obtain x0 x1 x2 x3 where b: "a85_bytes t = [x0, x1, x2, x3]" using four_split [of "a85_bytes t"] by auto
  obtain m' where "m = 4 + m'" using assms(2) le_Suc_ex by blast
  with b assms(1) show ?thesis
    by (simp add: a85_store_eq zeros_def list_update_append numeral_eq_Suc)
qed

lemma a85_store_part:
  assumes "length c = bl" and "k \<le> m" and "k < 4"
  shows "take (bl + k) (a85_store (c @ zeros m) bl t) = c @ take k (a85_bytes t)"
proof -
  obtain x0 x1 x2 x3 where b: "a85_bytes t = [x0, x1, x2, x3]" using four_split [of "a85_bytes t"] by auto
  obtain m' where m: "m = k + m'" using assms(2) le_Suc_ex by blast
  have "k = 0 \<or> k = 1 \<or> k = 2 \<or> k = 3" using assms(3) by auto
  with b assms(1) m show ?thesis
    by (auto simp: a85_store_eq zeros_def list_update_append numeral_eq_Suc)
qed

text \<open>What the two reading loops see is the input without its white space.\<close>

definition visible :: "stream \<Rightarrow> bytes" where
  "visible s = filter (\<lambda>b. \<not> isWhiteSpace b) (rest s)"

lemma a85_next_spec:
  assumes "stream_ok s"
  shows "\<exists>s'. a85_next s = ((case visible s of [] \<Rightarrow> None | b # t \<Rightarrow> Some b), s') \<and> stream_ok s' \<and>
    visible s' = tl (visible s) \<and> length (rest s') \<le> length (rest s) - length (take 1 (visible s))"
  using assms
proof (induction "length (rest s)" arbitrary: s rule: less_induct)
  case less
  show ?case
  proof (cases "rest s")
    case Nil
    with less.prems have "a85_next s = (None, s)"
      by (simp add: a85_next.simps [of s] getByte_Nil)
    with Nil less.prems show ?thesis by (auto simp: visible_def)
  next
    case (Cons b t)
    obtain s1 where s1: "getByte s = (Some b, s1)" "rest s1 = t" "stream_ok s1"
      using getByte_Cons [OF less.prems Cons] by blast
    show ?thesis
    proof (cases "isWhiteSpace b")
      case True
      then have "a85_next s = a85_next s1" and "visible s = visible s1"
        using s1 Cons by (simp_all add: a85_next.simps [of s] visible_def)
      with less.hyps [of s1] s1 Cons show ?thesis by auto
    next
      case False
      with s1 Cons have "a85_next s = (Some b, s1)" by (simp add: a85_next.simps [of s])
      with False s1 Cons show ?thesis by (auto simp: visible_def)
    qed
  qed
qed

lemma a85_next_cases:
  assumes "stream_ok s"
  obtains (None) s' where "visible s = []" and "a85_next s = (None, s')" and "stream_ok s'"
      and "visible s' = []" and "length (rest s') \<le> length (rest s)"
    | (Some) b t s' where "visible s = b # t" and "a85_next s = (Some b, s')" and "stream_ok s'"
      and "visible s' = t" and "length (rest s') < length (rest s)"
proof (cases "visible s")
  case Nil
  with None a85_next_spec [OF assms] show ?thesis by auto
next
  case (Cons b t)
  then have "rest s \<noteq> []" by (auto simp: visible_def)
  then have "length (rest s) - 1 < length (rest s)" by simp
  with Cons Some a85_next_spec [OF assms] show ?thesis by (fastforce dest: le_less_trans)
qed

text \<open>The characters a group of at most \<open>n\<close> further characters collects.\<close>

fun a85_take :: "nat \<Rightarrow> bytes \<Rightarrow> bytes" where
  "a85_take (Suc n) (b # t) = (if b = 0x7e then [] else b # a85_take n t)"
| "a85_take n v = []"

lemma length_a85_take: "length (a85_take n v) \<le> n"
  by (induction n v rule: a85_take.induct) auto

lemma a85_take_full: "length (a85_take n v) = n \<Longrightarrow> \<exists>t. v = a85_take n v @ t"
proof (induction n v rule: a85_take.induct)
  case (1 n b t)
  then show ?case by (auto split: if_splits)
qed auto

lemma a85_group_spec:
  assumes "stream_ok s" and "i + n = 5" and "length input = 5"
  shows "\<exists>input' s'. a85_group i input s = (input', i + length (a85_take n (visible s)), s') \<and>
    length input' = 5 \<and> stream_ok s' \<and> length (rest s') \<le> length (rest s) \<and>
    take (i + length (a85_take n (visible s))) input' = take i input @ a85_take n (visible s) \<and>
    (length (a85_take n (visible s)) = n \<longrightarrow> visible s' = drop n (visible s))"
  using assms
proof (induction n arbitrary: i input s)
  case 0
  then show ?case by (simp add: a85_group.simps)
next
  case (Suc n)
  then have i: "i < 5" by simp
  from Suc.prems(1) show ?case
  proof (cases rule: a85_next_cases)
    case (None s')
    with i Suc.prems show ?thesis by (simp add: a85_group.simps [of i])
  next
    case (Some b t s')
    show ?thesis
    proof (cases "b = 0x7e")
      case True
      with i Some Suc.prems show ?thesis by (simp add: a85_group.simps [of i])
    next
      case False
      have g: "a85_group i input s = a85_group (i + 1) (input[i := b]) s'"
        using i Some False by (simp add: a85_group.simps [of i])
      have t: "take (Suc i) (input[i := b]) = take i input @ [b]"
        using i Suc.prems by (simp add: take_Suc_conv_app_nth)
      obtain input' s2 where "a85_group (i + 1) (input[i := b]) s' = (input', i + 1 + length (a85_take n t), s2)"
          "length input' = 5" "stream_ok s2" "length (rest s2) \<le> length (rest s')"
          "take (i + 1 + length (a85_take n t)) input' = take (i + 1) (input[i := b]) @ a85_take n t"
          "length (a85_take n t) = n \<longrightarrow> visible s2 = drop n t"
        using Suc.IH [of s' "i + 1" "input[i := b]"] Suc.prems Some by auto
      with g t Some False show ?thesis by simp
    qed
  qed
qed

lemma a85_refines:
  assumes ok: "ds_ok d" and ne: "\<not> eof d" and s: "stream_ok (sub d)"
    and b: "a85_block (content d) (sub d) = Inr (out, fin, x')"
  shows "\<exists>d'. a85_readBlock d = Inr d' \<and> appends d out fin x' d'"
  using s
proof (cases rule: a85_next_cases)
  case (None s1)
  with b ok show ?thesis
    by (auto simp: a85_block_def a85_readBlock_def intro!: appends_end)
next
  case (Some c t s1)
  consider "c = 0x7e" | "c = 0x7a" | "c \<noteq> 0x7e" "c \<noteq> 0x7a" by blast
  then show ?thesis
  proof cases
    case 1
    with Some b ok show ?thesis
      by (auto simp: a85_block_def a85_readBlock_def intro!: appends_end)
  next
    case 2
    obtain m where m: "buffer (ensureBuffer (bufferLength d + 4) d) = content d @ zeros m"
        "bufferLength d + 4 \<le> bufferLength d + m"
      using obtain_ensured [OF ok ne] .
    have "arr_fill (content d @ zeros m) 0 (bufferLength d) (bufferLength d + 4)
        = content d @ replicate 4 0 @ zeros (m - 4)"
      using m ok by (intro fill_append_zeros) auto
    with 2 Some b m show ?thesis
      by (auto simp: a85_block_def a85_readBlock_def Let_def ne zeros_def
          intro!: appendsI [OF ok, where m = "m - 4"])
  next
    case 3
    obtain input i s2 where g: "a85_group 1 ((zeros 5)[0 := c]) s1 = (input, i, s2)" "i \<le> 5"
      using a85_group_spec [OF Some(3), of 1 4 "(zeros 5)[0 := c]"] length_a85_take [of 4 "visible s1"]
      by auto
    obtain m where m: "buffer (ensureBuffer (bufferLength d + (i - 1)) d) = content d @ zeros m"
        "bufferLength d + (i - 1) \<le> bufferLength d + m"
      using obtain_ensured [OF ok ne] .
    let ?t = "a85_value (if i < 5 then arr_fill input (0x21 + 84) i 5 else input)"
    have lc: "length (content d) = bufferLength d" using ok by simp
    show ?thesis
    proof (cases "i < 5")
      case True
      then have "take (bufferLength d + (i - 1)) (a85_store (content d @ zeros m) (bufferLength d) ?t)
          = content d @ take (i - 1) (a85_bytes ?t)"
        using m lc by (intro a85_store_part) auto
      moreover have "length (a85_store (content d @ zeros m) (bufferLength d) ?t) = bufferLength d + m"
        using lc by (simp add: a85_store_eq)
      ultimately show ?thesis using True 3 Some g m b
        by (auto simp: a85_block_def a85_readBlock_def Let_def intro!: appends_eofI [OF ok])
    next
      case False
      then have i: "i = 5" using g by simp
      have "a85_store (content d @ zeros m) (bufferLength d) ?t = content d @ a85_bytes ?t @ zeros (m - 4)"
        using m lc i by (intro a85_store_full) auto
      with i 3 Some g m b show ?thesis
        by (auto simp: a85_block_def a85_readBlock_def Let_def ne
            intro!: appendsI [OF ok, where m = "m - 4"])
    qed
  qed
qed

lemma a85_block_progress:
  assumes s: "stream_ok s" and b: "a85_block c s = Inr (out, False, s')"
  shows "stream_ok s' \<and> length (rest s') < length (rest s)"
  using s
proof (cases rule: a85_next_cases)
  case None
  with b show ?thesis by (simp add: a85_block_def)
next
  case (Some ch t s1)
  obtain input i s2 where g: "a85_group 1 ((zeros 5)[0 := ch]) s1 = (input, i, s2)" "stream_ok s2"
      "length (rest s2) \<le> length (rest s1)"
    using a85_group_spec [OF Some(3), of 1 4 "(zeros 5)[0 := ch]"] by auto
  from b Some g show ?thesis
    by (auto simp: a85_block_def split: if_splits)
qed

interpretation a85: block_decoder a85_readBlock a85_block "\<lambda>c s. stream_ok s" "\<lambda>s. length (rest s)"
proof unfold_locales
  show "a85_readBlock d = Inl e" if "a85_block (content d) (sub d) = Inl e" for d e
    using that by (auto simp: a85_block_def split: prod.splits if_splits)
  show "\<exists>d'. a85_readBlock d = Inr d' \<and> appends d out fin x' d'"
    if "ds_ok d" "\<not> eof d" "stream_ok (sub d)" "a85_block (content d) (sub d) = Inr (out, fin, x')"
    for d out fin x'
    using that by (rule a85_refines)
qed (auto dest: a85_block_progress)

subsection \<open>The decoding of a base-85 stream\<close>

text \<open>
  The decoding of a sequence of visible characters: groups of five, \<open>z\<close> for four zero
  bytes, and a last group of \<open>k + 1\<close> characters, completed with \<open>u\<close>, for \<open>k\<close> bytes.
\<close>

function a85_dec :: "bytes \<Rightarrow> bytes" where
  "a85_dec v =
     (case v of
        [] \<Rightarrow> []
      | c # t \<Rightarrow>
          if c = 0x7e then []
          else if c = 0x7a then zeros 4 @ a85_dec t
          else let g = a85_take 4 t
               in if length g = 4 then a85_bytes (a85_value (c # g)) @ a85_dec (drop 4 t)
                  else take (length g) (a85_bytes (a85_value (c # g @ replicate (4 - length g) (0x21 + 84)))))"
  by pat_completeness auto
termination by (relation "measure length") auto

declare a85_dec.simps [simp del]

lemma a85_decode_all:
  "stream_ok s \<Longrightarrow> decode_all a85_block c s = Some (Inr (c @ a85_dec (visible s)))"
proof (induction "length (rest s)" arbitrary: s c rule: less_induct)
  case less
  from less.prems show ?case
  proof (cases rule: a85_next_cases)
    case (None s1)
    then have "a85_block c s = Inr ([], True, s1)" by (simp add: a85_block_def)
    with None show ?thesis by (simp add: a85_dec.simps)
  next
    case (Some b t s1)
    note IH = less.hyps [of s1]
    consider "b = 0x7e" | "b = 0x7a" | "b \<noteq> 0x7e" "b \<noteq> 0x7a" by blast
    then show ?thesis
    proof cases
      case 1
      then have "a85_block c s = Inr ([], True, s1)" using Some by (simp add: a85_block_def)
      with 1 Some show ?thesis by (simp add: a85_dec.simps)
    next
      case 2
      then have "a85_block c s = Inr (zeros 4, False, s1)" using Some by (simp add: a85_block_def)
      with 2 Some IH show ?thesis
        by (simp add: decode_all_more a85_dec.simps [of "0x7a # t"])
    next
      case 3
      let ?g = "a85_take 4 t"
      obtain input s2 where g: "a85_group 1 ((zeros 5)[0 := b]) s1 = (input, 1 + length ?g, s2)"
          "length input = 5" "stream_ok s2" "length (rest s2) \<le> length (rest s1)"
          "take (1 + length ?g) input = take 1 ((zeros 5)[0 := b]) @ ?g"
          "length ?g = 4 \<longrightarrow> visible s2 = drop 4 t"
        using a85_group_spec [OF Some(3), of 1 4 "(zeros 5)[0 := b]"] Some(4) by auto
      have tk: "take (Suc (length ?g)) input = b # ?g"
        using g(5) by (simp add: zeros_def numeral_eq_Suc)
      show ?thesis
      proof (cases "length ?g = 4")
        case True
        then have "input = b # ?g" using tk g(2) by simp
        with True 3 Some g have "a85_block c s = Inr (a85_bytes (a85_value (b # ?g)), False, s2)"
          by (simp add: a85_block_def)
        moreover have "decode_all a85_block (c @ a85_bytes (a85_value (b # ?g))) s2
            = Some (Inr ((c @ a85_bytes (a85_value (b # ?g))) @ a85_dec (visible s2)))"
          using less.hyps [of s2] g Some by simp
        ultimately show ?thesis using True 3 Some g(6)
          by (simp add: decode_all_more a85_dec.simps [of "b # t"] Let_def)
      next
        case False
        then have l: "length ?g < 4" using length_a85_take [of 4 t] by simp
        have "arr_fill input (0x21 + 84) (1 + length ?g) 5 = b # ?g @ replicate (4 - length ?g) (0x21 + 84)"
          using l g(2) tk by (simp add: arr_fill_def Let_def)
        with l 3 Some g have "a85_block c s =
            Inr (take (length ?g) (a85_bytes (a85_value (b # ?g @ replicate (4 - length ?g) (0x21 + 84)))), True, s2)"
          by (simp add: a85_block_def)
        with False 3 Some show ?thesis
          by (simp add: a85_dec.simps [of "b # t"] Let_def)
      qed
    qed
  qed
qed

definition ascii85Stream :: "bytes \<Rightarrow> rat \<Rightarrow> stream dstream" where
  "ascii85Stream bs maybeLength = mk_dstream (maybeLength * (4 / 5)) (mk_stream bs None None)"

subsection \<open>Round trip with a base-85 encoder\<close>

definition a85_char :: "nat \<Rightarrow> u8" where
  "a85_char d = of_nat (33 + d)"

definition a85_enc5 :: "nat \<Rightarrow> bytes" where
  "a85_enc5 v =
     (let q1 = v div 85; q2 = q1 div 85; q3 = q2 div 85; q4 = q3 div 85
      in map (\<lambda>q. a85_char (q mod 85)) [q4, q3, q2, q1, v])"

definition be32 :: "u8 \<Rightarrow> u8 \<Rightarrow> u8 \<Rightarrow> u8 \<Rightarrow> nat" where
  "be32 a b c d = ((unat a * 256 + unat b) * 256 + unat c) * 256 + unat d"

fun a85_enc :: "bytes \<Rightarrow> bytes" where
  "a85_enc (a # b # c # d # r) =
     (if a = 0 \<and> b = 0 \<and> c = 0 \<and> d = 0 then [0x7a] else a85_enc5 (be32 a b c d)) @ a85_enc r"
| "a85_enc [a, b, c] = take 4 (a85_enc5 (be32 a b c 0))"
| "a85_enc [a, b] = take 3 (a85_enc5 (be32 a b 0 0))"
| "a85_enc [a] = take 2 (a85_enc5 (be32 a 0 0 0))"
| "a85_enc [] = []"

lemma a85_char_simps:
  assumes "d < 85"
  shows "uint (a85_char d) = 33 + int d" and "a85_char d \<noteq> 0x7e" and "a85_char d \<noteq> 0x7a"
    and "\<not> isWhiteSpace (a85_char d)"
proof -
  have u: "unat (a85_char d) = 33 + d"
    unfolding a85_char_def using assms by (intro unat_of_nat_u8) simp
  then show "uint (a85_char d) = 33 + int d" by (simp add: uint_nat)
  have ne: "a85_char d \<noteq> of_nat k" if "k < 33 \<or> 33 + 85 \<le> k" "k < 256" for k :: nat
    using u that assms unat_of_nat_u8 [of k] by auto
  show "a85_char d \<noteq> 0x7e" "a85_char d \<noteq> 0x7a" "\<not> isWhiteSpace (a85_char d)"
    using ne [where k = 126] ne [where k = 122] ne [where k = 32] ne [where k = 9]
      ne [where k = 13] ne [where k = 10]
    by (simp_all add: isWhiteSpace_def)
qed

lemma be32_bound: "be32 a b c d < 2 ^ 32"
proof -
  have "x * 16777216 + y * 65536 + z * 256 + w < 4294967296"
    if "x < 256" "y < 256" "z < 256" "w < 256" for x y z w :: nat
    using that by linarith
  from this [OF u8_less u8_less u8_less u8_less, of a b c d] show ?thesis
    by (simp add: be32_def)
qed

lemma a85_bytes_be32: "a85_bytes (int (be32 a b c d)) = [a, b, c, d]"
proof -
  have *: "word_of_int (x * 256 + uint y) = (y :: u8)" for x y
  proof -
    have "word_of_int (x * 256 + uint y) = (word_of_int x * 256 + y :: u8)"
      by (metis of_int_add of_int_mult of_int_numeral word_of_int_uint)
    also have "(256 :: u8) = 0" by simp
    finally show ?thesis by simp
  qed
  have u: "0 \<le> uint x \<and> uint x < 256" for x :: u8
    using uint_lt2p [of x] by simp
  have v: "int (be32 a b c d) = ((uint a * 256 + uint b) * 256 + uint c) * 256 + uint d"
    by (simp add: be32_def)
  have dv: "(q * 256 + uint x) div 256 = q" for q and x :: u8
    using u [of x] by simp
  have d1: "int (be32 a b c d) div 256 = (uint a * 256 + uint b) * 256 + uint c"
    unfolding v by (rule dv)
  moreover have d2: "int (be32 a b c d) div 65536 = uint a * 256 + uint b"
  proof -
    have "int (be32 a b c d) div (256 * 256) = int (be32 a b c d) div 256 div 256"
      by (rule zdiv_zmult2_eq) simp
    also have "\<dots> = uint a * 256 + uint b" unfolding d1 by (rule dv)
    finally show ?thesis by simp
  qed
  moreover have "int (be32 a b c d) div 16777216 = uint a"
  proof -
    have "int (be32 a b c d) div (65536 * 256) = int (be32 a b c d) div 65536 div 256"
      by (rule zdiv_zmult2_eq) simp
    also have "\<dots> = uint a" unfolding d2 by (rule dv)
    finally show ?thesis by simp
  qed
  ultimately have
    "word_of_int (int (be32 a b c d) div 256) = c" "word_of_int (int (be32 a b c d) div 65536) = b"
    "word_of_int (int (be32 a b c d) div 16777216) = a"
    by (simp_all only: *) simp
  moreover have "word_of_int (int (be32 a b c d)) = d"
    unfolding v by (rule *)
  ultimately show ?thesis
    by (simp add: a85_bytes_def)
qed

lemma a85_take_stop: "(\<forall>b \<in> set g. b \<noteq> 0x7e) \<Longrightarrow> length g \<le> n \<Longrightarrow> a85_take n (g @ 0x7e # t) = g"
proof (induction g arbitrary: n)
  case Nil
  then show ?case by (cases n) auto
next
  case (Cons b g)
  then show ?case by (cases n) auto
qed

lemma a85_take_exact: "(\<forall>b \<in> set g. b \<noteq> 0x7e) \<Longrightarrow> length g = n \<Longrightarrow> a85_take n (g @ t) = g"
  by (induction g arbitrary: n) auto

lemma short_replicates: "replicate 2 x = [x, x]" "replicate 3 x = [x, x, x]"
  "(zeros 4 :: bytes) = [0, 0, 0, 0]"
  by (simp_all add: zeros_def numeral_2_eq_2 numeral_3_eq_3 eval_nat_numeral)

lemma a85_value_chars:
  assumes "d4 < 85" "d3 < 85" "d2 < 85" "d1 < 85" "d0 < 85"
  shows "a85_value [a85_char d4, a85_char d3, a85_char d2, a85_char d1, a85_char d0]
    = int ((((d4 * 85 + d3) * 85 + d2) * 85 + d1) * 85 + d0)"
  using assms by (simp add: a85_value_def a85_char_simps)

lemma a85_enc5_digits:
  assumes "v < 2 ^ 32"
  obtains d4 d3 d2 d1 d0 where "d4 < 85" "d3 < 85" "d2 < 85" "d1 < 85" "d0 < 85"
    "v = (((d4 * 85 + d3) * 85 + d2) * 85 + d1) * 85 + d0"
    "a85_enc5 v = [a85_char d4, a85_char d3, a85_char d2, a85_char d1, a85_char d0]"
proof -
  define q1 where "q1 = v div 85"
  define q2 where "q2 = q1 div 85"
  define q3 where "q3 = q2 div 85"
  define q4 where "q4 = q3 div 85"
  have m: "v = q1 * 85 + v mod 85" "q1 = q2 * 85 + q1 mod 85" "q2 = q3 * 85 + q2 mod 85"
      "q3 = q4 * 85 + q3 mod 85"
    by (simp_all add: q1_def q2_def q3_def q4_def)
  have "v < 4294967296" using assms by simp
  then have "q4 < 85" using m by linarith
  then have "q4 mod 85 = q4" by simp
  with that [of q4 "q3 mod 85" "q2 mod 85" "q1 mod 85" "v mod 85"] m \<open>q4 < 85\<close> show ?thesis
    by (simp add: a85_enc5_def Let_def flip: q1_def q2_def q3_def q4_def)
qed

lemma a85_dec_group:
  assumes "v < 2 ^ 32"
  shows "a85_dec (a85_enc5 v @ t) = a85_bytes (int v) @ a85_dec t"
proof -
  obtain d4 d3 d2 d1 d0 where d: "d4 < 85" "d3 < 85" "d2 < 85" "d1 < 85" "d0 < 85"
    and v: "v = (((d4 * 85 + d3) * 85 + d2) * 85 + d1) * 85 + d0"
    and e: "a85_enc5 v = [a85_char d4, a85_char d3, a85_char d2, a85_char d1, a85_char d0]"
    using a85_enc5_digits [OF assms] .
  have "a85_take 4 ([a85_char d3, a85_char d2, a85_char d1, a85_char d0] @ t)
      = [a85_char d3, a85_char d2, a85_char d1, a85_char d0]"
    using d by (intro a85_take_exact) (simp_all add: a85_char_simps)
  moreover have "a85_value [a85_char d4, a85_char d3, a85_char d2, a85_char d1, a85_char d0] = int v"
    unfolding v by (rule a85_value_chars [OF d])
  ultimately show ?thesis
    unfolding e using d by (subst a85_dec.simps) (simp add: a85_char_simps)
qed

text \<open>
  A group cut after \<open>k + 1\<close> characters and completed with the largest digit still has
  the right \<open>k\<close> leading bytes.
\<close>

lemma a85_bytes_take:
  assumes n: "n \<in> {1, 2, 3}" and v: "v mod 256 ^ n = 0" and w: "v \<le> w" "w < v + 256 ^ n"
  shows "take (4 - n) (a85_bytes (int w)) = take (4 - n) (a85_bytes (int v))"
proof -
  obtain q where q: "v = q * 256 ^ n" using v by auto
  have "w div 256 ^ n = v div 256 ^ n"
    using w unfolding q by (intro div_nat_eqI [THEN trans]) (simp_all add: ac_simps)
  then have *: "w div 256 ^ (n + j) = v div 256 ^ (n + j)" for j
    by (simp add: power_add div_mult2_eq)
  have "int w div 256 ^ k = int v div 256 ^ k" if "n \<le> k" for k
    using * [of "k - n"] that by (metis le_add_diff_inverse of_nat_numeral of_nat_power zdiv_int)
  from this [of 1] this [of 2] this [of 3] n show ?thesis
    by (auto simp: a85_bytes_def)
qed

lemma a85_dec_last:
  assumes b: "v < 2 ^ 32" and v: "v mod 256 ^ n = 0" and n: "n \<in> {1, 2, 3}"
  shows "a85_dec (take (5 - n) (a85_enc5 v) @ 0x7e # t) = take (4 - n) (a85_bytes (int v))"
proof -
  obtain d4 d3 d2 d1 d0 where d: "d4 < 85" "d3 < 85" "d2 < 85" "d1 < 85" "d0 < 85"
    and ve: "v = (((d4 * 85 + d3) * 85 + d2) * 85 + d1) * 85 + d0"
    and e: "a85_enc5 v = [a85_char d4, a85_char d3, a85_char d2, a85_char d1, a85_char d0]"
    using a85_enc5_digits [OF b] .
  have u: "(0x75 :: u8) = a85_char 84" by (simp add: a85_char_def)
  have u84: "(84 :: nat) < 85" by simp
  let ?g = "take (4 - n) [a85_char d3, a85_char d2, a85_char d1, a85_char d0]"
  define w where "w = (((d4 * 85 + d3) * 85 + (if n = 3 then 84 else d2)) * 85
      + (if n \<ge> 2 then 84 else d1)) * 85 + 84"
  have tk: "a85_take 4 (?g @ 0x7e # t) = ?g"
    using d n by (intro a85_take_stop) (auto simp: a85_char_simps)
  have val: "a85_value (a85_char d4 # ?g @ replicate (4 - length ?g) (a85_char 84)) = int w"
    using n d u84 by (auto simp: w_def a85_value_chars short_replicates)
  have "v \<le> w" "w < v + 256 ^ n" using n d by (auto simp: w_def ve)
  then have "take (4 - n) (a85_bytes (int w)) = take (4 - n) (a85_bytes (int v))"
    by (rule a85_bytes_take [OF n v])
  moreover have "take (5 - n) (a85_enc5 v) = a85_char d4 # ?g" using n by (auto simp: e)
  moreover have "length ?g = 4 - n" using n by auto
  ultimately show ?thesis
    using d n tk val by (subst a85_dec.simps) (auto simp: a85_char_simps u numeral_2_eq_2 numeral_3_eq_3)
qed

lemma be32_mod: "be32 a b c 0 mod 256 = 0" "be32 a b 0 0 mod 256\<^sup>2 = 0" "be32 a 0 0 0 mod 256 ^ 3 = 0"
  by (simp_all add: be32_def power2_eq_square algebra_simps)

lemma a85_dec_enc: "a85_dec (a85_enc bs @ 0x7e # t) = bs"
proof (induction bs rule: a85_enc.induct)
  case (1 a b c d r)
  show ?case
  proof (cases "a = 0 \<and> b = 0 \<and> c = 0 \<and> d = 0")
    case True
    then show ?thesis using 1
      by (simp add: a85_dec.simps [of "0x7a # _"] short_replicates)
  next
    case False
    then have "a85_enc (a # b # c # d # r) = a85_enc5 (be32 a b c d) @ a85_enc r"
      by (simp only: a85_enc.simps if_False)
    then show ?thesis using 1 a85_dec_group [OF be32_bound, of a b c d "a85_enc r @ 0x7e # t"]
      by (simp add: a85_bytes_be32)
  qed
next
  case (2 a b c)
  then show ?case using a85_dec_last [OF be32_bound, of a b c 0 1 t] be32_mod
    by (simp add: a85_bytes_be32)
next
  case (3 a b)
  then show ?case using a85_dec_last [OF be32_bound, of a b 0 0 2 t] be32_mod
    by (simp add: a85_bytes_be32)
next
  case (4 a)
  then show ?case using a85_dec_last [OF be32_bound, of a 0 0 0 3 t] be32_mod
    by (simp add: a85_bytes_be32)
next
  case 5
  then show ?case by (simp add: a85_dec.simps)
qed

section \<open>What a reader of the three filters gets\<close>

text \<open>
  RunLengthStream decodes what any run-length encoder wrote.  For every sequence of
  well-formed runs followed by the end marker 128 (and arbitrary bytes after it),
  reading the stream in chunks of any positive sizes gives the first bytes of the
  concatenated runs, as many as were asked for.
\<close>

theorem runLength_roundtrip:
  assumes "\<forall>r \<in> set rs. run_ok r" and "\<forall>n \<in> set ns. 0 < n"
  shows "\<exists>d. read_chunks rl_readBlock ns
      (runLengthStream (concat (map run_encode rs) @ 128 # t) maybeLength)
    = Some (Inr (take (sum_list ns) (concat (map run_bytes rs)), d))"
proof -
  have "rl.represents (runLengthStream (concat (map run_encode rs) @ 128 # t) maybeLength)
      (concat (map run_bytes rs))"
    unfolding runLengthStream_def using rl_decode_runs [OF _ assms(1), of _ t "[]"]
    by (intro rl.fresh_represents) simp_all
  from rl.read_chunks_represents [OF this assms(2)] show ?thesis
    by (simp add: runLengthStream_def)
qed

text \<open>
  AsciiHexStream decodes every input: the digits before the end marker are paired
  into bytes whatever lies between them, a last single digit counts as the high half of
  a byte when the end marker is there and is dropped otherwise, and the pattern of the
  reads does not matter although a digit may be left over between two blocks.
\<close>

theorem asciiHex_decodes:
  assumes "\<forall>n \<in> set ns. 0 < n"
  shows "\<exists>d. read_chunks hex_readBlock ns (asciiHexStream bs maybeLength)
    = Some (Inr (take (sum_list ns) (pair_up (0x3e \<in> set bs) (hex_digits bs)), d))"
proof -
  let ?x = "\<lparr>hx_stream = mk_stream bs None None, firstDigit = -1\<rparr>"
  have "decode_all hex_block [] ?x = Some (Inr (pair_up (0x3e \<in> set bs) (hex_digits bs)))"
    by (simp add: hex_decode_all hex_pairs_spec)
  then have "hex.represents (asciiHexStream bs maybeLength) (pair_up (0x3e \<in> set bs) (hex_digits bs))"
    unfolding asciiHexStream_def by (intro hex.fresh_represents) simp_all
  from hex.read_chunks_represents [OF this assms] show ?thesis
    by (simp add: asciiHexStream_def)
qed

text \<open>
  C28: Ascii85Stream inverts base-85 encoding.  If the characters of the text that are
  not white space are the encoding of \<open>out\<close> followed by the marker \<open>~\<close>, then reading the
  stream in chunks of any positive sizes gives the bytes of \<open>out\<close>.
\<close>

theorem ascii85_roundtrip:
  assumes "filter (\<lambda>c. \<not> isWhiteSpace c) bs = a85_enc out @ 0x7e # t" and "\<forall>n \<in> set ns. 0 < n"
  shows "\<exists>d. read_chunks a85_readBlock ns (ascii85Stream bs maybeLength)
    = Some (Inr (take (sum_list ns) out, d))"
proof -
  have "decode_all a85_block [] (mk_stream bs None None) = Some (Inr out)"
    using assms(1) by (simp add: a85_decode_all visible_def a85_dec_enc)
  then have "a85.represents (ascii85Stream bs maybeLength) out"
    unfolding ascii85Stream_def by (intro a85.fresh_represents) simp_all
  from a85.read_chunks_represents [OF this assms(2)] show ?thesis
    by (simp add: ascii85Stream_def)
qed

theorem ascii85_roundtrip_witness:
  "\<exists>d. read_chunks a85_readBlock [1, 2]
      (ascii85Stream [0x7a, 0x20, 0x39, 0x6a, 0x71, 0x6f, 0x0a, 0x5e, 0x7e, 0x3e] 0)
    = Some (Inr (take (sum_list [1, 2]) [0, 0, 0, 0, 0x4d, 0x61, 0x6e, 0x20], d))"
  by (rule ascii85_roundtrip [where t = "[0x3e]"])
    (simp_all add: isWhiteSpace_def a85_enc5_def a85_char_def be32_def)

end
