(* ===== verification/Digests.thy ===== *)
theory Digests
  imports Js_Prelude
begin

text \<open>
  The digests of the security handler: \<open>calculateMD5\<close>, \<open>calculateSHA256\<close>,
  \<open>calculateSHA512\<close> and \<open>calculateSHA384\<close>.  JavaScript computes the 32-bit sums as
  Numbers and truncates with \<open>| 0\<close>; no sum exceeds \<open>2 ^ 53\<close>, so the result is the
  sum of 32-bit words.  SHA-512 works on 64-bit integers kept as two 32-bit halves
  (class \<open>Word64\<close>); the development shows that this arithmetic refines
  the arithmetic of \<open>64 word\<close>.
\<close>

section \<open>Shifts\<close>

text \<open>JavaScript takes a shift count modulo 32.\<close>

definition shl :: "u32 \<Rightarrow> nat \<Rightarrow> u32" where
  "shl x n = push_bit (n mod 32) x"

definition shr :: "u32 \<Rightarrow> nat \<Rightarrow> u32" where
  "shr x n = drop_bit (n mod 32) x"

text \<open>\<open>x & 0xff\<close>, stored in a \<open>Uint8Array\<close>.\<close>

definition low8 :: "u32 \<Rightarrow> u8" where
  "low8 x = ucast (x AND 0xff)"

lemma low8_ucast: "low8 x = ucast x"
  unfolding low8_def by (rule bit_word_eqI) (auto simp: bit_simps numeral_eq_Suc less_Suc_eq)

section \<open>MD5\<close>

definition md5_r :: "nat list" where
  "md5_r =
    [7, 12, 17, 22, 7, 12, 17, 22, 7, 12, 17, 22, 7, 12, 17, 22,
      5, 9, 14, 20, 5, 9, 14, 20, 5, 9, 14, 20, 5, 9, 14, 20,
      4, 11, 16, 23, 4, 11, 16, 23, 4, 11, 16, 23, 4, 11, 16, 23,
      6, 10, 15, 21, 6, 10, 15, 21, 6, 10, 15, 21, 6, 10, 15, 21]"

definition md5_k :: "u32 list" where
  "md5_k =
    [-680876936, -389564586, 606105819, -1044525330, -176418897, 1200080426,
      -1473231341, -45705983, 1770035416, -1958414417, -42063, -1990404162,
      1804603682, -40341101, -1502002290, 1236535329, -165796510, -1069501632,
      643717713, -373897302, -701558691, 38016083, -660478335, -405537848,
      568446438, -1019803690, -187363961, 1163531501, -1444681467, -51403784,
      1735328473, -1926607734, -378558, -2022574463, 1839030562, -35309556,
      -1530992060, 1272893353, -155497632, -1094730640, 681279174, -358537222,
      -722521979, 76029189, -640364487, -421815835, 530742520, -995338651,
      -198630844, 1126891415, -1416354905, -57434055, 1700485571, -1894986606,
      -1051523, -2054922799, 1873313359, -30611744, -1560198380, 1309151649,
      -145523070, -1120210379, 718787259, -343485551]"

text \<open>The copy of the message with its padding.\<close>

definition copy_loop :: "bytes \<Rightarrow> nat \<Rightarrow> nat \<Rightarrow> bytes \<Rightarrow> bytes" where
  "copy_loop data offset len padded =
     foldl (\<lambda>p i. p[i := rd data (offset + i)]) padded [0..<len]"

definition md5_padded :: "bytes \<Rightarrow> nat \<Rightarrow> nat \<Rightarrow> bytes" where
  "md5_padded data offset len =
     (let paddedLength = (len + 72) div 64 * 64;
          padded = copy_loop data offset len (zeros paddedLength);
          padded = padded[len := 0x80];
          n = paddedLength - 8;
          i = (if len + 1 < n then n else len + 1);
          l = of_nat len :: u32
      in padded[i := low8 (shl l 3), i + 1 := low8 (shr l 5), i + 2 := low8 (shr l 13),
                i + 3 := low8 (shr l 21), i + 4 := low8 (shr l 29)])"

type_synonym md5_h = "u32 \<times> u32 \<times> u32 \<times> u32"

definition md5_w :: "bytes \<Rightarrow> nat \<Rightarrow> u32 list" where
  "md5_w padded i =
     map (\<lambda>j. let b = (\<lambda>k. ucast (rd padded (i + 4 * j + k)) :: u32)
              in b 0 OR shl (b 1) 8 OR shl (b 2) 16 OR shl (b 3) 24) [0..<16]"

definition md5_step :: "u32 list \<Rightarrow> md5_h \<Rightarrow> nat \<Rightarrow> md5_h" where
  "md5_step w h j =
     (let (a, b, c, d) = h;
          (f, g) =
            (if j < 16 then ((b AND c) OR (NOT b AND d), j)
             else if j < 32 then ((d AND b) OR (NOT d AND c), (5 * j + 1) mod 16)
             else if j < 48 then (b XOR c XOR d, (3 * j + 5) mod 16)
             else (c XOR (b OR NOT d), (7 * j) mod 16));
          rotateArg = a + f + md5_k ! j + w ! g;
          rotate = md5_r ! j
      in (d, b + (shl rotateArg rotate OR shr rotateArg (32 - rotate)), b, c))"

definition md5_block :: "bytes \<Rightarrow> md5_h \<Rightarrow> nat \<Rightarrow> md5_h" where
  "md5_block padded h blk =
     (let (h0, h1, h2, h3) = h;
          (a, b, c, d) = foldl (md5_step (md5_w padded (64 * blk))) h [0..<64]
      in (h0 + a, h1 + b, h2 + c, h3 + d))"

definition le_bytes :: "u32 \<Rightarrow> bytes" where
  "le_bytes x = [low8 x, low8 (shr x 8), low8 (shr x 16), low8 (shr x 24)]"

definition calculateMD5 :: "bytes \<Rightarrow> nat \<Rightarrow> nat \<Rightarrow> bytes" where
  "calculateMD5 data offset len =
     (let padded = md5_padded data offset len;
          (h0, h1, h2, h3) =
            foldl (md5_block padded) (1732584193, -271733879, -1732584194, 271733878)
              [0..<length padded div 64]
      in le_bytes h0 @ le_bytes h1 @ le_bytes h2 @ le_bytes h3)"

section \<open>SHA-256\<close>

definition sha256_k :: "u32 list" where
  "sha256_k =
    [1116352408, 1899447441, 3049323471, 3921009573, 961987163, 1508970993,
      2453635748, 2870763221, 3624381080, 310598401, 607225278, 1426881987,
      1925078388, 2162078206, 2614888103, 3248222580, 3835390401, 4022224774,
      264347078, 604807628, 770255983, 1249150122, 1555081692, 1996064986,
      2554220882, 2821834349, 2952996808, 3210313671, 3336571891, 3584528711,
      113926993, 338241895, 666307205, 773529912, 1294757372, 1396182291,
      1695183700, 1986661051, 2177026350, 2456956037, 2730485921, 2820302411,
      3259730800, 3345764771, 3516065817, 3600352804, 4094571909, 275423344,
      430227734, 506948616, 659060556, 883997877, 958139571, 1322822218,
      1537002063, 1747873779, 1955562222, 2024104815, 2227730452, 2361852424,
      2428436474, 2756734187, 3204031479, 3329325298]"

definition rotr32 :: "u32 \<Rightarrow> nat \<Rightarrow> u32" where
  "rotr32 x n = shr x n OR shl x (32 - n)"

definition sha256_ch :: "u32 \<Rightarrow> u32 \<Rightarrow> u32 \<Rightarrow> u32" where
  "sha256_ch x y z = (x AND y) XOR (NOT x AND z)"

definition sha256_maj :: "u32 \<Rightarrow> u32 \<Rightarrow> u32 \<Rightarrow> u32" where
  "sha256_maj x y z = (x AND y) XOR (x AND z) XOR (y AND z)"

definition sha256_sigma :: "u32 \<Rightarrow> u32" where
  "sha256_sigma x = rotr32 x 2 XOR rotr32 x 13 XOR rotr32 x 22"

definition sha256_sigmaPrime :: "u32 \<Rightarrow> u32" where
  "sha256_sigmaPrime x = rotr32 x 6 XOR rotr32 x 11 XOR rotr32 x 25"

definition sha256_littleSigma :: "u32 \<Rightarrow> u32" where
  "sha256_littleSigma x = rotr32 x 7 XOR rotr32 x 18 XOR shr x 3"

definition sha256_littleSigmaPrime :: "u32 \<Rightarrow> u32" where
  "sha256_littleSigmaPrime x = rotr32 x 17 XOR rotr32 x 19 XOR shr x 10"

definition sha256_padded :: "bytes \<Rightarrow> nat \<Rightarrow> nat \<Rightarrow> bytes" where
  "sha256_padded data offset len =
     (let paddedLength = (len + 9 + 63) div 64 * 64;
          padded = copy_loop data offset len (zeros paddedLength);
          padded = padded[len := 0x80];
          n = paddedLength - 8;
          i = (if len + 1 < n then n else len + 1) + 3;
          l = of_nat len :: u32
      in padded[i := low8 (shr l 29), i + 1 := low8 (shr l 21), i + 2 := low8 (shr l 13),
                i + 3 := low8 (shr l 5), i + 4 := low8 (shl l 3)])"

definition be_word :: "bytes \<Rightarrow> nat \<Rightarrow> u32" where
  "be_word padded i =
     (let b = (\<lambda>k. ucast (rd padded (i + k)) :: u32)
      in shl (b 0) 24 OR shl (b 1) 16 OR shl (b 2) 8 OR b 3)"

definition sha256_w :: "bytes \<Rightarrow> nat \<Rightarrow> u32 list" where
  "sha256_w padded i =
     foldl (\<lambda>w j. w[j := sha256_littleSigmaPrime (w ! (j - 2)) + w ! (j - 7)
                        + sha256_littleSigma (w ! (j - 15)) + w ! (j - 16)])
       (foldl (\<lambda>w j. w[j := be_word padded (i + 4 * j)]) (zeros 64) [0..<16])
       [16..<64]"

type_synonym 'w sha_h = "'w \<times> 'w \<times> 'w \<times> 'w \<times> 'w \<times> 'w \<times> 'w \<times> 'w"

definition sha256_step :: "u32 list \<Rightarrow> u32 sha_h \<Rightarrow> nat \<Rightarrow> u32 sha_h" where
  "sha256_step w s j =
     (let (a, b, c, d, e, f, g, h) = s;
          t1 = h + sha256_sigmaPrime e + sha256_ch e f g + sha256_k ! j + w ! j;
          t2 = sha256_sigma a + sha256_maj a b c
      in (t1 + t2, a, b, c, d + t1, e, f, g))"

definition sha256_block :: "bytes \<Rightarrow> u32 sha_h \<Rightarrow> nat \<Rightarrow> u32 sha_h" where
  "sha256_block padded s blk =
     (let (h0, h1, h2, h3, h4, h5, h6, h7) = s;
          (a, b, c, d, e, f, g, h) = foldl (sha256_step (sha256_w padded (64 * blk))) s [0..<64]
      in (h0 + a, h1 + b, h2 + c, h3 + d, h4 + e, h5 + f, h6 + g, h7 + h))"

definition be_bytes :: "u32 \<Rightarrow> bytes" where
  "be_bytes x = [low8 (shr x 24), low8 (shr x 16), low8 (shr x 8), low8 x]"

definition sha256_init :: "u32 sha_h" where
  "sha256_init = (0x6a09e667, 0xbb67ae85, 0x3c6ef372, 0xa54ff53a, 0x510e527f, 0x9b05688c, 0x1f83d9ab, 0x5be0cd19)"

definition calculateSHA256 :: "bytes \<Rightarrow> nat \<Rightarrow> nat \<Rightarrow> bytes" where
  "calculateSHA256 data offset len =
     (let padded = sha256_padded data offset len;
          (h0, h1, h2, h3, h4, h5, h6, h7) =
            foldl (sha256_block padded) sha256_init [0..<length padded div 64]
      in be_bytes h0 @ be_bytes h1 @ be_bytes h2 @ be_bytes h3 @
         be_bytes h4 @ be_bytes h5 @ be_bytes h6 @ be_bytes h7)"

section \<open>SHA-512 and SHA-384\<close>

record word64 =
  high :: u32
  low :: u32

definition mk_word64 :: "u32 \<Rightarrow> u32 \<Rightarrow> word64" where
  "mk_word64 h l = \<lparr>high = h, low = l\<rparr>"

definition w64_and :: "word64 \<Rightarrow> word64 \<Rightarrow> word64" where
  "w64_and x y = \<lparr>high = high x AND high y, low = low x AND low y\<rparr>"

definition w64_xor :: "word64 \<Rightarrow> word64 \<Rightarrow> word64" where
  "w64_xor x y = \<lparr>high = high x XOR high y, low = low x XOR low y\<rparr>"

definition shiftRight :: "word64 \<Rightarrow> nat \<Rightarrow> word64" where
  "shiftRight x places =
     \<lparr>high = shr (high x) places, low = shr (low x) places OR shl (high x) (32 - places)\<rparr>"

definition rotateRight :: "word64 \<Rightarrow> nat \<Rightarrow> word64" where
  "rotateRight x places =
     (let (lo, hi) = (if odd (places div 32) then (high x, low x) else (low x, high x));
          p = places mod 32
      in \<lparr>high = shr hi p OR shl lo (32 - p), low = shr lo p OR shl hi (32 - p)\<rparr>)"

definition w64_not :: "word64 \<Rightarrow> word64" where
  "w64_not x = \<lparr>high = NOT (high x), low = NOT (low x)\<rparr>"

definition w64_add :: "word64 \<Rightarrow> word64 \<Rightarrow> word64" where
  "w64_add x y =
     (let lowAdd = uint (low x) + uint (low y);
          highAdd = uint (high x) + uint (high y);
          highAdd = (if lowAdd > 0xffffffff then highAdd + 1 else highAdd)
      in \<lparr>high = word_of_int highAdd, low = word_of_int lowAdd\<rparr>)"

definition copyTo :: "word64 \<Rightarrow> bytes" where
  "copyTo x = [low8 (shr (high x) 24), low8 (shr (high x) 16), low8 (shr (high x) 8), low8 (high x),
               low8 (shr (low x) 24), low8 (shr (low x) 16), low8 (shr (low x) 8), low8 (low x)]"

definition sha512_k :: "word64 list" where
  "sha512_k = map (\<lambda>(h, l). mk_word64 h l)
    [(0x428a2f98, 0xd728ae22), (0x71374491, 0x23ef65cd), (0xb5c0fbcf, 0xec4d3b2f), (0xe9b5dba5, 0x8189dbbc),
      (0x3956c25b, 0xf348b538), (0x59f111f1, 0xb605d019), (0x923f82a4, 0xaf194f9b), (0xab1c5ed5, 0xda6d8118),
      (0xd807aa98, 0xa3030242), (0x12835b01, 0x45706fbe), (0x243185be, 0x4ee4b28c), (0x550c7dc3, 0xd5ffb4e2),
      (0x72be5d74, 0xf27b896f), (0x80deb1fe, 0x3b1696b1), (0x9bdc06a7, 0x25c71235), (0xc19bf174, 0xcf692694),
      (0xe49b69c1, 0x9ef14ad2), (0xefbe4786, 0x384f25e3), (0x0fc19dc6, 0x8b8cd5b5), (0x240ca1cc, 0x77ac9c65),
      (0x2de92c6f, 0x592b0275), (0x4a7484aa, 0x6ea6e483), (0x5cb0a9dc, 0xbd41fbd4), (0x76f988da, 0x831153b5),
      (0x983e5152, 0xee66dfab), (0xa831c66d, 0x2db43210), (0xb00327c8, 0x98fb213f), (0xbf597fc7, 0xbeef0ee4),
      (0xc6e00bf3, 0x3da88fc2), (0xd5a79147, 0x930aa725), (0x06ca6351, 0xe003826f), (0x14292967, 0x0a0e6e70),
      (0x27b70a85, 0x46d22ffc), (0x2e1b2138, 0x5c26c926), (0x4d2c6dfc, 0x5ac42aed), (0x53380d13, 0x9d95b3df),
      (0x650a7354, 0x8baf63de), (0x766a0abb, 0x3c77b2a8), (0x81c2c92e, 0x47edaee6), (0x92722c85, 0x1482353b),
      (0xa2bfe8a1, 0x4cf10364), (0xa81a664b, 0xbc423001), (0xc24b8b70, 0xd0f89791), (0xc76c51a3, 0x0654be30),
      (0xd192e819, 0xd6ef5218), (0xd6990624, 0x5565a910), (0xf40e3585, 0x5771202a), (0x106aa070, 0x32bbd1b8),
      (0x19a4c116, 0xb8d2d0c8), (0x1e376c08, 0x5141ab53), (0x2748774c, 0xdf8eeb99), (0x34b0bcb5, 0xe19b48a8),
      (0x391c0cb3, 0xc5c95a63), (0x4ed8aa4a, 0xe3418acb), (0x5b9cca4f, 0x7763e373), (0x682e6ff3, 0xd6b2b8a3),
      (0x748f82ee, 0x5defb2fc), (0x78a5636f, 0x43172f60), (0x84c87814, 0xa1f0ab72), (0x8cc70208, 0x1a6439ec),
      (0x90befffa, 0x23631e28), (0xa4506ceb, 0xde82bde9), (0xbef9a3f7, 0xb2c67915), (0xc67178f2, 0xe372532b),
      (0xca273ece, 0xea26619c), (0xd186b8c7, 0x21c0c207), (0xeada7dd6, 0xcde0eb1e), (0xf57d4f7f, 0xee6ed178),
      (0x06f067aa, 0x72176fba), (0x0a637dc5, 0xa2c898a6), (0x113f9804, 0xbef90dae), (0x1b710b35, 0x131c471b),
      (0x28db77f5, 0x23047d84), (0x32caab7b, 0x40c72493), (0x3c9ebe0a, 0x15c9bebc), (0x431d67c4, 0x9c100d4c),
      (0x4cc5d4be, 0xcb3e42b6), (0x597f299c, 0xfc657e2a), (0x5fcb6fab, 0x3ad6faec), (0x6c44198c, 0x4a475817)]"

definition sha512_ch :: "word64 \<Rightarrow> word64 \<Rightarrow> word64 \<Rightarrow> word64" where
  "sha512_ch x y z = w64_xor (w64_and x y) (w64_and (w64_not x) z)"

definition sha512_maj :: "word64 \<Rightarrow> word64 \<Rightarrow> word64 \<Rightarrow> word64" where
  "sha512_maj x y z = w64_xor (w64_xor (w64_and x y) (w64_and x z)) (w64_and y z)"

definition sha512_sigma :: "word64 \<Rightarrow> word64" where
  "sha512_sigma x = w64_xor (w64_xor (rotateRight x 28) (rotateRight x 34)) (rotateRight x 39)"

definition sha512_sigmaPrime :: "word64 \<Rightarrow> word64" where
  "sha512_sigmaPrime x = w64_xor (w64_xor (rotateRight x 14) (rotateRight x 18)) (rotateRight x 41)"

definition sha512_littleSigma :: "word64 \<Rightarrow> word64" where
  "sha512_littleSigma x = w64_xor (w64_xor (rotateRight x 1) (rotateRight x 8)) (shiftRight x 7)"

definition sha512_littleSigmaPrime :: "word64 \<Rightarrow> word64" where
  "sha512_littleSigmaPrime x = w64_xor (w64_xor (rotateRight x 19) (rotateRight x 61)) (shiftRight x 6)"

definition sha512_init :: "bool \<Rightarrow> word64 sha_h" where
  "sha512_init mode384 =
     (if \<not> mode384 then
        (mk_word64 0x6a09e667 0xf3bcc908, mk_word64 0xbb67ae85 0x84caa73b,
         mk_word64 0x3c6ef372 0xfe94f82b, mk_word64 0xa54ff53a 0x5f1d36f1,
         mk_word64 0x510e527f 0xade682d1, mk_word64 0x9b05688c 0x2b3e6c1f,
         mk_word64 0x1f83d9ab 0xfb41bd6b, mk_word64 0x5be0cd19 0x137e2179)
      else
        (mk_word64 0xcbbb9d5d 0xc1059ed8, mk_word64 0x629a292a 0x367cd507,
         mk_word64 0x9159015a 0x3070dd17, mk_word64 0x152fecd8 0xf70e5939,
         mk_word64 0x67332667 0xffc00b31, mk_word64 0x8eb44a87 0x68581511,
         mk_word64 0xdb0c2e0d 0x64f98fa7, mk_word64 0x47b5481d 0xbefa4fa4))"

definition sha512_padded :: "bytes \<Rightarrow> nat \<Rightarrow> nat \<Rightarrow> bytes" where
  "sha512_padded data offset len =
     (let paddedLength = (len + 17 + 127) div 128 * 128;
          padded = copy_loop data offset len (zeros paddedLength);
          padded = padded[len := 0x80];
          n = paddedLength - 16;
          i = (if len + 1 < n then n else len + 1) + 11;
          l = of_nat len :: u32
      in padded[i := low8 (shr l 29), i + 1 := low8 (shr l 21), i + 2 := low8 (shr l 13),
                i + 3 := low8 (shr l 5), i + 4 := low8 (shl l 3)])"

definition sha512_w :: "bytes \<Rightarrow> nat \<Rightarrow> word64 list" where
  "sha512_w padded i =
     foldl (\<lambda>w j. w[j := w64_add (w64_add (w64_add (sha512_littleSigmaPrime (w ! (j - 2))) (w ! (j - 7)))
                                   (sha512_littleSigma (w ! (j - 15)))) (w ! (j - 16))])
       (foldl (\<lambda>w j. w[j := mk_word64 (be_word padded (i + 8 * j)) (be_word padded (i + 8 * j + 4))])
          (replicate 80 (mk_word64 0 0)) [0..<16])
       [16..<80]"

definition sha512_step :: "word64 list \<Rightarrow> word64 sha_h \<Rightarrow> nat \<Rightarrow> word64 sha_h" where
  "sha512_step w s j =
     (let (a, b, c, d, e, f, g, h) = s;
          t1 = w64_add (w64_add (w64_add (w64_add h (sha512_sigmaPrime e)) (sha512_ch e f g))
                 (sha512_k ! j)) (w ! j);
          t2 = w64_add (sha512_sigma a) (sha512_maj a b c)
      in (w64_add t1 t2, a, b, c, w64_add d t1, e, f, g))"

definition sha512_block :: "bytes \<Rightarrow> word64 sha_h \<Rightarrow> nat \<Rightarrow> word64 sha_h" where
  "sha512_block padded s blk =
     (let (h0, h1, h2, h3, h4, h5, h6, h7) = s;
          (a, b, c, d, e, f, g, h) = foldl (sha512_step (sha512_w padded (128 * blk))) s [0..<80]
      in (w64_add h0 a, w64_add h1 b, w64_add h2 c, w64_add h3 d,
          w64_add h4 e, w64_add h5 f, w64_add h6 g, w64_add h7 h))"

definition calculateSHA512 :: "bytes \<Rightarrow> nat \<Rightarrow> nat \<Rightarrow> bool \<Rightarrow> bytes" where
  "calculateSHA512 data offset len mode384 =
     (let padded = sha512_padded data offset len;
          (h0, h1, h2, h3, h4, h5, h6, h7) =
            foldl (sha512_block padded) (sha512_init mode384) [0..<length padded div 128]
      in if \<not> mode384 then
           copyTo h0 @ copyTo h1 @ copyTo h2 @ copyTo h3 @ copyTo h4 @ copyTo h5 @ copyTo h6 @ copyTo h7
         else copyTo h0 @ copyTo h1 @ copyTo h2 @ copyTo h3 @ copyTo h4 @ copyTo h5)"

definition calculateSHA384 :: "bytes \<Rightarrow> nat \<Rightarrow> nat \<Rightarrow> bytes" where
  "calculateSHA384 data offset len = calculateSHA512 data offset len True"

section \<open>Padding\<close>

lemma copy_loop_spec:
  assumes "offset + len \<le> length data" and "len \<le> length p"
  shows "copy_loop data offset len p = take len (drop offset data) @ drop len p"
  using assms
proof (induction len)
  case 0
  then show ?case by (simp add: copy_loop_def)
next
  case (Suc n)
  have "copy_loop data offset (Suc n) p = (copy_loop data offset n p)[n := data ! (offset + n)]"
    using Suc.prems by (simp add: copy_loop_def)
  also have "copy_loop data offset n p = take n (drop offset data) @ p ! n # drop (Suc n) p"
    using Suc by (simp add: Cons_nth_drop_Suc)
  finally show ?case
    using Suc.prems by (simp add: list_update_append take_Suc_conv_app_nth)
qed

lemma bit_len32: "n < 2 ^ 32 \<Longrightarrow> bit (n :: nat) i \<Longrightarrow> i < 32"
  by (metis bit_take_bit_iff take_bit_nat_eq_self)

lemma low8_shr_of_nat:
  assumes "n < 2 ^ 32" and "k < 32"
  shows "low8 (shr (of_nat n) k) = of_nat (n div 2 ^ k)"
proof -
  have "(ucast (drop_bit k (of_nat n :: u32)) :: u8) = of_nat (drop_bit k n)"
    by (rule bit_word_eqI) (auto simp: bit_simps dest: bit_len32 [OF assms(1)])
  then show ?thesis using assms by (simp add: low8_ucast shr_def drop_bit_eq_div)
qed

lemma low8_shl3_of_nat: "low8 (shl (of_nat n) 3) = of_nat (8 * n)"
proof -
  have "(ucast (of_nat m :: u32) :: u8) = of_nat m" for m :: nat
    by (rule bit_word_eqI) (auto simp: bit_simps)
  from this [of "8 * n"] show ?thesis
    by (simp add: low8_ucast shl_def push_bit_eq_mult mult.commute)
qed

text \<open>The bits of the length, in bytes of decreasing or increasing weight.\<close>

definition len_byte :: "nat \<Rightarrow> nat \<Rightarrow> u8" where
  "len_byte len i = of_nat (8 * len div 256 ^ i)"

lemma len_bytes:
  assumes "len < 2 ^ 32"
  shows "low8 (shl (of_nat len) 3) = len_byte len 0" and "low8 (shr (of_nat len) 5) = len_byte len 1"
    and "low8 (shr (of_nat len) 13) = len_byte len 2" and "low8 (shr (of_nat len) 21) = len_byte len 3"
    and "low8 (shr (of_nat len) 29) = len_byte len 4" and "5 \<le> i \<Longrightarrow> len_byte len i = 0"
proof -
  have d: "8 * len div (8 * m) = len div m" for m by simp
  show "low8 (shl (of_nat len) 3) = len_byte len 0" by (simp add: len_byte_def low8_shl3_of_nat)
  show "low8 (shr (of_nat len) 5) = len_byte len 1" "low8 (shr (of_nat len) 13) = len_byte len 2"
    "low8 (shr (of_nat len) 21) = len_byte len 3" "low8 (shr (of_nat len) 29) = len_byte len 4"
    using d [of 32] d [of 8192] d [of 2097152] d [of 536870912] assms
    by (simp_all add: len_byte_def low8_shr_of_nat)
  assume "5 \<le> i"
  then have "(256 :: nat) ^ 5 \<le> 256 ^ i" by (intro power_increasing) simp_all
  moreover have "8 * len < 256 ^ 5" using assms by simp
  ultimately have "8 * len div 256 ^ i = 0" by simp
  then show "len_byte len i = 0" by (simp add: len_byte_def)
qed

lemma update5:
  assumes "length xs = i"
  shows "(xs @ y0 # y1 # y2 # y3 # y4 # ys)[i := v0, i + 1 := v1, i + 2 := v2, i + 3 := v3, i + 4 := v4]
    = xs @ v0 # v1 # v2 # v3 # v4 # ys"
  using assms by (simp add: list_update_append numeral_eq_Suc)

lemma zeros_5: "zeros (5 + n) = 0 # 0 # 0 # 0 # 0 # zeros n"
  by (simp add: zeros_def numeral_eq_Suc)

text \<open>The message, the marker and five bytes of length, stored in a zero array.\<close>

lemma padded_write:
  assumes "offset + len \<le> length data" and "len + 1 \<le> p" and "p + 5 \<le> n"
  shows "(copy_loop data offset len (zeros n))[len := 0x80, p := v0, p + 1 := v1, p + 2 := v2, p + 3 := v3, p + 4 := v4]
    = take len (drop offset data) @ 0x80 # zeros (p - len - 1) @ [v0, v1, v2, v3, v4] @ zeros (n - p - 5)"
proof -
  let ?m = "take len (drop offset data)"
  have "n - len = Suc ((p - len - 1) + (5 + (n - p - 5)))"
    using assms by simp
  then have "zeros (n - len) = (0 :: u8) # zeros ((p - len - 1) + (5 + (n - p - 5)))"
    by (simp only: zeros_Suc)
  also have "zeros ((p - len - 1) + (5 + (n - p - 5))) = zeros (p - len - 1) @ (zeros (5 + (n - p - 5)) :: bytes)"
    by (rule zeros_append [symmetric])
  also have "zeros (5 + (n - p - 5)) = (0 :: u8) # 0 # 0 # 0 # 0 # zeros (n - p - 5)"
    by (rule zeros_5)
  finally have "(copy_loop data offset len (zeros n))[len := 0x80]
      = (?m @ 0x80 # zeros (p - len - 1)) @ 0 # 0 # 0 # 0 # 0 # zeros (n - p - 5)"
    using assms by (simp add: copy_loop_spec list_update_append)
  moreover have "length (?m @ 0x80 # zeros (p - len - 1)) = p" using assms by simp
  ultimately show ?thesis by (simp only: update5) simp
qed

text \<open>
  The padded MD5 message is the message, a byte 0x80, fewer than 64 zero bytes and
  the length in bits as eight bytes, least significant first; it is a whole number of
  64-byte blocks.
\<close>

lemma md5_padding:
  assumes "offset + len \<le> length data" and "len < 2 ^ 32"
  shows "\<exists>k < 64. md5_padded data offset len =
      take len (drop offset data) @ 0x80 # zeros k @ map (len_byte len) [0, 1, 2, 3, 4, 5, 6, 7] \<and>
    64 dvd length (md5_padded data offset len)"
proof -
  define n where "n = (len + 72) div 64 * 64"
  have n: "len + 9 \<le> n" "n \<le> len + 72" "64 dvd n" by (auto simp: n_def)
  have i: "(if len + 1 < n - 8 then n - 8 else len + 1) = n - 8" using n by auto
  have "md5_padded data offset len =
      take len (drop offset data) @ 0x80 # zeros (n - 8 - len - 1) @
        [len_byte len 0, len_byte len 1, len_byte len 2, len_byte len 3, len_byte len 4] @ zeros (n - (n - 8) - 5)"
    unfolding md5_padded_def Let_def n_def [symmetric] i len_bytes [OF assms(2)]
    by (rule padded_write) (use assms n in auto)
  moreover have "zeros (n - (n - 8) - 5) = map (len_byte len) [5, 6, 7]"
    using n len_bytes(6) [OF assms(2)] by (simp add: zeros_def numeral_3_eq_3)
  ultimately have e: "md5_padded data offset len = take len (drop offset data) @ 0x80 # zeros (n - 9 - len) @
      map (len_byte len) [0, 1, 2, 3, 4, 5, 6, 7]"
    using n by simp
  then have "length (md5_padded data offset len) = n" using n assms by simp
  then have d: "64 dvd length (md5_padded data offset len)" using n(3) by (simp only:)
  have "n - 9 - len < 64" using n by simp
  with e d show ?thesis by blast
qed

text \<open>
  The padded SHA-256 message is the message, a byte 0x80, fewer than 64 zero bytes and
  the length in bits as eight bytes, most significant first; it is a whole number of
  64-byte blocks.
\<close>

lemma sha256_padding:
  assumes "offset + len \<le> length data" and "len < 2 ^ 32"
  shows "\<exists>k < 64. sha256_padded data offset len =
      take len (drop offset data) @ 0x80 # zeros k @ map (len_byte len) [7, 6, 5, 4, 3, 2, 1, 0] \<and>
    64 dvd length (sha256_padded data offset len)"
proof -
  define n where "n = (len + 9 + 63) div 64 * 64"
  have n: "len + 9 \<le> n" "n \<le> len + 72" "64 dvd n" by (auto simp: n_def)
  have i: "(if len + 1 < n - 8 then n - 8 else len + 1) + 3 = n - 5" using n by auto
  have "sha256_padded data offset len =
      take len (drop offset data) @ 0x80 # zeros (n - 5 - len - 1) @
        [len_byte len 4, len_byte len 3, len_byte len 2, len_byte len 1, len_byte len 0] @ zeros (n - (n - 5) - 5)"
    unfolding sha256_padded_def Let_def n_def [symmetric] i len_bytes [OF assms(2)]
    by (rule padded_write) (use assms n in auto)
  moreover have "zeros (n - 5 - len - 1) = zeros (n - 9 - len) @ map (len_byte len) [7, 6, 5]"
  proof -
    have "map (len_byte len) [7, 6, 5] = zeros 3"
      using len_bytes(6) [OF assms(2)] by (simp add: zeros_def numeral_3_eq_3)
    then show ?thesis using n by simp
  qed
  moreover have "zeros (n - (n - 5) - 5) = ([] :: bytes)" using n by (simp add: zeros_def)
  ultimately have e: "sha256_padded data offset len = take len (drop offset data) @ 0x80 # zeros (n - 9 - len) @
      map (len_byte len) [7, 6, 5, 4, 3, 2, 1, 0]"
    by simp
  then have "length (sha256_padded data offset len) = n" using n assms by simp
  then have d: "64 dvd length (sha256_padded data offset len)" using n(3) by (simp only:)
  have "n - 9 - len < 64" using n by simp
  with e d show ?thesis by blast
qed

text \<open>The lengths of the digests.\<close>

lemma length_calculateMD5 [simp]: "length (calculateMD5 data offset len) = 16"
  by (simp add: calculateMD5_def le_bytes_def Let_def split: prod.splits)

lemma length_calculateSHA256 [simp]: "length (calculateSHA256 data offset len) = 32"
  by (simp add: calculateSHA256_def be_bytes_def Let_def split: prod.splits)

lemma length_calculateSHA512 [simp]:
  "length (calculateSHA512 data offset len mode384) = (if mode384 then 48 else 64)"
  by (simp add: calculateSHA512_def copyTo_def Let_def split: prod.splits)

end
