(* ===== verification/Sha512_Refinement.thy ===== *)
theory Sha512_Refinement
  imports Digests
begin

text \<open>
  The two-halves arithmetic of \<open>Word64\<close> implements 64-bit words, and
  \<open>calculateSHA512\<close> implements SHA-512 written over \<open>64 word\<close> with the
  library's rotation and addition.
\<close>

section \<open>Word64 represents a 64-bit word\<close>

definition to64 :: "word64 \<Rightarrow> 64 word" where
  "to64 x = push_bit 32 (ucast (high x)) OR ucast (low x)"

lemma bit_u32_less: "bit (w :: u32) n \<Longrightarrow> n < 32"
  using bit_imp_le_length [of w n] by simp

lemma bit_to64: "bit (to64 x) n \<longleftrightarrow> (if n < 32 then bit (low x) n else n < 64 \<and> bit (high x) (n - 32))"
  by (auto simp: to64_def bit_simps dest: bit_u32_less)

named_theorems w64 \<open>the operations of Word64 as operations on 64-bit words\<close>

lemma to64_and [w64]: "to64 (w64_and x y) = to64 x AND to64 y"
  by (rule bit_word_eqI) (auto simp: bit_to64 bit_and_iff w64_and_def)

lemma to64_xor [w64]: "to64 (w64_xor x y) = to64 x XOR to64 y"
  by (rule bit_word_eqI) (auto simp: bit_to64 bit_xor_iff w64_xor_def)

lemma to64_not [w64]: "to64 (w64_not x) = NOT (to64 x)"
  by (rule bit_word_eqI) (auto simp: bit_to64 bit_not_iff w64_not_def)

lemma to64_shiftRight [w64]: "0 < p \<Longrightarrow> p < 32 \<Longrightarrow> to64 (shiftRight x p) = drop_bit p (to64 x)"
  by (rule bit_word_eqI)
    (auto simp: bit_to64 shiftRight_def shr_def shl_def bit_simps algebra_simps dest: bit_u32_less)

lemma to64_uint: "uint (to64 x) = uint (high x) * 2 ^ 32 + uint (low x)"
proof -
  have "uint (to64 x) = push_bit 32 (uint (high x)) OR uint (low x)"
    by (rule bit_eqI) (auto simp: bit_uint_iff bit_to64 bit_or_iff bit_push_bit_iff dest: bit_u32_less)
  also have "\<dots> = push_bit 32 (uint (high x)) + uint (low x)"
  proof (rule disjunctive_add [symmetric])
    show "\<not> bit (push_bit 32 (uint (high x))) n \<or> \<not> bit (uint (low x)) n" for n
      by (auto simp: bit_push_bit_iff bit_uint_iff dest: bit_u32_less)
  qed
  finally show ?thesis by (simp add: push_bit_eq_mult)
qed

lemma bit_shr: "p < 32 \<Longrightarrow> bit (shr w p) n \<longleftrightarrow> bit w (n + p)"
  by (simp add: shr_def bit_simps add.commute)

lemma bit_shl: "0 < p \<Longrightarrow> p < 32 \<Longrightarrow> bit (shl w (32 - p)) n \<longleftrightarrow> n < 32 \<and> 32 \<le> n + p \<and> bit w (n + p - 32)"
  by (auto simp: shl_def bit_simps algebra_simps)

lemma bit_rotr64: "n < 64 \<Longrightarrow> p < 64 \<Longrightarrow>
    bit (word_rotr p (w :: 64 word)) n \<longleftrightarrow> bit w (if n + p < 64 then n + p else n + p - 64)"
proof -
  assume "n < 64" and "p < 64"
  moreover from this have "(n + p) mod 64 = (if n + p < 64 then n + p else n + p - 64)"
    by (simp add: le_mod_geq)
  ultimately show ?thesis by (simp add: bit_word_rotr_iff)
qed

lemma to64_rotr_small:
  assumes "0 < p" and "p < 32"
  shows "to64 \<lparr>high = shr hi p OR shl lo (32 - p), low = shr lo p OR shl hi (32 - p)\<rparr>
    = word_rotr p (to64 \<lparr>high = hi, low = lo\<rparr>)"
proof (rule bit_word_eqI)
  fix n assume "n < LENGTH(64)"
  then have n: "n < 64" by simp
  consider "n + p < 32" | "n < 32" "32 \<le> n + p" | "32 \<le> n" "n + p < 64" | "32 \<le> n" "64 \<le> n + p"
    using n assms by linarith
  then show "bit (to64 \<lparr>high = shr hi p OR shl lo (32 - p), low = shr lo p OR shl hi (32 - p)\<rparr>) n
      = bit (word_rotr p (to64 \<lparr>high = hi, low = lo\<rparr>)) n"
    using assms n
    by cases (auto simp: bit_rotr64 bit_to64 bit_or_iff bit_shr bit_shl dest: bit_u32_less)
qed

lemma to64_swap: "to64 \<lparr>high = low x, low = high x\<rparr> = word_rotr 32 (to64 x)"
  by (rule bit_word_eqI) (auto simp: bit_rotr64 bit_to64)

lemma to64_rotateRight [w64]:
  assumes "p < 64" and "p mod 32 \<noteq> 0"
  shows "to64 (rotateRight x p) = word_rotr p (to64 x)"
proof (cases "p < 32")
  case True
  with assms to64_rotr_small [of p "high x" "low x"] show ?thesis
    by (cases x) (simp add: rotateRight_def)
next
  case False
  define q where "q = p - 32"
  have q: "p = q + 32" "0 < q" "q < 32" using False assms by (cases "p = 32"; simp add: q_def)+
  then have "to64 (rotateRight x p) = word_rotr q (to64 \<lparr>high = low x, low = high x\<rparr>)"
    using to64_rotr_small [of q "low x" "high x"] by (simp add: rotateRight_def)
  moreover have "word_rotr q (word_rotr 32 w) = word_rotr p w" for w :: "64 word"
    using q by (intro bit_word_eqI) (auto simp: bit_rotr64 add.assoc)
  ultimately show ?thesis by (simp add: to64_swap)
qed

lemma to64_add [w64]: "to64 (w64_add x y) = to64 x + to64 y"
proof -
  define L H where "L = uint (low x) + uint (low y)" and "H = uint (high x) + uint (high y)"
  define c :: int where "c = (if L > 0xffffffff then 1 else 0)"
  have l: "0 \<le> uint z \<and> uint z < 4294967296" for z :: u32
    using uint_lt2p [of z] by simp
  have add: "w64_add x y = \<lparr>high = word_of_int (H + c), low = word_of_int L\<rparr>"
    by (simp add: w64_add_def L_def H_def c_def Let_def)
  have u: "uint (word_of_int k :: u32) = k mod 4294967296" for k
    by (simp add: uint_word_of_int take_bit_eq_mod)
  have lo: "L mod 4294967296 = L - c * 4294967296"
  proof (cases "L > 0xffffffff")
    case True
    then have "0 \<le> L - 4294967296" "L - 4294967296 < 4294967296"
      using l [of "low x"] l [of "low y"] by (auto simp: L_def)
    then have "(L - 4294967296) mod 4294967296 = L - 4294967296" by (rule mod_pos_pos_trivial)
    with True show ?thesis by (simp add: c_def)
  next
    case False
    then show ?thesis using l [of "low x"] l [of "low y"] by (simp add: c_def L_def)
  qed
  define m where "m = (H + c) div 4294967296"
  have hi: "(H + c) mod 4294967296 = H + c - m * 4294967296"
    by (simp add: m_def minus_div_mult_eq_mod)
  have "uint (high (w64_add x y)) * 2 ^ 32 + uint (low (w64_add x y))
      = (H * 4294967296 + L) - m * 18446744073709551616"
    unfolding add by (simp only: word64.simps u lo hi) (simp add: algebra_simps)
  then have "word_of_int (uint (to64 (w64_add x y))) =
      (word_of_int (H * 4294967296 + L - m * 18446744073709551616) :: 64 word)"
    by (simp only: to64_uint)
  also have "\<dots> = word_of_int (H * 4294967296 + L) - word_of_int m * word_of_int 18446744073709551616"
    by (simp only: of_int_diff of_int_mult)
  also have "(word_of_int 18446744073709551616 :: 64 word) = 0" by simp
  also have "H * 4294967296 + L = uint (to64 x) + uint (to64 y)"
    by (simp add: to64_uint H_def L_def)
  finally show ?thesis by (simp only: word_of_int_uint of_int_add mult_zero_right diff_0_right)
qed

lemmas sha512_defs = sha512_ch_def sha512_maj_def sha512_sigma_def sha512_sigmaPrime_def
  sha512_littleSigma_def sha512_littleSigmaPrime_def

section \<open>SHA-512 over 64-bit words\<close>

definition ref_ch :: "64 word \<Rightarrow> 64 word \<Rightarrow> 64 word \<Rightarrow> 64 word" where
  "ref_ch x y z = (x AND y) XOR (NOT x AND z)"

definition ref_maj :: "64 word \<Rightarrow> 64 word \<Rightarrow> 64 word \<Rightarrow> 64 word" where
  "ref_maj x y z = (x AND y) XOR (x AND z) XOR (y AND z)"

definition ref_sigma :: "nat \<Rightarrow> nat \<Rightarrow> nat \<Rightarrow> 64 word \<Rightarrow> 64 word" where
  "ref_sigma p q r x = word_rotr p x XOR word_rotr q x XOR word_rotr r x"

definition ref_little :: "nat \<Rightarrow> nat \<Rightarrow> nat \<Rightarrow> 64 word \<Rightarrow> 64 word" where
  "ref_little p q r x = word_rotr p x XOR word_rotr q x XOR drop_bit r x"

definition ref_word :: "bytes \<Rightarrow> nat \<Rightarrow> 64 word" where
  "ref_word padded i = to64 (mk_word64 (be_word padded i) (be_word padded (i + 4)))"

definition ref_w :: "bytes \<Rightarrow> nat \<Rightarrow> 64 word list" where
  "ref_w padded i =
     foldl (\<lambda>w j. w[j := ref_little 19 61 6 (w ! (j - 2)) + w ! (j - 7)
                        + ref_little 1 8 7 (w ! (j - 15)) + w ! (j - 16)])
       (foldl (\<lambda>w j. w[j := ref_word padded (i + 8 * j)]) (replicate 80 0) [0..<16])
       [16..<80]"

definition ref_step :: "64 word list \<Rightarrow> 64 word sha_h \<Rightarrow> nat \<Rightarrow> 64 word sha_h" where
  "ref_step w s j =
     (let (a, b, c, d, e, f, g, h) = s;
          t1 = h + ref_sigma 14 18 41 e + ref_ch e f g + to64 (sha512_k ! j) + w ! j;
          t2 = ref_sigma 28 34 39 a + ref_maj a b c
      in (t1 + t2, a, b, c, d + t1, e, f, g))"

definition ref_block :: "bytes \<Rightarrow> 64 word sha_h \<Rightarrow> nat \<Rightarrow> 64 word sha_h" where
  "ref_block padded s blk =
     (let (h0, h1, h2, h3, h4, h5, h6, h7) = s;
          (a, b, c, d, e, f, g, h) = foldl (ref_step (ref_w padded (128 * blk))) s [0..<80]
      in (h0 + a, h1 + b, h2 + c, h3 + d, h4 + e, h5 + f, h6 + g, h7 + h))"

text \<open>The eight bytes of a 64-bit word, most significant first.\<close>

definition be_bytes64 :: "64 word \<Rightarrow> bytes" where
  "be_bytes64 x = map (\<lambda>k. ucast (drop_bit (8 * k) x)) [7, 6, 5, 4, 3, 2, 1, 0]"

definition abs_h :: "word64 sha_h \<Rightarrow> 64 word sha_h" where
  "abs_h s = (let (a, b, c, d, e, f, g, h) = s
     in (to64 a, to64 b, to64 c, to64 d, to64 e, to64 f, to64 g, to64 h))"

definition ref_sha512 :: "bytes \<Rightarrow> bool \<Rightarrow> bytes" where
  "ref_sha512 padded mode384 =
     (let (h0, h1, h2, h3, h4, h5, h6, h7) =
        foldl (ref_block padded) (abs_h (sha512_init mode384)) [0..<length padded div 128]
      in concat (map be_bytes64 (if mode384 then [h0, h1, h2, h3, h4, h5]
                                  else [h0, h1, h2, h3, h4, h5, h6, h7])))"

lemma to64_funs [w64]:
  "to64 (sha512_ch x y z) = ref_ch (to64 x) (to64 y) (to64 z)"
  "to64 (sha512_maj x y z) = ref_maj (to64 x) (to64 y) (to64 z)"
  "to64 (sha512_sigma x) = ref_sigma 28 34 39 (to64 x)"
  "to64 (sha512_sigmaPrime x) = ref_sigma 14 18 41 (to64 x)"
  "to64 (sha512_littleSigma x) = ref_little 1 8 7 (to64 x)"
  "to64 (sha512_littleSigmaPrime x) = ref_little 19 61 6 (to64 x)"
  by (simp_all add: sha512_defs w64 ref_ch_def ref_maj_def ref_sigma_def ref_little_def xor.assoc)

lemma sha_h_cases:
  obtains a b c d e f g h where "s = (a, b, c, d, e, f, g, h)"
proof (cases s rule: prod_cases7)
  case (fields a b c d e f gh)
  then show ?thesis using that by (cases gh) auto
qed

text \<open>A fold simulates another when every step does.\<close>

lemma foldl_simulates:
  assumes "\<And>s x. x \<in> set xs \<Longrightarrow> I s \<Longrightarrow> \<alpha> (f s x) = g (\<alpha> s) x \<and> I (f s x)" and "I s"
  shows "\<alpha> (foldl f s xs) = foldl g (\<alpha> s) xs"
  using assms
proof (induction xs arbitrary: s)
  case Nil
  then show ?case by simp
next
  case (Cons x xs)
  have "\<alpha> (f s x) = g (\<alpha> s) x" "I (f s x)" using Cons.prems by auto
  with Cons show ?case by simp
qed

lemma copyTo_be_bytes: "copyTo x = be_bytes64 (to64 x)"
proof -
  have lo: "ucast (drop_bit k (to64 x)) = (ucast (shr (low x) k) :: u8)" if "k \<le> 24" for k
    using that by (intro bit_word_eqI) (auto simp: bit_simps bit_to64 bit_shr add.commute)
  have hi: "ucast (drop_bit (32 + k) (to64 x)) = (ucast (shr (high x) k) :: u8)" if "k \<le> 24" for k
    using that by (intro bit_word_eqI) (auto simp: bit_simps bit_to64 bit_shr add.commute add.left_commute)
  have "ucast (shr y 0) = (ucast y :: u8)" for y by (simp add: shr_def)
  with lo [of 0] lo [of 8] lo [of 16] lo [of 24] hi [of 0] hi [of 8] hi [of 16] hi [of 24]
  show ?thesis by (simp add: copyTo_def be_bytes64_def low8_ucast)
qed

lemma sha512_w_refines: "map to64 (sha512_w padded i) = ref_w padded i"
proof -
  have z: "map to64 (replicate 80 (mk_word64 0 0)) = replicate 80 0"
    by (simp add: to64_def mk_word64_def)
  have inner: "map to64 (foldl (\<lambda>w j. w[j := mk_word64 (be_word padded (i + 8 * j)) (be_word padded (i + 8 * j + 4))])
      ws [0..<16]) = foldl (\<lambda>w j. w[j := ref_word padded (i + 8 * j)]) (map to64 ws) [0..<16]" for ws
    by (rule foldl_simulates [where I = "\<lambda>_. True"]) (simp_all add: map_update ref_word_def)
  show ?thesis
    unfolding sha512_w_def ref_w_def z [symmetric] inner [symmetric]
    by (rule foldl_simulates [where I = "\<lambda>w. length w = 80"])
      (auto simp: map_update w64 length_foldl_update)
qed

lemma sha512_step_refines:
  assumes "length w = 80" and "j < 80"
  shows "abs_h (sha512_step w s j) = ref_step (map to64 w) (abs_h s) j"
  using assms
  by (cases s rule: sha_h_cases) (simp add: sha512_step_def ref_step_def abs_h_def w64 Let_def)

lemma length_sha512_w: "length (sha512_w padded i) = 80"
  unfolding sha512_w_def by (simp only: length_foldl_update length_replicate)

lemma sha512_block_refines: "abs_h (sha512_block padded s blk) = ref_block padded (abs_h s) blk"
proof -
  have "foldl (ref_step (ref_w padded (128 * blk))) (abs_h s) [0..<80]
      = abs_h (foldl (sha512_step (sha512_w padded (128 * blk))) s [0..<80])"
    by (rule foldl_simulates [where I = "\<lambda>_. True", symmetric])
      (simp_all add: sha512_step_refines length_sha512_w sha512_w_refines)
  then show ?thesis
    by (cases s rule: sha_h_cases;
        cases "foldl (sha512_step (sha512_w padded (128 * blk))) s [0..<80]" rule: sha_h_cases)
      (simp add: sha512_block_def ref_block_def abs_h_def w64 Let_def)
qed

text \<open>
  C27: the two-halves implementation of SHA-512 and SHA-384 computes, on every message,
  the digest that SHA-512 written over 64-bit words computes.
\<close>

theorem calculateSHA512_refines:
  "calculateSHA512 data offset len mode384 = ref_sha512 (sha512_padded data offset len) mode384"
proof -
  let ?p = "sha512_padded data offset len"
  have "foldl (ref_block ?p) (abs_h (sha512_init mode384)) [0..<length ?p div 128]
      = abs_h (foldl (sha512_block ?p) (sha512_init mode384) [0..<length ?p div 128])"
    by (rule foldl_simulates [where I = "\<lambda>_. True", symmetric]) (simp_all add: sha512_block_refines)
  then show ?thesis
    by (cases "foldl (sha512_block ?p) (sha512_init mode384) [0..<length ?p div 128]" rule: sha_h_cases)
      (simp add: calculateSHA512_def ref_sha512_def abs_h_def Let_def copyTo_be_bytes)
qed

end
