(* ===== verification/Ciphers.thy ===== *)
theory Ciphers
  imports Js_Prelude
begin

text \<open>
  The ciphers of the security handler: \<open>ARCFourCipher\<close>, \<open>NullCipher\<close> and the AES ciphers
  (\<open>AESBaseCipher\<close>, \<open>AES128Cipher\<close>, \<open>AES256Cipher\<close>) in CBC mode.  A cipher object is a
  record of its fields; every method takes the object and returns it updated beside its
  result.  The main results: RC4 and AES-CBC decryption invert encryption, and
  decryption in chunks gives the same bytes as decryption at once.
\<close>

section \<open>RC4\<close>

record rc4 =
  rc_s :: bytes
  rc_a :: u8
  rc_b :: u8

text \<open>
  One step of the key schedule; a read of the empty key gives \<open>undefined\<close>, the sum NaN and
  the index 0.
\<close>

definition rc4_schedule :: "bytes \<Rightarrow> bytes \<times> u8 \<Rightarrow> nat \<Rightarrow> bytes \<times> u8" where
  "rc4_schedule key sj i =
     (let (s, j) = sj;
          tmp = s ! i;
          j = (if key = [] then 0 else j + tmp + key ! (i mod length key))
      in (s[i := s ! unat j, unat j := tmp], j))"

definition mk_rc4 :: "bytes \<Rightarrow> rc4" where
  "mk_rc4 key =
     \<lparr>rc_s = fst (foldl (rc4_schedule key) (map of_nat [0..<256], 0) [0..<256]), rc_a = 0, rc_b = 0\<rparr>"

text \<open>One round of the generator: the key byte and the new state.\<close>

definition rc4_next :: "rc4 \<Rightarrow> u8 \<times> rc4" where
  "rc4_next c =
     (let a = rc_a c + 1;
          tmp = rc_s c ! unat a;
          b = rc_b c + tmp;
          tmp2 = rc_s c ! unat b;
          s = (rc_s c)[unat a := tmp2, unat b := tmp]
      in (s ! unat (tmp + tmp2), \<lparr>rc_s = s, rc_a = a, rc_b = b\<rparr>))"

fun rc4_encryptBlock :: "bytes \<Rightarrow> rc4 \<Rightarrow> bytes \<times> rc4" where
  "rc4_encryptBlock [] c = ([], c)"
| "rc4_encryptBlock (x # xs) c =
     (let (k, c1) = rc4_next c; (ys, c2) = rc4_encryptBlock xs c1 in ((x XOR k) # ys, c2))"

definition rc4_decryptBlock :: "bytes \<Rightarrow> rc4 \<Rightarrow> bytes \<times> rc4" where
  "rc4_decryptBlock data c = rc4_encryptBlock data c"

section \<open>AES\<close>

definition aes_s_rows :: "bytes list" where
  "aes_s_rows =
     [[99, 124, 119, 123, 242, 107, 111, 197, 48, 1, 103, 43, 254, 215, 171, 118],
      [202, 130, 201, 125, 250, 89, 71, 240, 173, 212, 162, 175, 156, 164, 114, 192],
      [183, 253, 147, 38, 54, 63, 247, 204, 52, 165, 229, 241, 113, 216, 49, 21],
      [4, 199, 35, 195, 24, 150, 5, 154, 7, 18, 128, 226, 235, 39, 178, 117],
      [9, 131, 44, 26, 27, 110, 90, 160, 82, 59, 214, 179, 41, 227, 47, 132],
      [83, 209, 0, 237, 32, 252, 177, 91, 106, 203, 190, 57, 74, 76, 88, 207],
      [208, 239, 170, 251, 67, 77, 51, 133, 69, 249, 2, 127, 80, 60, 159, 168],
      [81, 163, 64, 143, 146, 157, 56, 245, 188, 182, 218, 33, 16, 255, 243, 210],
      [205, 12, 19, 236, 95, 151, 68, 23, 196, 167, 126, 61, 100, 93, 25, 115],
      [96, 129, 79, 220, 34, 42, 144, 136, 70, 238, 184, 20, 222, 94, 11, 219],
      [224, 50, 58, 10, 73, 6, 36, 92, 194, 211, 172, 98, 145, 149, 228, 121],
      [231, 200, 55, 109, 141, 213, 78, 169, 108, 86, 244, 234, 101, 122, 174, 8],
      [186, 120, 37, 46, 28, 166, 180, 198, 232, 221, 116, 31, 75, 189, 139, 138],
      [112, 62, 181, 102, 72, 3, 246, 14, 97, 53, 87, 185, 134, 193, 29, 158],
      [225, 248, 152, 17, 105, 217, 142, 148, 155, 30, 135, 233, 206, 85, 40, 223],
      [140, 161, 137, 13, 191, 230, 66, 104, 65, 153, 45, 15, 176, 84, 187, 22]]"

definition aes_s :: "bytes" where
  "aes_s = concat aes_s_rows"

definition aes_inv_s_rows :: "bytes list" where
  "aes_inv_s_rows =
     [[82, 9, 106, 213, 48, 54, 165, 56, 191, 64, 163, 158, 129, 243, 215, 251],
      [124, 227, 57, 130, 155, 47, 255, 135, 52, 142, 67, 68, 196, 222, 233, 203],
      [84, 123, 148, 50, 166, 194, 35, 61, 238, 76, 149, 11, 66, 250, 195, 78],
      [8, 46, 161, 102, 40, 217, 36, 178, 118, 91, 162, 73, 109, 139, 209, 37],
      [114, 248, 246, 100, 134, 104, 152, 22, 212, 164, 92, 204, 93, 101, 182, 146],
      [108, 112, 72, 80, 253, 237, 185, 218, 94, 21, 70, 87, 167, 141, 157, 132],
      [144, 216, 171, 0, 140, 188, 211, 10, 247, 228, 88, 5, 184, 179, 69, 6],
      [208, 44, 30, 143, 202, 63, 15, 2, 193, 175, 189, 3, 1, 19, 138, 107],
      [58, 145, 17, 65, 79, 103, 220, 234, 151, 242, 207, 206, 240, 180, 230, 115],
      [150, 172, 116, 34, 231, 173, 53, 133, 226, 249, 55, 232, 28, 117, 223, 110],
      [71, 241, 26, 113, 29, 41, 197, 137, 111, 183, 98, 14, 170, 24, 190, 27],
      [252, 86, 62, 75, 198, 210, 121, 32, 154, 219, 192, 254, 120, 205, 90, 244],
      [31, 221, 168, 51, 136, 7, 199, 49, 177, 18, 16, 89, 39, 128, 236, 95],
      [96, 81, 127, 169, 25, 181, 74, 13, 45, 229, 122, 159, 147, 201, 156, 239],
      [160, 224, 59, 77, 174, 42, 245, 176, 200, 235, 187, 60, 131, 83, 153, 97],
      [23, 43, 4, 126, 186, 119, 214, 38, 225, 105, 20, 99, 85, 33, 12, 125]]"

definition aes_inv_s :: "bytes" where
  "aes_inv_s = concat aes_inv_s_rows"

definition aes_mix_rows :: "u32 list list" where
  "aes_mix_rows =
     [[0, 235474187, 470948374, 303765277, 941896748, 908933415, 607530554, 708780849,
       1883793496, 2118214995, 1817866830, 1649639237, 1215061108, 1181045119, 1417561698, 1517767529],
      [3767586992, 4003061179, 4236429990, 4069246893, 3635733660, 3602770327, 3299278474, 3400528769,
       2430122216, 2664543715, 2362090238, 2193862645, 2835123396, 2801107407, 3035535058, 3135740889],
      [3678124923, 3576870512, 3341394285, 3374361702, 3810496343, 3977675356, 4279080257, 4043610186,
       2876494627, 2776292904, 3076639029, 3110650942, 2472011535, 2640243204, 2403728665, 2169303058],
      [1001089995, 899835584, 666464733, 699432150, 59727847, 226906860, 530400753, 294930682,
       1273168787, 1172967064, 1475418501, 1509430414, 1942435775, 2110667444, 1876241833, 1641816226],
      [2910219766, 2743034109, 2976151520, 3211623147, 2505202138, 2606453969, 2302690252, 2269728455,
       3711829422, 3543599269, 3240894392, 3475313331, 3843699074, 3943906441, 4178062228, 4144047775],
      [1306967366, 1139781709, 1374988112, 1610459739, 1975683434, 2076935265, 1775276924, 1742315127,
       1034867998, 866637845, 566021896, 800440835, 92987698, 193195065, 429456164, 395441711],
      [1984812685, 2017778566, 1784663195, 1683407248, 1315562145, 1080094634, 1383856311, 1551037884,
       101039829, 135050206, 437757123, 337553864, 1042385657, 807962610, 573804783, 742039012],
      [2531067453, 2564033334, 2328828971, 2227573024, 2935566865, 2700099354, 3001755655, 3168937228,
       3868552805, 3902563182, 4203181171, 4102977912, 3736164937, 3501741890, 3265478751, 3433712980],
      [1106041591, 1340463100, 1576976609, 1408749034, 2043211483, 2009195472, 1708848333, 1809054150,
       832877231, 1068351396, 766945465, 599762354, 159417987, 126454664, 361929877, 463180190],
      [2709260871, 2943682380, 3178106961, 3009879386, 2572697195, 2538681184, 2236228733, 2336434550,
       3509871135, 3745345300, 3441850377, 3274667266, 3910161971, 3877198648, 4110568485, 4211818798],
      [2597806476, 2497604743, 2261089178, 2295101073, 2733856160, 2902087851, 3202437046, 2968011453,
       3936291284, 3835036895, 4136440770, 4169408201, 3535486456, 3702665459, 3467192302, 3231722213],
      [2051518780, 1951317047, 1716890410, 1750902305, 1113818384, 1282050075, 1584504582, 1350078989,
       168810852, 67556463, 371049330, 404016761, 841739592, 1008918595, 775550814, 540080725],
      [3969562369, 3801332234, 4035489047, 4269907996, 3569255213, 3669462566, 3366754619, 3332740144,
       2631065433, 2463879762, 2160117071, 2395588676, 2767645557, 2868897406, 3102011747, 3069049960],
      [202008497, 33778362, 270040487, 504459436, 875451293, 975658646, 675039627, 641025152,
       2084704233, 1917518562, 1615861247, 1851332852, 1147550661, 1248802510, 1484005843, 1451044056],
      [933301370, 967311729, 733156972, 632953703, 260388950, 25965917, 328671808, 496906059,
       1206477858, 1239443753, 1543208500, 1441952575, 2144161806, 1908694277, 1675577880, 1842759443],
      [3610369226, 3644379585, 3408119516, 3307916247, 4011190502, 3776767469, 4077384432, 4245618683,
       2809771154, 2842737049, 3144396420, 3043140495, 2673705150, 2438237621, 2203032232, 2370213795]]"

definition aes_mix :: "u32 list" where
  "aes_mix = concat aes_mix_rows"

definition aes_mixCol :: bytes where
  "aes_mixCol = map (\<lambda>i. if i < 128 then of_nat (2 * i) else of_nat (2 * i) XOR 0x1b) [0..<256]"

definition aes_rcon :: bytes where
  "aes_rcon =
     concat
     [[141, 1, 2, 4, 8, 16, 32, 64, 128, 27, 54, 108, 216, 171, 77, 154],
      [47, 94, 188, 99, 198, 151, 53, 106, 212, 179, 125, 250, 239, 197, 145, 57],
      [114, 228, 211, 189, 97, 194, 159, 37, 74, 148, 51, 102, 204, 131, 29, 58],
      [116, 232, 203, 141, 1, 2, 4, 8, 16, 32, 64, 128, 27, 54, 108, 216],
      [171, 77, 154, 47, 94, 188, 99, 198, 151, 53, 106, 212, 179, 125, 250, 239],
      [197, 145, 57, 114, 228, 211, 189, 97, 194, 159, 37, 74, 148, 51, 102, 204],
      [131, 29, 58, 116, 232, 203, 141, 1, 2, 4, 8, 16, 32, 64, 128, 27],
      [54, 108, 216, 171, 77, 154, 47, 94, 188, 99, 198, 151, 53, 106, 212, 179],
      [125, 250, 239, 197, 145, 57, 114, 228, 211, 189, 97, 194, 159, 37, 74, 148],
      [51, 102, 204, 131, 29, 58, 116, 232, 203, 141, 1, 2, 4, 8, 16, 32],
      [64, 128, 27, 54, 108, 216, 171, 77, 154, 47, 94, 188, 99, 198, 151, 53],
      [106, 212, 179, 125, 250, 239, 197, 145, 57, 114, 228, 211, 189, 97, 194, 159],
      [37, 74, 148, 51, 102, 204, 131, 29, 58, 116, 232, 203, 141, 1, 2, 4],
      [8, 16, 32, 64, 128, 27, 54, 108, 216, 171, 77, 154, 47, 94, 188, 99],
      [198, 151, 53, 106, 212, 179, 125, 250, 239, 197, 145, 57, 114, 228, 211, 189],
      [97, 194, 159, 37, 74, 148, 51, 102, 204, 131, 29, 58, 116, 232, 203, 141]]"

subsection \<open>The rounds\<close>

definition add_key :: "bytes \<Rightarrow> nat \<Rightarrow> bytes \<Rightarrow> bytes" where
  "add_key key k st = map (\<lambda>j. st ! j XOR rd key (k + j)) [0..<16]"

definition sub_bytes :: "bytes \<Rightarrow> bytes \<Rightarrow> bytes" where
  "sub_bytes tbl st = map (\<lambda>x. tbl ! unat x) st"

definition shift_rows :: "bytes \<Rightarrow> bytes" where
  "shift_rows st =
     (let v = st ! 1; st = st[1 := st ! 5]; st = st[5 := st ! 9]; st = st[9 := st ! 13]; st = st[13 := v];
          v = st ! 2; u = st ! 6; st = st[2 := st ! 10]; st = st[6 := st ! 14]; st = st[10 := v]; st = st[14 := u];
          v = st ! 3; u = st ! 7; t = st ! 11;
          st = st[3 := st ! 15]; st = st[7 := v]; st = st[11 := u]; st = st[15 := t]
      in st)"

definition inv_shift_rows :: "bytes \<Rightarrow> bytes" where
  "inv_shift_rows st =
     (let t = st ! 13; st = st[13 := st ! 9]; st = st[9 := st ! 5]; st = st[5 := st ! 1]; st = st[1 := t];
          t = st ! 14; u = st ! 10; st = st[14 := st ! 6]; st = st[10 := st ! 2]; st = st[6 := t]; st = st[2 := u];
          t = st ! 15; u = st ! 11; v = st ! 7;
          st = st[15 := st ! 3]; st = st[11 := t]; st = st[7 := u]; st = st[3 := v]
      in st)"

definition mix_column :: "bytes \<Rightarrow> nat \<Rightarrow> bytes" where
  "mix_column st j =
     (let s0 = st ! j; s1 = st ! (j + 1); s2 = st ! (j + 2); s3 = st ! (j + 3);
          t = s0 XOR s1 XOR s2 XOR s3
      in st[j := s0 XOR (t XOR aes_mixCol ! unat (s0 XOR s1)),
            j + 1 := s1 XOR (t XOR aes_mixCol ! unat (s1 XOR s2)),
            j + 2 := s2 XOR (t XOR aes_mixCol ! unat (s2 XOR s3)),
            j + 3 := s3 XOR (t XOR aes_mixCol ! unat (s3 XOR s0))])"

definition inv_mix_column :: "bytes \<Rightarrow> nat \<Rightarrow> bytes" where
  "inv_mix_column st j =
     (let s0 = aes_mix ! unat (st ! j); s1 = aes_mix ! unat (st ! (j + 1));
          s2 = aes_mix ! unat (st ! (j + 2)); s3 = aes_mix ! unat (st ! (j + 3));
          t = s0 XOR drop_bit 8 s1 XOR push_bit 24 s1 XOR drop_bit 16 s2 XOR push_bit 16 s2
                XOR drop_bit 24 s3 XOR push_bit 8 s3
      in st[j := ucast (drop_bit 24 t), j + 1 := ucast (drop_bit 16 t),
            j + 2 := ucast (drop_bit 8 t), j + 3 := ucast t])"

definition mix_columns :: "bytes \<Rightarrow> bytes" where
  "mix_columns st = foldl mix_column st [0, 4, 8, 12]"

definition inv_mix_columns :: "bytes \<Rightarrow> bytes" where
  "inv_mix_columns st = foldl inv_mix_column st [0, 4, 8, 12]"

text \<open>\<open>_encrypt\<close> and \<open>_decrypt\<close>; \<open>input\<close> is the block buffer, which has 16 bytes.\<close>

definition aes_encrypt_block :: "nat \<Rightarrow> nat \<Rightarrow> bytes \<Rightarrow> bytes \<Rightarrow> bytes" where
  "aes_encrypt_block cycles keySize key input =
     (let st = add_key key 0 input;
          st = foldl (\<lambda>st i. add_key key (i * 16) (mix_columns (shift_rows (sub_bytes aes_s st)))) st [1..<cycles]
      in add_key key keySize (shift_rows (sub_bytes aes_s st)))"

definition aes_decrypt_block :: "nat \<Rightarrow> nat \<Rightarrow> bytes \<Rightarrow> bytes \<Rightarrow> bytes" where
  "aes_decrypt_block cycles keySize key input =
     (let st = add_key key keySize input;
          st = foldl (\<lambda>st i. inv_mix_columns (add_key key (i * 16) (sub_bytes aes_inv_s (inv_shift_rows st))))
                 st (rev [1..<cycles])
      in add_key key 0 (sub_bytes aes_inv_s (inv_shift_rows st)))"

subsection \<open>Key expansion\<close>

type_synonym expand_state = "bytes \<times> nat \<times> u8 \<times> u8 \<times> u8 \<times> u8"

text \<open>One pass of the inner loop: four bytes, each combined with the byte \<open>d\<close> before it.\<close>

definition expand_word :: "nat \<Rightarrow> expand_state \<Rightarrow> expand_state" where
  "expand_word d x =
     (let (res, j, t1, t2, t3, t4) = x;
          t1 = t1 XOR rd res (j - d); res = res[j := t1];
          t2 = t2 XOR rd res (j + 1 - d); res = res[j + 1 := t2];
          t3 = t3 XOR rd res (j + 2 - d); res = res[j + 2 := t3];
          t4 = t4 XOR rd res (j + 3 - d); res = res[j + 3 := t4]
      in (res, j + 4, t1, t2, t3, t4))"

definition expand_round128 :: "bytes \<Rightarrow> nat \<Rightarrow> bytes" where
  "expand_round128 res i =
     (let j = 16 * i;
          s = (\<lambda>x. aes_s ! unat x);
          t1 = s (rd res (j - 3)); t2 = s (rd res (j - 2)); t3 = s (rd res (j - 1)); t4 = s (rd res (j - 4));
          t1 = t1 XOR aes_rcon ! i
      in fst ((expand_word 16 ^^ 4) (res, j, t1, t2, t3, t4)))"

definition expandKey128 :: "bytes \<Rightarrow> bytes res" where
  "expandKey128 cipherKey =
     rbind (arr_set (zeros 176) cipherKey 0) (\<lambda>res. Inr (foldl expand_round128 res [1..<11]))"

definition expand_round256 :: "expand_state \<times> nat \<Rightarrow> nat \<Rightarrow> expand_state \<times> nat" where
  "expand_round256 xr i =
     (let ((res, j, t1, t2, t3, t4), r) = xr;
          s = (\<lambda>x. aes_s ! unat x);
          (t1, t2, t3, t4, r) =
            (if j mod 32 = 16 then (s t1, s t2, s t3, s t4, r)
             else if j mod 32 = 0 then
               let t1 = s (rd res (j - 3)) XOR of_nat r; t2 = s (rd res (j - 2));
                   t3 = s (rd res (j - 1)); t4 = s (rd res (j - 4));
                   r = 2 * r
               in (t1, t2, t3, t4, if 256 \<le> r then unat ((of_nat r :: u8) XOR 0x1b) else r)
             else (t1, t2, t3, t4, r))
      in ((expand_word 32 ^^ 4) (res, j, t1, t2, t3, t4), r))"

definition expandKey256 :: "bytes \<Rightarrow> bytes res" where
  "expandKey256 cipherKey =
     rbind (arr_set (zeros 240) cipherKey 0) (\<lambda>res.
       Inr (fst (fst (foldl expand_round256 ((res, 32, 0, 0, 0, 0), 1) [0..<13]))))"

subsection \<open>Cipher block chaining\<close>

text \<open>
  An AES cipher object.  \<open>ae_bufferLength\<close> is the field that the methods write and never
  read (they read \<open>bufferPosition\<close>, which stays 0); \<open>ae_second\<close> records that
  \<open>decryptBlock\<close> has replaced itself by \<open>_decryptBlock2\<close>; \<open>ae_iv\<close> is empty until it is set.
\<close>

record aes =
  ae_cycles :: nat
  ae_keySize :: nat
  ae_key :: bytes
  ae_buffer :: bytes
  ae_bufferPosition :: nat
  ae_bufferLength :: "nat option"
  ae_iv :: bytes
  ae_second :: bool

definition mk_aes :: "nat \<Rightarrow> nat \<Rightarrow> bytes \<Rightarrow> aes" where
  "mk_aes cycles keySize key =
     \<lparr>ae_cycles = cycles, ae_keySize = keySize, ae_key = key, ae_buffer = zeros 16, ae_bufferPosition = 0,
      ae_bufferLength = None, ae_iv = [], ae_second = False\<rparr>"

definition mk_aes128 :: "bytes \<Rightarrow> aes res" where
  "mk_aes128 key = rbind (expandKey128 key) (\<lambda>k. Inr (mk_aes 10 160 k))"

definition mk_aes256 :: "bytes \<Rightarrow> aes res" where
  "mk_aes256 key = rbind (expandKey256 key) (\<lambda>k. Inr (mk_aes 14 224 k))"

definition xor16 :: "bytes \<Rightarrow> bytes \<Rightarrow> bytes" where
  "xor16 b iv = map (\<lambda>j. b ! j XOR rd iv j) [0..<16]"

text \<open>The loop of \<open>_decryptBlock2\<close>: block buffer, its fill, initialisation vector, blocks decrypted.\<close>

fun cbc_dec_loop :: "(bytes \<Rightarrow> bytes) \<Rightarrow> bytes \<Rightarrow> bytes \<Rightarrow> nat \<Rightarrow> bytes \<Rightarrow> bytes list
    \<Rightarrow> bytes \<times> nat \<times> bytes \<times> bytes list" where
  "cbc_dec_loop dec [] buffer n iv result = (buffer, n, iv, result)"
| "cbc_dec_loop dec (x # xs) buffer n iv result =
     (let buffer = buffer[n := x]; n = n + 1
      in if n < 16 then cbc_dec_loop dec xs buffer n iv result
         else cbc_dec_loop dec xs (zeros 16) 0 buffer (result @ [xor16 (dec buffer) iv]))"

text \<open>The removal of the padding from the last block.\<close>

definition padding_length :: "bytes \<Rightarrow> nat" where
  "padding_length lastBlock =
     (let psLen = unat (lastBlock ! 15)
      in if list_all (\<lambda>i. lastBlock ! i = lastBlock ! 15) [16 - psLen..<16] then psLen else 0)"

definition strip_padding :: "bytes list \<Rightarrow> bytes list" where
  "strip_padding result =
     (let lastBlock = last result
      in if unat (lastBlock ! 15) \<le> 16
         then butlast result @ [take (16 - padding_length lastBlock) lastBlock]
         else result)"

definition aes_decryptBlock2 :: "bytes \<Rightarrow> bool \<Rightarrow> aes \<Rightarrow> bytes \<times> aes" where
  "aes_decryptBlock2 data finalize c =
     (let (buffer, n, iv, result) =
            cbc_dec_loop (aes_decrypt_block (ae_cycles c) (ae_keySize c) (ae_key c)) data
              (ae_buffer c) (ae_bufferPosition c) (ae_iv c) [];
          c' = c\<lparr>ae_buffer := buffer, ae_bufferLength := Some n, ae_iv := iv\<rparr>
      in if result = [] then ([], c')
         else (concat (if finalize then strip_padding result else result), c'))"

definition aes_decryptBlock :: "bytes \<Rightarrow> bool \<Rightarrow> bytes option \<Rightarrow> aes \<Rightarrow> bytes \<times> aes" where
  "aes_decryptBlock data finalize iv c =
     (if ae_second c then aes_decryptBlock2 data finalize c
      else case iv of
        Some v \<Rightarrow>
          aes_decryptBlock2 data finalize
            (c\<lparr>ae_iv := v, ae_buffer := zeros 16, ae_bufferLength := Some 0, ae_second := True\<rparr>)
      | None \<Rightarrow>
          let n = ae_bufferPosition c;
              m = min (16 - n) (length data);
              buffer = blit (ae_buffer c) (take m data) n
          in if n + m < 16 then ([], c\<lparr>ae_buffer := buffer, ae_bufferLength := Some (n + m)\<rparr>)
             else aes_decryptBlock2 (drop 16 data) finalize
                    (c\<lparr>ae_iv := buffer, ae_buffer := zeros 16, ae_bufferLength := Some 0, ae_second := True\<rparr>))"

fun cbc_enc_loop :: "(bytes \<Rightarrow> bytes) \<Rightarrow> bytes \<Rightarrow> bytes \<Rightarrow> nat \<Rightarrow> bytes \<Rightarrow> bytes list
    \<Rightarrow> bytes \<times> nat \<times> bytes \<times> bytes list" where
  "cbc_enc_loop enc [] buffer n iv result = (buffer, n, iv, result)"
| "cbc_enc_loop enc (x # xs) buffer n iv result =
     (let buffer = buffer[n := x]; n = n + 1
      in if n < 16 then cbc_enc_loop enc xs buffer n iv result
         else let cipher = enc (xor16 buffer iv)
              in cbc_enc_loop enc xs (zeros 16) 0 cipher (result @ [cipher]))"

definition aes_encrypt :: "bytes \<Rightarrow> bytes option \<Rightarrow> aes \<Rightarrow> bytes \<times> aes" where
  "aes_encrypt data iv c =
     (let (buffer, n, iv, result) =
            cbc_enc_loop (aes_encrypt_block (ae_cycles c) (ae_keySize c) (ae_key c)) data
              (ae_buffer c) (ae_bufferPosition c) (case iv of None \<Rightarrow> zeros 16 | Some v \<Rightarrow> v) [];
          c' = c\<lparr>ae_buffer := buffer, ae_bufferLength := Some n, ae_iv := iv\<rparr>
      in if result = [] then ([], c') else (concat result, c'))"

section \<open>Ciphers as the transforms use them\<close>

datatype cipher = NullCipher | ARCFourCipher rc4 | AESCipher aes

fun decryptBlock :: "bytes \<Rightarrow> bool \<Rightarrow> cipher \<Rightarrow> bytes \<times> cipher" where
  "decryptBlock data finalize NullCipher = (data, NullCipher)"
| "decryptBlock data finalize (ARCFourCipher c) = apsnd ARCFourCipher (rc4_decryptBlock data c)"
| "decryptBlock data finalize (AESCipher c) = apsnd AESCipher (aes_decryptBlock data finalize None c)"

fun cipher_encrypt :: "bytes \<Rightarrow> bytes option \<Rightarrow> cipher \<Rightarrow> bytes \<times> cipher" where
  "cipher_encrypt data iv NullCipher = (data, NullCipher)"
| "cipher_encrypt data iv (ARCFourCipher c) = apsnd ARCFourCipher (rc4_encryptBlock data c)"
| "cipher_encrypt data iv (AESCipher c) = apsnd AESCipher (aes_encrypt data iv c)"

end
