(* ===== verification/Aes_Inverse.thy ===== *)
theory Aes_Inverse
  imports Ciphers
begin

text \<open>
  AES block decryption inverts block encryption, for every key schedule.  The tables of
  the source are checked entry by entry by the kernel: the inverse S-box inverts the
  S-box, and the table \<open>_mix\<close> holds the multiples by 14, 9, 13 and 11 in the field of
  256 elements, computed from doubling (\<open>xtime\<close>).  Doubling is linear, so the inverse
  of the column mixing follows by calculation with exclusive or.
\<close>

section \<open>The tables\<close>

lemma nth_concat16:
  "list_all (\<lambda>r. length r = 16) rs \<Longrightarrow> i < 16 * length rs \<Longrightarrow> concat rs ! i = rs ! (i div 16) ! (i mod 16)"
proof (induction rs arbitrary: i)
  case (Cons r rs)
  show ?case
  proof (cases "i < 16")
    case False
    then obtain k where k: "i = k + 16" by (metis add.commute le_Suc_ex not_less)
    with Cons show ?thesis by (simp add: nth_append)
  qed (use Cons in \<open>simp add: nth_append\<close>)
qed simp

lemma rows_shape:
  "list_all (\<lambda>r. length r = 16) aes_inv_s_rows" "length aes_inv_s_rows = 16"
  "list_all (\<lambda>r. length r = 16) aes_s_rows" "length aes_s_rows = 16"
  "list_all (\<lambda>r. length r = 16) aes_mix_rows" "length aes_mix_rows = 16"
  by (simp_all add: aes_inv_s_rows_def aes_s_rows_def aes_mix_rows_def)

lemma table_nth:
  "i < 256 \<Longrightarrow> aes_inv_s ! i = aes_inv_s_rows ! (i div 16) ! (i mod 16)"
  "i < 256 \<Longrightarrow> aes_s ! i = aes_s_rows ! (i div 16) ! (i mod 16)"
  "i < 256 \<Longrightarrow> aes_mix ! i = aes_mix_rows ! (i div 16) ! (i mod 16)"
  unfolding aes_inv_s_def aes_s_def aes_mix_def
  by (rule nth_concat16; simp add: rows_shape)+

text \<open>A table whose rows are computed by a function is that function.\<close>

lemma rows_eq_nth:
  assumes "map (map f) rs = map (\<lambda>i. map (\<lambda>j. g (of_nat (16 * i + j))) [0..<16]) [0..<16]"
    and "list_all (\<lambda>r. length r = 16) rs" and "length rs = 16"
  shows "f (rs ! (unat (x :: u8) div 16) ! (unat x mod 16)) = g x"
proof -
  let ?i = "unat x div 16" and ?j = "unat x mod 16"
  have i: "?i < 16" using u8_less [of x] by simp
  have j: "length (rs ! ?i) = 16" using assms(2,3) i by (simp add: list_all_length)
  have "map (map f) rs ! ?i ! ?j = f (rs ! ?i ! ?j)" using i j assms(3) by simp
  moreover have "map (\<lambda>i. map (\<lambda>j. g (of_nat (16 * i + j))) [0..<16]) [0..<16] ! ?i ! ?j = g (of_nat (16 * ?i + ?j))"
    using i by (simp only: nth_map length_upt nth_upt) (simp only: nth_map_upt nth_upt add_0)
  moreover have "of_nat (16 * ?i + ?j) = x"
    by (simp only: mult_div_mod_eq) simp
  ultimately show ?thesis using assms(1) by simp
qed

lemma inv_s_rows:
  "map (map (\<lambda>x. aes_inv_s ! unat x)) aes_s_rows = map (\<lambda>i. map (\<lambda>j. id (of_nat (16 * i + j))) [0..<16]) [0..<16]"
  unfolding aes_s_rows_def by (simp add: table_nth(1) upt_rec) (simp add: aes_inv_s_rows_def)

lemma inv_s_s: "aes_inv_s ! unat (aes_s ! unat x) = x"
  using rows_eq_nth [OF inv_s_rows rows_shape(3,4), of x] u8_less [of x] by (simp add: table_nth(2))

section \<open>Doubling\<close>

definition xtime :: "u8 \<Rightarrow> u8" where
  "xtime x = push_bit 1 x XOR (if bit x 7 then 0x1b else 0)"

lemma xtime_xor: "xtime (a XOR b) = xtime a XOR xtime b"
  unfolding xtime_def by (rule bit_word_eqI) (auto simp: bit_simps)

lemma mixCol_xtime: "aes_mixCol ! unat x = xtime x"
proof -
  have "bit x 7 \<longleftrightarrow> bit (unat x) 7" by (simp add: bit_unsigned_iff)
  also have "\<dots> \<longleftrightarrow> odd (unat x div 128)" by (simp add: bit_iff_odd)
  also have "\<dots> \<longleftrightarrow> 128 \<le> unat x"
  proof (cases "unat x < 128")
    case False
    then have "unat x div 128 = 1" using u8_less [of x] by (simp add: div_nat_eqI)
    with False show ?thesis by simp
  qed simp
  finally have b: "bit x 7 \<longleftrightarrow> 128 \<le> unat x" .
  have "aes_mixCol ! unat x = (if unat x < 128 then of_nat (2 * unat x) else of_nat (2 * unat x) XOR 0x1b)"
    using u8_less [of x] by (simp add: aes_mixCol_def del: upt_conv_Cons upt_Suc)
  then show ?thesis using b by (simp add: xtime_def push_bit_eq_mult mult.commute)
qed

text \<open>The four multiples in an entry of \<open>_mix\<close>, most significant byte first.\<close>

definition mul9 :: "u8 \<Rightarrow> u8" where
  "mul9 x = xtime (xtime (xtime x)) XOR x"

definition mul11 :: "u8 \<Rightarrow> u8" where
  "mul11 x = xtime (xtime (xtime x)) XOR xtime x XOR x"

definition mul13 :: "u8 \<Rightarrow> u8" where
  "mul13 x = xtime (xtime (xtime x)) XOR xtime (xtime x) XOR x"

definition mul14 :: "u8 \<Rightarrow> u8" where
  "mul14 x = xtime (xtime (xtime x)) XOR xtime (xtime x) XOR xtime x"

definition pack :: "u8 \<Rightarrow> u8 \<Rightarrow> u8 \<Rightarrow> u8 \<Rightarrow> u32" where
  "pack a b c d = push_bit 24 (ucast a) OR push_bit 16 (ucast b) OR push_bit 8 (ucast c) OR ucast d"

definition mix_entry :: "u8 \<Rightarrow> u32" where
  "mix_entry x =
     (let a = xtime x; b = xtime a; c = xtime b; cx = c XOR x
      in pack (c XOR b XOR a) cx (cx XOR b) (cx XOR a))"

lemma mix_rows:
  "map (map id) aes_mix_rows = map (\<lambda>i. map (\<lambda>j. mix_entry (of_nat (16 * i + j))) [0..<16]) [0..<16]"
  unfolding aes_mix_rows_def by (simp add: upt_rec mix_entry_def xtime_def pack_def)

lemma mix_pack: "aes_mix ! unat x = pack (mul14 x) (mul9 x) (mul13 x) (mul11 x)"
proof -
  have "aes_mix ! unat x = mix_entry x"
    using rows_eq_nth [OF mix_rows rows_shape(5,6), of x] u8_less [of x] by (simp add: table_nth(3))
  then show ?thesis
    by (simp add: mix_entry_def Let_def mul9_def mul11_def mul13_def mul14_def xor.assoc xor.commute xor.left_commute)
qed

section \<open>Rows and columns\<close>

lemma sixteen:
  assumes "length (st :: 'a list) = 16"
  obtains a0 a1 a2 a3 a4 a5 a6 a7 a8 a9 a10 a11 a12 a13 a14 a15
  where "st = [a0, a1, a2, a3, a4, a5, a6, a7, a8, a9, a10, a11, a12, a13, a14, a15]"
  using assms by (auto simp: length_Suc_conv numeral_eq_Suc)

lemma inv_shift_rows_shift_rows: "length st = 16 \<Longrightarrow> inv_shift_rows (shift_rows st) = st"
  by (erule sixteen) (simp add: inv_shift_rows_def shift_rows_def)

lemma length_shift_rows [simp]: "length (shift_rows st) = length st"
  by (simp add: shift_rows_def Let_def)

lemma length_sub_bytes [simp]: "length (sub_bytes tbl st) = length st"
  by (simp add: sub_bytes_def)

lemma length_add_key [simp]: "length (add_key key k st) = 16"
  by (simp add: add_key_def)

lemma length_mix_columns [simp]: "length (mix_columns st) = length st" "length (inv_mix_columns st) = length st"
  by (simp_all add: mix_columns_def inv_mix_columns_def mix_column_def inv_mix_column_def Let_def)

lemma sub_bytes_inverse: "sub_bytes aes_inv_s (sub_bytes aes_s st) = st"
  by (simp add: sub_bytes_def inv_s_s comp_def)

lemma add_key_involutive: "length st = 16 \<Longrightarrow> add_key key k (add_key key k st) = st"
  by (simp add: add_key_def list_eq_iff_nth_eq)

text \<open>One column through the column mixing, as products with doubling.\<close>

definition mixed :: "u8 \<Rightarrow> u8 \<Rightarrow> u8 \<Rightarrow> u8 \<Rightarrow> u8" where
  "mixed a b c d = xtime a XOR xtime b XOR b XOR c XOR d"

lemma mix_column_at:
  assumes "j + 3 < length st"
  shows "mix_column st j =
    st[j := mixed (st ! j) (st ! (j + 1)) (st ! (j + 2)) (st ! (j + 3)),
       j + 1 := mixed (st ! (j + 1)) (st ! (j + 2)) (st ! (j + 3)) (st ! j),
       j + 2 := mixed (st ! (j + 2)) (st ! (j + 3)) (st ! j) (st ! (j + 1)),
       j + 3 := mixed (st ! (j + 3)) (st ! j) (st ! (j + 1)) (st ! (j + 2))]"
proof -
  have *: "a XOR ((a XOR b XOR c XOR d) XOR xtime (a XOR b)) = mixed a b c d"
    "b XOR ((a XOR b XOR c XOR d) XOR xtime (b XOR c)) = mixed b c d a"
    "c XOR ((a XOR b XOR c XOR d) XOR xtime (c XOR d)) = mixed c d a b"
    "d XOR ((a XOR b XOR c XOR d) XOR xtime (d XOR a)) = mixed d a b c" for a b c d :: u8
    by (simp_all add: mixed_def xtime_xor xor.assoc xor.commute xor.left_commute)
  show ?thesis by (simp only: mix_column_def Let_def mixCol_xtime *)
qed

definition unmixed :: "u8 \<Rightarrow> u8 \<Rightarrow> u8 \<Rightarrow> u8 \<Rightarrow> u8" where
  "unmixed a b c d = mul14 a XOR mul11 b XOR mul13 c XOR mul9 d"

lemma bit_pack: "bit (pack a b c d) n \<longleftrightarrow>
    (if n < 8 then bit d n else if n < 16 then bit c (n - 8) else if n < 24 then bit b (n - 16)
     else n < 32 \<and> bit a (n - 24))"
proof -
  have out: "8 \<le> k \<Longrightarrow> \<not> bit (x :: u8) k" for x k
    using bit_imp_le_length [of x k] by auto
  show ?thesis by (auto simp: pack_def bit_simps out not_less)
qed

lemma unpack:
  fixes a0 a1 a2 a3 b0 b1 b2 b3 c0 c1 c2 c3 d0 d1 d2 d3 :: u8
  defines "t \<equiv> pack a0 a1 a2 a3 XOR drop_bit 8 (pack b0 b1 b2 b3) XOR push_bit 24 (pack b0 b1 b2 b3)
      XOR drop_bit 16 (pack c0 c1 c2 c3) XOR push_bit 16 (pack c0 c1 c2 c3)
      XOR drop_bit 24 (pack d0 d1 d2 d3) XOR push_bit 8 (pack d0 d1 d2 d3)"
  shows "ucast (drop_bit 24 t) = a0 XOR b3 XOR c2 XOR d1" and "ucast (drop_bit 16 t) = a1 XOR b0 XOR c3 XOR d2"
    and "ucast (drop_bit 8 t) = a2 XOR b1 XOR c0 XOR d3" and "ucast t = a3 XOR b2 XOR c1 XOR d0"
  unfolding t_def by (rule bit_word_eqI; simp add: bit_simps bit_pack)+

lemma inv_mix_column_at:
  "inv_mix_column st j =
    st[j := unmixed (st ! j) (st ! (j + 1)) (st ! (j + 2)) (st ! (j + 3)),
       j + 1 := unmixed (st ! (j + 1)) (st ! (j + 2)) (st ! (j + 3)) (st ! j),
       j + 2 := unmixed (st ! (j + 2)) (st ! (j + 3)) (st ! j) (st ! (j + 1)),
       j + 3 := unmixed (st ! (j + 3)) (st ! j) (st ! (j + 1)) (st ! (j + 2))]"
  unfolding inv_mix_column_def Let_def mix_pack unpack unmixed_def
  by (simp only: xor.commute xor.left_commute xor.assoc)

lemma unmixed_mixed:
  "unmixed (mixed a b c d) (mixed b c d a) (mixed c d a b) (mixed d a b c) = a"
  unfolding unmixed_def mul9_def mul11_def mul13_def mul14_def mixed_def
  by (simp add: xtime_xor xor.assoc xor.commute xor.left_commute)

lemma inv_mix_columns_mix_columns:
  assumes "length st = 16"
  shows "inv_mix_columns (mix_columns st) = st"
proof -
  from assms obtain a0 a1 a2 a3 a4 a5 a6 a7 a8 a9 a10 a11 a12 a13 a14 a15
    where st: "st = [a0, a1, a2, a3, a4, a5, a6, a7, a8, a9, a10, a11, a12, a13, a14, a15]"
    by (rule sixteen)
  show ?thesis
    by (simp add: st mix_columns_def inv_mix_columns_def mix_column_at inv_mix_column_at unmixed_mixed)
qed

section \<open>Blocks\<close>

text \<open>One round and its inverse.\<close>

lemma round_inverse:
  "length st = 16 \<Longrightarrow>
    sub_bytes aes_inv_s (inv_shift_rows (shift_rows (sub_bytes aes_s st))) = st"
  by (simp add: inv_shift_rows_shift_rows sub_bytes_inverse)

definition enc_round :: "bytes \<Rightarrow> bytes \<Rightarrow> nat \<Rightarrow> bytes" where
  "enc_round key st i = add_key key (i * 16) (mix_columns (shift_rows (sub_bytes aes_s st)))"

lemma length_enc_rounds: "length st = 16 \<Longrightarrow> length (foldl (enc_round key) st is) = 16"
  by (induction "is" arbitrary: st) (simp_all add: enc_round_def)

text \<open>The decryption rounds work on the state before the substitution of the round.\<close>

lemma dec_rounds:
  assumes "length st = 16"
  shows "foldl (\<lambda>st i. inv_mix_columns (add_key key (i * 16) (sub_bytes aes_inv_s (inv_shift_rows st))))
      (shift_rows (sub_bytes aes_s (foldl (enc_round key) st is))) (rev is)
    = shift_rows (sub_bytes aes_s st)"
  using assms
proof (induction "is" rule: rev_induct)
  case (snoc i "is")
  let ?st = "foldl (enc_round key) st is"
  have len: "length ?st = 16" using snoc.prems by (rule length_enc_rounds)
  have "inv_mix_columns (add_key key (i * 16) (sub_bytes aes_inv_s (inv_shift_rows
        (shift_rows (sub_bytes aes_s (enc_round key ?st i)))))) = shift_rows (sub_bytes aes_s ?st)"
    using len by (simp add: round_inverse enc_round_def add_key_involutive inv_mix_columns_mix_columns)
  with snoc show ?case by simp
qed simp

lemma aes_block_inverse:
  assumes "length input = 16"
  shows "aes_decrypt_block cycles keySize key (aes_encrypt_block cycles keySize key input) = input"
proof -
  let ?st = "add_key key 0 input"
  let ?enc = "foldl (enc_round key) ?st [1..<cycles]"
  have "aes_encrypt_block cycles keySize key input = add_key key keySize (shift_rows (sub_bytes aes_s ?enc))"
    by (simp add: aes_encrypt_block_def enc_round_def [abs_def])
  then have "add_key key keySize (aes_encrypt_block cycles keySize key input) = shift_rows (sub_bytes aes_s ?enc)"
    by (simp add: add_key_involutive length_enc_rounds)
  then have "aes_decrypt_block cycles keySize key (aes_encrypt_block cycles keySize key input)
      = add_key key 0 (sub_bytes aes_inv_s (inv_shift_rows (shift_rows (sub_bytes aes_s ?st))))"
    by (simp add: aes_decrypt_block_def dec_rounds)
  then show ?thesis using assms by (simp add: round_inverse add_key_involutive)
qed

lemma length_aes_block [simp]:
  "length (aes_encrypt_block cycles keySize key input) = 16"
  "length (aes_decrypt_block cycles keySize key input) = 16"
  by (simp_all add: aes_encrypt_block_def aes_decrypt_block_def Let_def)

text \<open>
  C24: AES block decryption inverts block encryption: for every block of 16 bytes, every
  expanded key and every number of rounds, \<open>_decrypt\<close> applied to the result of \<open>_encrypt\<close>
  gives the block back.
\<close>

theorem aes_decrypt_encrypt:
  assumes "length input = 16"
  shows "aes_decrypt_block cycles keySize key (aes_encrypt_block cycles keySize key input) = input"
  using assms by (rule aes_block_inverse)

theorem aes_decrypt_encrypt_witness:
  "aes_decrypt_block 10 160 (zeros 176) (aes_encrypt_block 10 160 (zeros 176) (zeros 16)) = zeros 16"
  by (rule aes_decrypt_encrypt) simp

end
