(* ===== verification/Cipher_Modes.thy ===== *)
theory Cipher_Modes
  imports Aes_Inverse
begin

text \<open>
  What the ciphers do over whole messages: RC4 is its own inverse and may be run in
  chunks; AES in CBC mode with padding is inverted by decryption, and decryption may be
  run in chunks as long as every chunk but the last is a multiple of 16 bytes.

  The mode is treated over an abstract block cipher (locale \<open>block_cipher\<close>), which AES
  interprets.
\<close>

section \<open>RC4\<close>

fun rc4_stream :: "nat \<Rightarrow> rc4 \<Rightarrow> bytes" where
  "rc4_stream 0 c = []"
| "rc4_stream (Suc n) c = fst (rc4_next c) # rc4_stream n (snd (rc4_next c))"

fun rc4_after :: "nat \<Rightarrow> rc4 \<Rightarrow> rc4" where
  "rc4_after 0 c = c"
| "rc4_after (Suc n) c = rc4_after n (snd (rc4_next c))"

lemma length_rc4_stream [simp]: "length (rc4_stream n c) = n"
  by (induction n arbitrary: c) auto

lemma rc4_encryptBlock_eq:
  "rc4_encryptBlock data c = (map2 (XOR) data (rc4_stream (length data) c), rc4_after (length data) c)"
  by (induction data arbitrary: c) (simp_all add: split_beta)

lemma rc4_append:
  "rc4_encryptBlock (xs @ ys) c =
    (let (us, c1) = rc4_encryptBlock xs c; (vs, c2) = rc4_encryptBlock ys c1 in (us @ vs, c2))"
  by (induction xs arbitrary: c) (simp_all add: split_beta)

lemma rc4_inverse: "fst (rc4_decryptBlock (fst (rc4_encryptBlock data c)) c) = data"
  by (simp add: rc4_decryptBlock_def rc4_encryptBlock_eq)

section \<open>CBC over a block cipher\<close>

fun cbc_dec_blocks :: "(bytes \<Rightarrow> bytes) \<Rightarrow> bytes \<Rightarrow> bytes list \<Rightarrow> bytes list" where
  "cbc_dec_blocks dec iv [] = []"
| "cbc_dec_blocks dec iv (b # bs) = xor16 (dec b) iv # cbc_dec_blocks dec b bs"

fun cbc_enc_blocks :: "(bytes \<Rightarrow> bytes) \<Rightarrow> bytes \<Rightarrow> bytes list \<Rightarrow> bytes list" where
  "cbc_enc_blocks enc iv [] = []"
| "cbc_enc_blocks enc iv (b # bs) = (let c = enc (xor16 b iv) in c # cbc_enc_blocks enc c bs)"

abbreviation blocks :: "bytes list \<Rightarrow> bool" where
  "blocks bs \<equiv> (\<forall>b \<in> set bs. length b = 16)"

lemma length_xor16 [simp]: "length (xor16 b iv) = 16"
  by (simp add: xor16_def)

lemma xor16_cancel: "length b = 16 \<Longrightarrow> xor16 (xor16 b iv) iv = b"
  by (simp add: xor16_def list_eq_iff_nth_eq)

text \<open>The loops consume the data one block at a time.\<close>

lemma update_last: "length xs = Suc n \<Longrightarrow> xs[n := x] = take n xs @ [x]"
  by (metis lessI list_update_id take_Suc_conv_app_nth take_all_iff order_refl upd_conv_take_nth_drop drop_all)

lemma cbc_dec_loop_block:
  assumes "n + length b = 16" and "b \<noteq> []" and "length buffer = 16"
  shows "cbc_dec_loop dec (b @ xs) buffer n iv result
    = cbc_dec_loop dec xs (zeros 16) 0 (take n buffer @ b) (result @ [xor16 (dec (take n buffer @ b)) iv])"
  using assms
proof (induction b arbitrary: n buffer)
  case (Cons x b)
  show ?case
  proof (cases "b = []")
    case True
    with Cons.prems have n: "n = 15" and "length buffer = Suc n" by simp_all
    then have "buffer[n := x] = take n buffer @ [x]" by (simp add: update_last)
    with True n show ?thesis by (simp add: Let_def)
  next
    case False
    with Cons.prems have "n + 1 < 16" by (cases b) auto
    moreover have "take (n + 1) (buffer[n := x]) = take n buffer @ [x]"
      using Cons.prems by (simp add: take_Suc_conv_app_nth)
    ultimately show ?thesis using Cons.IH [of "n + 1" "buffer[n := x]"] Cons.prems False by simp
  qed
qed simp

lemma cbc_dec_loop_append:
  "cbc_dec_loop dec (xs @ ys) buffer n iv result =
    (let (buffer, n, iv, result) = cbc_dec_loop dec xs buffer n iv result
     in cbc_dec_loop dec ys buffer n iv result)"
  by (induction dec xs buffer n iv result rule: cbc_dec_loop.induct) (auto simp: Let_def)

lemma cbc_dec_loop_blocks:
  assumes "blocks bs" and "bs \<noteq> []" and "length buffer = 16"
  shows "cbc_dec_loop dec (concat bs) buffer 0 iv result
    = (zeros 16, 0, last bs, result @ cbc_dec_blocks dec iv bs)"
  using assms
proof (induction bs arbitrary: buffer iv result)
  case (Cons b bs)
  then have "cbc_dec_loop dec (concat (b # bs)) buffer 0 iv result
      = cbc_dec_loop dec (concat bs) (zeros 16) 0 b (result @ [xor16 (dec b) iv])"
    using cbc_dec_loop_block [of 0 b buffer dec "concat bs" iv result] by force
  then show ?case using Cons by (cases "bs = []") auto
qed simp

lemma cbc_enc_loop_block:
  assumes "n + length b = 16" and "b \<noteq> []" and "length buffer = 16"
  shows "cbc_enc_loop enc (b @ xs) buffer n iv result
    = (let c = enc (xor16 (take n buffer @ b) iv) in cbc_enc_loop enc xs (zeros 16) 0 c (result @ [c]))"
  using assms
proof (induction b arbitrary: n buffer)
  case (Cons x b)
  show ?case
  proof (cases "b = []")
    case True
    with Cons.prems have n: "n = 15" and "length buffer = Suc n" by simp_all
    then have "buffer[n := x] = take n buffer @ [x]" by (simp add: update_last)
    with True n show ?thesis by (simp add: Let_def)
  next
    case False
    with Cons.prems have "n + 1 < 16" by (cases b) auto
    moreover have "take (n + 1) (buffer[n := x]) = take n buffer @ [x]"
      using Cons.prems by (simp add: take_Suc_conv_app_nth)
    ultimately show ?thesis using Cons.IH [of "n + 1" "buffer[n := x]"] Cons.prems False by simp
  qed
qed simp

lemma cbc_enc_loop_blocks:
  assumes "blocks bs" and "length buffer = 16"
  shows "\<exists>buffer' iv'. cbc_enc_loop enc (concat bs) buffer 0 iv result
    = (buffer', 0, iv', result @ cbc_enc_blocks enc iv bs)"
  using assms
proof (induction bs arbitrary: buffer iv result)
  case (Cons b bs)
  let ?c = "enc (xor16 b iv)"
  have "cbc_enc_loop enc (concat (b # bs)) buffer 0 iv result
      = cbc_enc_loop enc (concat bs) (zeros 16) 0 ?c (result @ [?c])"
    using cbc_enc_loop_block [of 0 b buffer enc "concat bs" iv result] Cons.prems by (force simp: Let_def)
  then show ?case using Cons.IH [of "zeros 16" ?c "result @ [?c]"] Cons.prems by (simp add: Let_def)
qed simp

locale block_cipher =
  fixes enc dec :: "bytes \<Rightarrow> bytes"
  assumes dec_enc: "length b = 16 \<Longrightarrow> dec (enc b) = b"
    and length_enc: "length b = 16 \<Longrightarrow> length (enc b) = 16"
begin

lemma blocks_enc: "blocks bs \<Longrightarrow> blocks (cbc_enc_blocks enc iv bs)"
  by (induction bs arbitrary: iv) (auto simp: Let_def length_enc)

lemma cbc_inverse: "blocks bs \<Longrightarrow> cbc_dec_blocks dec iv (cbc_enc_blocks enc iv bs) = bs"
  by (induction bs arbitrary: iv) (simp_all add: Let_def dec_enc xor16_cancel)

text \<open>The loops together: decrypting what was encrypted gives the blocks.\<close>

lemma cbc_loops_inverse:
  assumes "blocks bs" and "bs \<noteq> []" and "length buf = 16" and "length buf' = 16"
  shows "\<exists>b iv' b'' iv'' res. cbc_enc_loop enc (concat bs) buf 0 iv [] = (b, 0, iv', res) \<and> blocks res \<and> res \<noteq> [] \<and>
    cbc_dec_loop dec (concat res) buf' 0 iv [] = (b'', 0, iv'', bs)"
proof -
  let ?res = "cbc_enc_blocks enc iv bs"
  have ne: "?res \<noteq> []" using assms(2) by (cases bs) (auto simp: Let_def)
  obtain b iv' where "cbc_enc_loop enc (concat bs) buf 0 iv [] = (b, 0, iv', ?res)"
    using cbc_enc_loop_blocks [OF assms(1,3), of enc iv "[]"] by auto
  moreover have "cbc_dec_loop dec (concat ?res) buf' 0 iv [] = (zeros 16, 0, last ?res, bs)"
    using cbc_dec_loop_blocks [OF blocks_enc [OF assms(1)] ne assms(4), of dec iv "[]"] cbc_inverse [OF assms(1)] by simp
  ultimately show ?thesis using ne blocks_enc [OF assms(1)] by blast
qed

end

interpretation aes: block_cipher "aes_encrypt_block cycles keySize key" "aes_decrypt_block cycles keySize key"
  by unfold_locales (simp_all add: aes_block_inverse)

section \<open>Messages as blocks\<close>

fun to_blocks :: "bytes \<Rightarrow> bytes list" where
  "to_blocks xs = (if length xs < 16 then [] else take 16 xs # to_blocks (drop 16 xs))"

declare to_blocks.simps [simp del]

lemma to_blocks_spec:
  "16 dvd length xs \<Longrightarrow> concat (to_blocks xs) = xs \<and> blocks (to_blocks xs) \<and> (to_blocks xs = [] \<longleftrightarrow> xs = [])"
proof (induction xs rule: to_blocks.induct)
  case (1 xs)
  show ?case
  proof (cases "length xs < 16")
    case True
    with "1.prems" have "xs = []" by (auto dest: dvd_imp_le)
    then show ?thesis by (simp add: to_blocks.simps)
  next
    case False
    then have "16 dvd length (drop 16 xs)" using "1.prems" by simp
    then obtain ys where "to_blocks (drop 16 xs) = ys" "concat ys = drop 16 xs" "blocks ys"
      using "1.IH" False by blast
    moreover from this False have "to_blocks xs = take 16 xs # ys" by (subst to_blocks.simps) simp
    moreover have "length (take 16 xs) = 16" "xs \<noteq> []" using False by auto
    ultimately show ?thesis by (metis append_take_drop_id concat.simps(2) list.distinct(1) set_ConsD)
  qed
qed

lemma cbc_dec_blocks_append:
  "cbc_dec_blocks dec iv (xs @ ys) = cbc_dec_blocks dec iv xs @ cbc_dec_blocks dec (last (iv # xs)) ys"
  by (induction xs arbitrary: iv) auto

lemma cbc_dec_blocks_Nil [simp]: "cbc_dec_blocks dec iv bs = [] \<longleftrightarrow> bs = []"
  by (cases bs) auto

lemma strip_padding_append: "ys \<noteq> [] \<Longrightarrow> strip_padding (xs @ ys) = xs @ strip_padding ys"
  by (simp add: strip_padding_def Let_def butlast_append)

section \<open>The AES cipher object\<close>

abbreviation aes_dec :: "aes \<Rightarrow> bytes \<Rightarrow> bytes" where
  "aes_dec c \<equiv> aes_decrypt_block (ae_cycles c) (ae_keySize c) (ae_key c)"

abbreviation aes_enc :: "aes \<Rightarrow> bytes \<Rightarrow> bytes" where
  "aes_enc c \<equiv> aes_encrypt_block (ae_cycles c) (ae_keySize c) (ae_key c)"

text \<open>A cipher object between two calls that leave no partial block.\<close>

definition aes_aligned :: "aes \<Rightarrow> bool" where
  "aes_aligned c \<longleftrightarrow> ae_bufferPosition c = 0 \<and> length (ae_buffer c) = 16"

lemma mk_aes_simps [simp]:
  "aes_aligned (mk_aes cycles keySize key)" "\<not> ae_second (mk_aes cycles keySize key)"
  "ae_cycles (mk_aes cycles keySize key) = cycles" "ae_keySize (mk_aes cycles keySize key) = keySize"
  "ae_key (mk_aes cycles keySize key) = key"
  by (simp_all add: aes_aligned_def mk_aes_def)

lemma aes_decryptBlock2_blocks:
  assumes "aes_aligned c" and "blocks bs" and "bs \<noteq> []"
  shows "aes_decryptBlock2 (concat bs) finalize c =
    (let ps = cbc_dec_blocks (aes_dec c) (ae_iv c) bs
     in (concat (if finalize then strip_padding ps else ps),
         c\<lparr>ae_buffer := zeros 16, ae_bufferLength := Some 0, ae_iv := last bs\<rparr>))"
  using assms cbc_dec_loop_blocks [OF assms(2,3), of "ae_buffer c" "aes_dec c" "ae_iv c" "[]"]
  by (simp add: aes_decryptBlock2_def aes_aligned_def Let_def)

text \<open>The first call takes the initialisation vector from the data.\<close>

definition aes_with_iv :: "bytes \<Rightarrow> aes \<Rightarrow> aes" where
  "aes_with_iv iv c = c\<lparr>ae_iv := iv, ae_buffer := zeros 16, ae_bufferLength := Some 0, ae_second := True\<rparr>"

lemma aes_with_iv_simps [simp]:
  "ae_cycles (aes_with_iv iv c) = ae_cycles c" "ae_keySize (aes_with_iv iv c) = ae_keySize c"
  "ae_key (aes_with_iv iv c) = ae_key c" "ae_iv (aes_with_iv iv c) = iv" "ae_second (aes_with_iv iv c)"
  "aes_aligned c \<Longrightarrow> aes_aligned (aes_with_iv iv c)"
  by (simp_all add: aes_with_iv_def aes_aligned_def)

lemma aes_decryptBlock_first:
  assumes "aes_aligned c" and "\<not> ae_second c" and "length iv = 16"
  shows "aes_decryptBlock (iv @ data) finalize None c = aes_decryptBlock2 data finalize (aes_with_iv iv c)"
  using assms by (simp add: aes_decryptBlock_def aes_aligned_def aes_with_iv_def Let_def)

lemma aes_decryptBlock_later: "ae_second c \<Longrightarrow> aes_decryptBlock data finalize iv c = aes_decryptBlock2 data finalize c"
  by (simp add: aes_decryptBlock_def)

subsection \<open>Padding\<close>

text \<open>The padding that \<open>encryptString\<close> appends.\<close>

definition pad16 :: "bytes \<Rightarrow> bytes" where
  "pad16 data = (let pad = 16 - length data mod 16 in data @ replicate pad (of_nat pad))"

lemma pad16_length: "16 dvd length (pad16 data)" "pad16 data \<noteq> []"
  unfolding pad16_def Let_def by (simp_all add: mod_eq_0_iff_dvd [symmetric] mod_simps, presburger)

lemma last_block: "blocks bs \<Longrightarrow> bs \<noteq> [] \<Longrightarrow> last bs = drop (length (concat bs) - 16) (concat bs)"
  by (induction bs rule: rev_induct) auto

lemma strip_padding_take:
  assumes "blocks bs" and "bs \<noteq> []" and "unat (last bs ! 15) \<le> 16"
  shows "concat (strip_padding bs) = take (length (concat bs) - padding_length (last bs)) (concat bs)"
proof -
  obtain cs b where bs: "bs = cs @ [b]" using assms(2) by (cases bs rule: rev_cases) auto
  have "padding_length b \<le> 16" using assms(3) by (simp add: bs padding_length_def Let_def)
  then show ?thesis using assms by (simp add: bs strip_padding_def Let_def)
qed

lemma strip_pad16:
  assumes "blocks bs" and "concat bs = pad16 data"
  shows "concat (strip_padding bs) = data"
proof -
  define p where "p = 16 - length data mod 16"
  have p: "1 \<le> p" "p \<le> 16" by (simp_all add: p_def Suc_le_eq)
  have u: "unat (of_nat p :: u8) = p" using p by (simp add: unat_of_nat)
  have ne: "bs \<noteq> []" using assms(2) pad16_length(2) [of data] by auto
  have cat: "concat bs = data @ replicate p (of_nat p)" using assms(2) by (simp add: pad16_def p_def Let_def)
  have len: "16 \<le> length (concat bs)"
    using pad16_length [of data] assms(2) by (metis dvd_imp_le length_greater_0_conv)
  have last: "last bs ! i = concat bs ! (length (concat bs) - 16 + i)" if "i < 16" for i
    using last_block [OF assms(1) ne] len that by simp
  have nth: "last bs ! i = of_nat p" if "16 - p \<le> i" "i < 16" for i
  proof -
    have "\<not> length (concat bs) - 16 + i < length data" "length (concat bs) - 16 + i < length data + p"
      using that p len by (simp_all add: cat)
    then have "concat bs ! (length (concat bs) - 16 + i) = of_nat p"
      unfolding cat by (simp only: nth_append if_False) simp
    then show ?thesis using last that by simp
  qed
  have "padding_length (last bs) = p"
    using nth p u by (simp add: padding_length_def list_all_iff)
  moreover have "unat (last bs ! 15) \<le> 16" using nth [of 15] p u by simp
  ultimately show ?thesis using strip_padding_take [OF assms(1) ne] by (simp add: cat)
qed

lemma aes_encrypt_blocks:
  assumes "aes_aligned c" and "blocks bs" and "bs \<noteq> []"
  shows "fst (aes_encrypt (concat bs) (Some iv) c) = concat (cbc_enc_blocks (aes_enc c) iv bs)"
proof -
  obtain b iv' where "cbc_enc_loop (aes_enc c) (concat bs) (ae_buffer c) 0 iv [] = (b, 0, iv', cbc_enc_blocks (aes_enc c) iv bs)"
    using cbc_enc_loop_blocks [OF assms(2), of "ae_buffer c" "aes_enc c" iv "[]"] assms(1) by (auto simp: aes_aligned_def)
  then show ?thesis using assms by (auto simp: aes_encrypt_def aes_aligned_def Let_def)
qed

lemma aes_message_inverse:
  assumes "aes_aligned c" and "\<not> ae_second c" and "length iv = 16"
  shows "fst (aes_decryptBlock (iv @ fst (aes_encrypt (pad16 data) (Some iv) c)) True None c) = data"
proof -
  let ?bs = "to_blocks (pad16 data)"
  have bs: "concat ?bs = pad16 data" "blocks ?bs" "?bs \<noteq> []"
    using to_blocks_spec [OF pad16_length(1)] pad16_length(2) by simp_all
  let ?cs = "cbc_enc_blocks (aes_enc c) iv ?bs"
  have cs: "blocks ?cs" "?cs \<noteq> []"
    using aes.blocks_enc [OF bs(2)] bs(3) by (simp, cases ?bs, auto simp: Let_def)
  have "fst (aes_encrypt (pad16 data) (Some iv) c) = concat ?cs"
    using aes_encrypt_blocks [OF assms(1) bs(2,3)] bs(1) by simp
  then have "fst (aes_decryptBlock (iv @ fst (aes_encrypt (pad16 data) (Some iv) c)) True None c)
      = concat (strip_padding (cbc_dec_blocks (aes_dec c) iv ?cs))"
    using assms cs by (simp add: aes_decryptBlock_first aes_decryptBlock2_blocks Let_def)
  also have "cbc_dec_blocks (aes_dec c) iv ?cs = ?bs" using aes.cbc_inverse [OF bs(2)] by simp
  finally show ?thesis using strip_pad16 [OF bs(2,1)] by simp
qed

end
