(* ===== verification/Primitives.thy ===== *)
theory Primitives
  imports Js_Numbers "HOL-Library.AList"
begin

text \<open>
  The PDF object model of the worker (\<open>core/primitives.js\<close>): names, commands,
  references, dictionaries, and the sets and maps keyed by references.

  A JavaScript \<open>Map\<close> is an association list in insertion order: \<open>set\<close> replaces the value
  of a key in place or appends the entry, which is \<^term>\<open>AList.update\<close>; \<open>get\<close> is
  \<^term>\<open>map_of\<close>.  The cross-reference table is the argument \<open>fetch\<close> of the operations
  that resolve references; \<open>None\<close> stands for a dictionary without one.
\<close>

section \<open>Objects\<close>

record ref =
  r_num :: int
  r_gen :: int

text \<open>
  Objects of a document.  \<open>PDict\<close> holds the entries and the flag \<open>suppressEncryption\<close>;
  \<open>PStream\<close> is a stream object, of which only the dictionary and the raw bytes matter here.
\<close>

datatype pobj =
    PUndef
  | PNull
  | PBool bool
  | PNum js_num
  | PStr jsstr
  | PName jsstr
  | PCmd jsstr
  | PRef ref
  | PArr "pobj list"
  | PDict "(jsstr \<times> pobj) list" bool
  | PStream "(jsstr \<times> pobj) list" bytes
  | PEOF

type_synonym entries = "(jsstr \<times> pobj) list"
type_synonym fetch = "(ref \<Rightarrow> bool \<Rightarrow> pobj) option"

definition isName :: "pobj \<Rightarrow> jsstr option \<Rightarrow> bool" where
  "isName v name = (case v of PName n \<Rightarrow> name = None \<or> name = Some n | _ \<Rightarrow> False)"

definition isCmd :: "pobj \<Rightarrow> jsstr option \<Rightarrow> bool" where
  "isCmd v cmd = (case v of PCmd c \<Rightarrow> cmd = None \<or> cmd = Some c | _ \<Rightarrow> False)"

definition isRefsEqual :: "ref \<Rightarrow> ref \<Rightarrow> bool" where
  "isRefsEqual v1 v2 \<longleftrightarrow> r_num v1 = r_num v2 \<and> r_gen v1 = r_gen v2"

section \<open>Dict\<close>

definition map_get :: "('k \<times> 'v) list \<Rightarrow> 'k \<Rightarrow> 'v option" where
  "map_get m k = map_of m k"

definition map_has :: "('k \<times> 'v) list \<Rightarrow> 'k \<Rightarrow> bool" where
  "map_has m k \<longleftrightarrow> k \<in> fst ` set m"

text \<open>A missing entry reads as \<open>undefined\<close>.\<close>

definition getRaw :: "entries \<Rightarrow> jsstr \<Rightarrow> pobj" where
  "getRaw m k = (case map_get m k of None \<Rightarrow> PUndef | Some v \<Rightarrow> v)"

definition resolve :: "fetch \<Rightarrow> bool \<Rightarrow> pobj \<Rightarrow> pobj" where
  "resolve fetch suppress v =
     (case (v, fetch) of (PRef r, Some f) \<Rightarrow> f r suppress | _ \<Rightarrow> v)"

definition dict_getValue :: "fetch \<Rightarrow> bool \<Rightarrow> entries \<Rightarrow> jsstr \<Rightarrow> jsstr option \<Rightarrow> pobj" where
  "dict_getValue fetch suppress m key1 key2 =
     (let value = getRaw m key1;
          value = (case key2 of Some k2 \<Rightarrow> if value = PUndef then getRaw m k2 else value | None \<Rightarrow> value)
      in resolve fetch suppress value)"

definition dict_get :: "fetch \<Rightarrow> bool \<Rightarrow> entries \<Rightarrow> jsstr \<Rightarrow> pobj" where
  "dict_get fetch suppress m key = dict_getValue fetch suppress m key None"

definition dict_getArray :: "fetch \<Rightarrow> bool \<Rightarrow> entries \<Rightarrow> jsstr \<Rightarrow> jsstr option \<Rightarrow> pobj" where
  "dict_getArray fetch suppress m key1 key2 =
     (case dict_getValue fetch suppress m key1 key2 of
        PArr vs \<Rightarrow> PArr (map (resolve fetch suppress) vs)
      | v \<Rightarrow> v)"

definition dict_getKeys :: "entries \<Rightarrow> jsstr list" where
  "dict_getKeys m = map fst m"

definition dict_has :: "entries \<Rightarrow> jsstr \<Rightarrow> bool" where
  "dict_has m k = map_has m k"

definition dict_set :: "jsstr \<Rightarrow> pobj \<Rightarrow> entries \<Rightarrow> entries" where
  "dict_set k v m = AList.update k v m"

definition setIfNotExists :: "jsstr \<Rightarrow> pobj \<Rightarrow> entries \<Rightarrow> entries" where
  "setIfNotExists k v m = (if \<not> dict_has m k then dict_set k v m else m)"

definition setIfNumber :: "jsstr \<Rightarrow> pobj \<Rightarrow> entries \<Rightarrow> entries" where
  "setIfNumber k v m = (case v of PNum _ \<Rightarrow> dict_set k v m | _ \<Rightarrow> m)"

definition setIfArray :: "jsstr \<Rightarrow> pobj \<Rightarrow> entries \<Rightarrow> entries" where
  "setIfArray k v m = (case v of PArr _ \<Rightarrow> dict_set k v m | _ \<Rightarrow> m)"

definition setIfDefined :: "jsstr \<Rightarrow> pobj \<Rightarrow> entries \<Rightarrow> entries" where
  "setIfDefined k v m = (if v \<noteq> PUndef \<and> v \<noteq> PNull then dict_set k v m else m)"

definition setIfName :: "jsstr \<Rightarrow> pobj \<Rightarrow> entries \<Rightarrow> entries" where
  "setIfName k v m =
     (case v of PStr s \<Rightarrow> dict_set k (PName s) m | PName s \<Rightarrow> dict_set k v m | _ \<Rightarrow> m)"

definition setIfDict :: "jsstr \<Rightarrow> pobj \<Rightarrow> entries \<Rightarrow> entries" where
  "setIfDict k v m = (case v of PDict _ _ \<Rightarrow> dict_set k v m | _ \<Rightarrow> m)"

definition dict_delete :: "jsstr \<Rightarrow> entries \<Rightarrow> entries" where
  "dict_delete k m = AList.delete k m"

definition dict_clone :: "entries \<Rightarrow> entries" where
  "dict_clone m = foldl (\<lambda>d (k, v). dict_set k v d) [] m"

definition dict_iterator :: "fetch \<Rightarrow> bool \<Rightarrow> entries \<Rightarrow> entries" where
  "dict_iterator fetch suppress m = map (\<lambda>(k, v). (k, resolve fetch suppress v)) m"

definition isDict :: "fetch \<Rightarrow> pobj \<Rightarrow> jsstr option \<Rightarrow> bool" where
  "isDict fetch v type =
     (case v of
        PDict m s \<Rightarrow> type = None \<or> isName (dict_get fetch s m (js ''Type'')) type
      | _ \<Rightarrow> False)"

subsection \<open>Dict.merge\<close>

fun is_dict :: "pobj \<Rightarrow> bool" where
  "is_dict (PDict m s) = True"
| "is_dict _ = False"

fun dict_entries :: "pobj \<Rightarrow> entries" where
  "dict_entries (PDict m s) = m"
| "dict_entries _ = []"

text \<open>The first loop: the values collected for each key, in the order of the dictionaries.\<close>

definition merge_collect :: "bool \<Rightarrow> (jsstr \<times> pobj list) list \<Rightarrow> jsstr \<times> pobj \<Rightarrow> (jsstr \<times> pobj list) list" where
  "merge_collect mergeSubDicts props kv =
     (let (key, value) = kv;
          property = (case map_get props key of None \<Rightarrow> [] | Some vs \<Rightarrow> vs)
      in if property \<noteq> [] \<and> \<not> (mergeSubDicts \<and> is_dict value) then props
         else AList.update key (property @ [value]) props)"

definition merge_properties :: "bool \<Rightarrow> pobj list \<Rightarrow> (jsstr \<times> pobj list) list" where
  "merge_properties mergeSubDicts ds =
     foldl (\<lambda>props d. if is_dict d then foldl (merge_collect mergeSubDicts) props (dict_entries d) else props) [] ds"

definition merge_sub :: "pobj list \<Rightarrow> entries" where
  "merge_sub values =
     foldl (\<lambda>sub d. foldl (\<lambda>sub (k, v). setIfNotExists k v sub) sub (dict_entries d)) [] values"

definition merge_entry :: "entries \<Rightarrow> jsstr \<times> pobj list \<Rightarrow> entries" where
  "merge_entry merged nv =
     (let (name, values) = nv
      in case values of
           [] \<Rightarrow> merged
         | v # vs \<Rightarrow>
             if vs = [] \<or> \<not> is_dict v then dict_set name v merged
             else let sub = merge_sub values
                  in if 0 < length sub then dict_set name (PDict sub False) merged else merged)"

definition dict_merge :: "pobj list \<Rightarrow> bool \<Rightarrow> entries" where
  "dict_merge ds mergeSubDicts = foldl merge_entry [] (merge_properties mergeSubDicts ds)"

section \<open>References\<close>

text \<open>The decimal notation of a natural number, as a Number below \<open>2 ^ 53\<close> is printed.\<close>

fun nat_dec :: "nat \<Rightarrow> jsstr" where
  "nat_dec n = (if n < 10 then [48 + n] else nat_dec (n div 10) @ [48 + n mod 10])"

declare nat_dec.simps [simp del]

definition int_dec :: "int \<Rightarrow> jsstr" where
  "int_dec i = (if i < 0 then 45 # nat_dec (nat (- i)) else nat_dec (nat i))"

definition ref_toString :: "ref \<Rightarrow> jsstr" where
  "ref_toString r = int_dec (r_num r) @ 82 # (if r_gen r = 0 then [] else int_dec (r_gen r))"

text \<open>\<open>/^(\d+)R(\d*)$/\<close>, and the two numbers.\<close>

definition ref_fromString :: "jsstr \<Rightarrow> ref option" where
  "ref_fromString str =
     (let m1 = takeWhile dec_digit str; t = dropWhile dec_digit str
      in case t of
           c # m2 \<Rightarrow>
             if m1 = [] \<or> c \<noteq> 82 \<or> \<not> list_all dec_digit m2 then None
             else if m1 = js ''0'' then None
             else Some \<lparr>r_num = int (dec_val m1), r_gen = (if m2 = [] then 0 else int (dec_val m2))\<rparr>
         | [] \<Rightarrow> None)"

text \<open>\<open>Ref.get\<close> and \<open>Ref.fromString\<close> with the cache of references.\<close>

type_synonym ref_cache = "(jsstr \<times> ref) list"

definition ref_get_cached :: "int \<Rightarrow> int \<Rightarrow> ref_cache \<Rightarrow> ref \<times> ref_cache" where
  "ref_get_cached num gen cache =
     (let r = \<lparr>r_num = num, r_gen = gen\<rparr>; str = ref_toString r
      in case map_get cache str of
           Some r' \<Rightarrow> (r', cache)
         | None \<Rightarrow> (r, AList.update str r cache))"

definition ref_fromString_cached :: "jsstr \<Rightarrow> ref_cache \<Rightarrow> ref option \<times> ref_cache" where
  "ref_fromString_cached str cache =
     (case map_get cache str of
        Some r \<Rightarrow> (Some r, cache)
      | None \<Rightarrow>
          (case ref_fromString str of
             None \<Rightarrow> (None, cache)
           | Some r \<Rightarrow> (Some r, AList.update str r cache)))"

subsection \<open>RefSet and RefMap\<close>

type_synonym ref_set = "jsstr list"
type_synonym 'v ref_map = "(jsstr \<times> 'v) list"

definition refset_has :: "ref_set \<Rightarrow> ref \<Rightarrow> bool" where
  "refset_has s r \<longleftrightarrow> ref_toString r \<in> set s"

definition refset_put :: "ref \<Rightarrow> ref_set \<Rightarrow> ref_set" where
  "refset_put r s = (if ref_toString r \<in> set s then s else s @ [ref_toString r])"

definition refset_remove :: "ref \<Rightarrow> ref_set \<Rightarrow> ref_set" where
  "refset_remove r s = filter (\<lambda>x. x \<noteq> ref_toString r) s"

definition refmap_get :: "'v ref_map \<Rightarrow> ref \<Rightarrow> 'v option" where
  "refmap_get m r = map_of m (ref_toString r)"

definition refmap_has :: "'v ref_map \<Rightarrow> ref \<Rightarrow> bool" where
  "refmap_has m r \<longleftrightarrow> ref_toString r \<in> fst ` set m"

definition refmap_put :: "ref \<Rightarrow> 'v \<Rightarrow> 'v ref_map \<Rightarrow> 'v ref_map" where
  "refmap_put r v m = AList.update (ref_toString r) v m"

text \<open>\<open>putAlias\<close>; the value of a missing reference is \<open>undefined\<close>, here \<open>undef\<close>.\<close>

definition refmap_putAlias :: "'v \<Rightarrow> ref \<Rightarrow> ref \<Rightarrow> 'v ref_map \<Rightarrow> 'v ref_map" where
  "refmap_putAlias undef r aliasRef m =
     AList.update (ref_toString r) (case refmap_get m aliasRef of Some v \<Rightarrow> v | None \<Rightarrow> undef) m"

definition refmap_getOrPutComputed :: "(ref \<Rightarrow> 'v) \<Rightarrow> ref \<Rightarrow> 'v ref_map \<Rightarrow> 'v option \<times> 'v ref_map" where
  "refmap_getOrPutComputed callback r m =
     (let m' = (if \<not> refmap_has m r then refmap_put r (callback r) m else m)
      in (refmap_get m' r, m'))"

definition refmap_keys :: "'v ref_map \<Rightarrow> ref option list" where
  "refmap_keys m = map (ref_fromString \<circ> fst) m"

section \<open>The laws of the maps\<close>

text \<open>
  What clients of a dictionary or of a map of references rely on: a lookup after an
  insertion, after a removal, and in the empty map.
\<close>

locale js_map =
  fixes get :: "'m \<Rightarrow> 'k \<Rightarrow> 'v option"
    and put :: "'k \<Rightarrow> 'v \<Rightarrow> 'm \<Rightarrow> 'm"
    and has :: "'m \<Rightarrow> 'k \<Rightarrow> bool"
    and empty :: 'm
  assumes get_put: "get (put k v m) k' = (if k = k' then Some v else get m k')"
    and has_get: "has m k \<longleftrightarrow> get m k \<noteq> None"
    and get_empty: "get empty k = None"
begin

lemma put_put: "get (put k v (put k v' m)) = get (put k v m)"
  by (rule ext) (simp add: get_put)

lemma put_commute: "k \<noteq> k' \<Longrightarrow> get (put k v (put k' v' m)) = get (put k' v' (put k v m))"
  by (rule ext) (auto simp: get_put)

lemma has_put: "has (put k v m) k' \<longleftrightarrow> k = k' \<or> has m k'"
  by (simp add: has_get get_put)

text \<open>A memo table: entries are only added for missing keys.\<close>

definition get_or_put :: "('k \<Rightarrow> 'v) \<Rightarrow> 'k \<Rightarrow> 'm \<Rightarrow> 'v option \<times> 'm" where
  "get_or_put f k m = (let m' = (if \<not> has m k then put k (f k) m else m) in (get m' k, m'))"

lemma get_or_put_memo:
  assumes "\<forall>k v. get m k = Some v \<longrightarrow> v = f k"
  shows "fst (get_or_put f k m) = Some (f k)"
    and "\<forall>k' v. get (snd (get_or_put f k m)) k' = Some v \<longrightarrow> v = f k'"
  using assms by (auto simp: get_or_put_def Let_def has_get get_put)

end

lemma nat_dec_digits: "list_all dec_digit (nat_dec n)"
proof (induction n rule: nat_dec.induct)
  case (1 n)
  show ?case
  proof (cases "n < 10")
    case False
    have "n mod 10 < 10" by simp
    then have "dec_digit (48 + n mod 10)" unfolding dec_digit_def by linarith
    with 1 False show ?thesis by (subst nat_dec.simps) simp
  qed (simp add: nat_dec.simps dec_digit_def)
qed

lemma nat_dec_nonempty [simp]: "nat_dec n \<noteq> []" "[] \<noteq> nat_dec n"
  by (subst nat_dec.simps, simp)+

lemma dec_val_snoc: "dec_val (ds @ [c]) = 10 * dec_val ds + (c - 48)"
  by (simp add: dec_val_def digits_val_def)

lemma dec_val_nat_dec [simp]: "dec_val (nat_dec n) = n"
proof (induction n rule: nat_dec.induct)
  case (1 n)
  show ?case
  proof (cases "n < 10")
    case False
    with 1 show ?thesis by (subst nat_dec.simps) (simp add: dec_val_snoc)
  qed (simp add: nat_dec.simps dec_val_def digits_val_def)
qed

lemma nat_dec_inj: "nat_dec m = nat_dec n \<longleftrightarrow> m = n"
  by (metis dec_val_nat_dec)

lemma nat_dec_0: "nat_dec 0 = js ''0''"
  by (simp add: nat_dec.simps)

lemma int_dec_chars: "list_all (\<lambda>c. c \<noteq> 82) (int_dec i)"
  using nat_dec_digits [of "nat i"] nat_dec_digits [of "nat (- i)"]
  by (auto simp: int_dec_def list_all_iff dec_digit_def)

lemma int_dec_nonempty [simp]: "int_dec i \<noteq> []" "[] \<noteq> int_dec i"
  by (simp_all add: int_dec_def)

lemma int_dec_inj: "int_dec i = int_dec j \<longleftrightarrow> i = j"
proof -
  have "45 # t \<noteq> nat_dec n" for t n using nat_dec_digits [of n] by (cases "nat_dec n") (auto simp: dec_digit_def)
  then have "45 # t \<noteq> nat_dec n" "nat_dec n \<noteq> 45 # t" for t n by metis+
  then show ?thesis by (auto simp: int_dec_def nat_dec_inj)
qed

lemma takeWhile_R: "list_all (\<lambda>c. c \<noteq> 82) ds \<Longrightarrow>
    takeWhile (\<lambda>c. c \<noteq> 82) (ds @ 82 # t) = ds \<and> dropWhile (\<lambda>c. c \<noteq> 82) (ds @ 82 # t) = 82 # t"
  by (induction ds) auto

lemma takeWhile_digits_R:
  "list_all dec_digit ds \<Longrightarrow> takeWhile dec_digit (ds @ 82 # t) = ds \<and> dropWhile dec_digit (ds @ 82 # t) = 82 # t"
  by (induction ds) (auto simp: dec_digit_def)

lemma ref_toString_inj: "ref_toString r = ref_toString r' \<longleftrightarrow> r = r'"
proof
  assume e: "ref_toString r = ref_toString r'"
  note parts = takeWhile_R [OF int_dec_chars]
  have "int_dec (r_num r) = int_dec (r_num r')"
    using arg_cong [OF e, of "takeWhile (\<lambda>c. c \<noteq> 82)"] parts by (simp add: ref_toString_def)
  moreover have "(if r_gen r = 0 then [] else int_dec (r_gen r)) = (if r_gen r' = 0 then [] else int_dec (r_gen r'))"
    using arg_cong [OF e, of "dropWhile (\<lambda>c. c \<noteq> 82)"] parts by (simp add: ref_toString_def)
  ultimately have "r_num r = r_num r'" "r_gen r = r_gen r'"
    by (simp_all add: int_dec_inj split: if_splits)
  then show "r = r'" by simp
qed simp

text \<open>
  References survive their string form.  \<open>Ref.fromString\<close> inverts \<open>toString\<close> for every
  reference with a positive object number, and it rejects the string of object number 0.
\<close>

lemma ref_roundtrip:
  assumes "0 \<le> r_num r" and "0 \<le> r_gen r"
  shows "ref_fromString (ref_toString r) = (if r_num r = 0 then None else Some r)"
proof -
  have "takeWhile dec_digit (ref_toString r) = nat_dec (nat (r_num r))"
      "dropWhile dec_digit (ref_toString r) = 82 # (if r_gen r = 0 then [] else nat_dec (nat (r_gen r)))"
    using takeWhile_digits_R [OF nat_dec_digits] assms by (simp_all add: ref_toString_def int_dec_def)
  then show ?thesis using nat_dec_digits [of "nat (r_gen r)"] nat_dec_inj [of "nat (r_num r)" 0] assms
    by (simp add: ref_fromString_def nat_dec_0)
qed

interpretation dict: js_map map_of "AList.update" map_has "[]"
  by unfold_locales (auto simp: update_conv' map_has_def map_of_eq_None_iff)

interpretation refmap: js_map refmap_get refmap_put refmap_has "[]"
  by unfold_locales (auto simp: refmap_get_def refmap_put_def refmap_has_def update_conv' ref_toString_inj map_of_eq_None_iff)

text \<open>
  The maps keyed by references behave as maps from references, although they are keyed
  by strings: a lookup returns the value stored last for that reference and is not
  affected by any other reference, and \<open>getOrPutComputed\<close> computes the value of a
  reference once and then keeps returning it.
\<close>

theorem refMap_correct:
  "refmap_get (refmap_put r v m) r' = (if r = r' then Some v else refmap_get m r') \<and>
   fst (refmap_getOrPutComputed f r (snd (refmap_getOrPutComputed g r m)))
     = fst (refmap_getOrPutComputed g r m)"
  by (auto simp: refmap.get_put refmap.has_get refmap_getOrPutComputed_def Let_def)

section \<open>Merging\<close>

text \<open>The entries of the dictionaries of a list, in order.\<close>

definition all_entries :: "pobj list \<Rightarrow> entries" where
  "all_entries ds = concat (map dict_entries ds)"

lemma merge_properties_entries:
  "merge_properties mergeSubDicts ds = foldl (merge_collect mergeSubDicts) [] (all_entries ds)"
proof -
  have "foldl (\<lambda>props d. if is_dict d then foldl (merge_collect mergeSubDicts) props (dict_entries d) else props) ps ds
      = foldl (merge_collect mergeSubDicts) ps (all_entries ds)" for ps
  proof (induction ds arbitrary: ps)
    case (Cons d ds)
    then show ?case by (cases d) (simp_all add: all_entries_def)
  qed (simp add: all_entries_def)
  then show ?thesis by (simp add: merge_properties_def)
qed

text \<open>The values collected for a key: the first, and the dictionaries after it.\<close>

definition key_values :: "entries \<Rightarrow> jsstr \<Rightarrow> pobj list" where
  "key_values kvs k = map snd (filter (\<lambda>(k', v). k' = k) kvs)"

fun kept_values :: "bool \<Rightarrow> pobj list \<Rightarrow> pobj list" where
  "kept_values mergeSubDicts [] = []"
| "kept_values mergeSubDicts (v # vs) = v # (if mergeSubDicts then filter is_dict vs else [])"

lemma kept_values_snoc:
  "kept_values b (vs @ [v]) =
    (if vs = [] then [v] else if b \<and> is_dict v then kept_values b vs @ [v] else kept_values b vs)"
  by (cases vs) auto

lemma key_values_snoc: "key_values (kvs @ [(k, v)]) k' = (if k = k' then key_values kvs k' @ [v] else key_values kvs k')"
  by (simp add: key_values_def)

lemma merge_collect_apply:
  "merge_collect b props (k, v) =
    (let property = (case map_of props k of None \<Rightarrow> [] | Some vs \<Rightarrow> vs)
     in if property \<noteq> [] \<and> \<not> (b \<and> is_dict v) then props else AList.update k (property @ [v]) props)"
  by (simp add: merge_collect_def map_get_def)

lemma merge_collect_spec:
  "map_of (foldl (merge_collect b) [] kvs) k =
    (if key_values kvs k = [] then None else Some (kept_values b (key_values kvs k)))"
proof (induction kvs arbitrary: k rule: rev_induct)
  case Nil
  show ?case by (simp add: key_values_def)
next
  case (snoc kv kvs)
  obtain k' v where kv: "kv = (k', v)" by fastforce
  have ne: "kept_values b vs \<noteq> [] \<longleftrightarrow> vs \<noteq> []" for vs by (cases vs) auto
  show ?case
    by (auto simp: kv merge_collect_apply Let_def snoc key_values_snoc kept_values_snoc ne update_conv')
qed

lemma merge_collect_distinct: "distinct (map fst props) \<Longrightarrow> distinct (map fst (foldl (merge_collect b) props kvs))"
  by (induction kvs arbitrary: props) (auto simp: merge_collect_def Let_def distinct_update split: prod.splits)

text \<open>One value per key goes into the result.\<close>

definition merged_value :: "pobj list \<Rightarrow> pobj option" where
  "merged_value values =
     (case values of
        [] \<Rightarrow> None
      | v # vs \<Rightarrow>
          if vs = [] \<or> \<not> is_dict v then Some v
          else if merge_sub values = [] then None else Some (PDict (merge_sub values) False))"

lemma merge_entry_eq:
  "merge_entry merged (name, values) =
    (case merged_value values of None \<Rightarrow> merged | Some v \<Rightarrow> dict_set name v merged)"
  by (simp add: merge_entry_def merged_value_def Let_def split: list.split)

lemma merge_entries_spec:
  "distinct (map fst props) \<Longrightarrow> map_of (foldl merge_entry merged props) k =
    (case map_of props k of
       None \<Rightarrow> map_of merged k
     | Some vs \<Rightarrow> (case merged_value vs of None \<Rightarrow> map_of merged k | Some v \<Rightarrow> Some v))"
proof (induction props arbitrary: merged)
  case (Cons nv props)
  obtain n vs where nv: "nv = (n, vs)" by fastforce
  have "map_of props n = None" using Cons.prems nv by (simp add: map_of_eq_None_iff)
  with Cons nv show ?case
    by (auto simp: merge_entry_eq dict_set_def update_conv' split: option.splits)
qed simp

text \<open>
  What \<open>Dict.merge\<close> computes.  Without merging of sub-dictionaries every key has the
  value of the first dictionary that has it.  With merging, a key whose first value is a
  dictionary and that occurs again with dictionaries is mapped to the dictionary merged from all of
  them (left out when it is empty), in which again the first value of a key wins.
\<close>

theorem merge_correct:
  "map_of (dict_merge ds b) k = merged_value (kept_values b (key_values (all_entries ds) k)) \<and>
   (\<not> b \<longrightarrow> map_of (dict_merge ds b) k = map_of (all_entries ds) k)"
proof -
  have d: "distinct (map fst (merge_properties b ds))"
    by (simp add: merge_properties_entries merge_collect_distinct)
  have g: "map_of (dict_merge ds b) k = merged_value (kept_values b (key_values (all_entries ds) k))"
    by (simp add: dict_merge_def merge_entries_spec [OF d])
      (simp add: merge_properties_entries merge_collect_spec merged_value_def split: option.splits)
  have "merged_value (kept_values False (key_values kvs k)) = map_of kvs k" for kvs
    by (induction kvs) (auto simp: key_values_def merged_value_def)
  with g show ?thesis by auto
qed

lemma setIfNotExists_spec:
  "map_of (setIfNotExists k v m) k' = (if k = k' \<and> map_of m k = None then Some v else map_of m k')"
  by (auto simp: setIfNotExists_def dict_has_def map_has_def dict_set_def update_conv' map_of_eq_None_iff)

lemma merge_sub_spec: "map_of (merge_sub values) k = map_of (all_entries values) k"
proof -
  have step: "map_of (foldl (\<lambda>sub (k, v). setIfNotExists k v sub) m kvs) k =
      (case map_of m k of None \<Rightarrow> map_of kvs k | Some v \<Rightarrow> Some v)" for m kvs
    by (induction kvs arbitrary: m) (auto simp: setIfNotExists_spec split: option.splits)
  have "map_of (foldl (\<lambda>sub d. foldl (\<lambda>sub (k, v). setIfNotExists k v sub) sub (dict_entries d)) m values) k =
      (case map_of m k of None \<Rightarrow> map_of (all_entries values) k | Some v \<Rightarrow> Some v)" for m
    by (induction "values" arbitrary: m) (auto simp: all_entries_def step map_add_def split: option.splits)
  from this [of "[]"] show ?thesis by (simp add: merge_sub_def)
qed

text \<open>
  A merged sub-dictionary maps each key to the value of the first of the merged
  dictionaries that has it, and copying a dictionary loses nothing.
\<close>

lemma merge_sub_correct:
  "map_of (merge_sub values) k = map_of (all_entries values) k \<and> map_of (dict_clone m) k = map_of (rev m) k"
proof -
  have "map_of (foldl (\<lambda>d (k, v). dict_set k v d) acc m) k =
      (case map_of (rev m) k of None \<Rightarrow> map_of acc k | Some v \<Rightarrow> Some v)" for acc
    by (induction m arbitrary: acc) (auto simp: dict_set_def update_conv' map_add_def split: option.splits)
  from this [of "[]"] show ?thesis by (simp add: merge_sub_spec dict_clone_def split: option.split)
qed

end
