(* ===== verification/Key_Derivation.thy ===== *)
theory Key_Derivation
  imports Digests Cipher_Modes Primitives "HOL-Library.Sublist"
begin

text \<open>
  The keys of the standard security handler (\<open>core/crypto.js\<close>): passwords as bytes, the
  hash functions of revisions 5 and 6 (\<open>PDF17\<close>, \<open>PDF20\<close>), the MD5-based keys of
  revisions 2 to 4, and the key of an object.  The theorems show that the hash of
  revision 6 always returns, and that a password that the document was encrypted with
  gives back the key of the document.
\<close>

section \<open>Strings and bytes\<close>

text \<open>\<open>charCodeAt(i) & 0xff\<close>, stored in a byte.\<close>

definition stringToBytes :: "jsstr \<Rightarrow> bytes" where
  "stringToBytes s = map of_nat s"

text \<open>\<open>bytesToString\<close> builds the string from pieces of \<open>MAX_ARGUMENT_COUNT\<close> bytes.\<close>

function bytes_pieces :: "bytes \<Rightarrow> nat \<Rightarrow> jsstr list" where
  "bytes_pieces bs i =
     (if i < length bs
      then map unat (drop i (take (min (i + 8192) (length bs)) bs)) # bytes_pieces bs (i + 8192)
      else [])"
  by pat_completeness auto

termination by (relation "measure (\<lambda>(bs, i). length bs - i)") auto

declare bytes_pieces.simps [simp del]

definition bytesToString :: "bytes \<Rightarrow> jsstr" where
  "bytesToString bs = (if length bs < 8192 then map unat bs else concat (bytes_pieces bs 0))"

lemma concat_bytes_pieces: "concat (bytes_pieces bs i) = map unat (drop i bs)"
proof (induction bs i rule: bytes_pieces.induct)
  case (1 bs i)
  show ?case
  proof (cases "i < length bs")
    case True
    define piece where "piece = drop i (take (min (i + 8192) (length bs)) bs)"
    have "piece @ drop (i + 8192) bs = drop i bs"
    proof (cases "i + 8192 \<le> length bs")
      case True
      then have "piece = take 8192 (drop i bs)" by (simp add: piece_def min_def drop_take)
      then show ?thesis by (metis append_take_drop_id drop_drop add.commute)
    next
      case False
      then show ?thesis by (simp add: piece_def min_def)
    qed
    moreover have "bytes_pieces bs i = map unat piece # bytes_pieces bs (i + 8192)"
      using True by (subst bytes_pieces.simps) (simp only: piece_def if_True)
    ultimately show ?thesis using "1.IH" [OF True] by (metis concat.simps(2) map_append)
  qed (simp add: bytes_pieces.simps)
qed

lemma bytesToString_eq [simp]: "bytesToString bs = map unat bs"
  by (simp add: bytesToString_def concat_bytes_pieces)

lemma stringToBytes_bytesToString [simp]: "stringToBytes (map unat bs) = bs"
  by (simp add: stringToBytes_def comp_def)

lemma bytesToString_stringToBytes: "list_all (\<lambda>c. c < 256) s \<Longrightarrow> map unat (stringToBytes s) = s"
  by (induction s) (auto simp: stringToBytes_def unat_of_nat)

lemma length_stringToBytes [simp]: "length (stringToBytes s) = length s"
  by (simp add: stringToBytes_def)

text \<open>The code points of a string with their code units, as the string iterator yields them.\<close>

fun js_chars :: "jsstr \<Rightarrow> (nat \<times> jsstr) list" where
  "js_chars (a # b # s) =
     (if 0xd800 \<le> a \<and> a < 0xdc00 \<and> 0xdc00 \<le> b \<and> b < 0xe000
      then (0x10000 + (a - 0xd800) * 0x400 + (b - 0xdc00), [a, b]) # js_chars s
      else (a, [a]) # js_chars (b # s))"
| "js_chars [a] = [(a, [a])]"
| "js_chars [] = []"

definition NON_ASCII_SPACES :: "nat list" where
  "NON_ASCII_SPACES = [0x00a0, 0x1680, 0x2000, 0x2001, 0x2002, 0x2003, 0x2004, 0x2005, 0x2006, 0x2007, 0x2008,
     0x2009, 0x200a, 0x200b, 0x202f, 0x205f, 0x3000]"

definition COMMONLY_MAPPED_TO_NOTHING :: "nat list" where
  "COMMONLY_MAPPED_TO_NOTHING = [0x00ad, 0x034f, 0x1806, 0x180b, 0x180c, 0x180d, 0x200b, 0x200c, 0x200d, 0x2060,
     0xfe00, 0xfe01, 0xfe02, 0xfe03, 0xfe04, 0xfe05, 0xfe06, 0xfe07, 0xfe08, 0xfe09, 0xfe0a, 0xfe0b, 0xfe0c,
     0xfe0d, 0xfe0e, 0xfe0f, 0xfeff]"

text \<open>Unicode normalisation is an argument: \<open>nfkc\<close> stands for \<open>normalize("NFKC")\<close>.\<close>

definition saslPrep :: "(jsstr \<Rightarrow> jsstr) \<Rightarrow> jsstr \<Rightarrow> jsstr" where
  "saslPrep nfkc str =
     nfkc (foldl (\<lambda>mapped (code, char).
       if code \<in> set NON_ASCII_SPACES then mapped @ [32]
       else if code \<notin> set COMMONLY_MAPPED_TO_NOTHING then mapped @ char
       else mapped) [] (js_chars str))"

text \<open>The bytes of a code point in UTF-8; \<open>encodeURIComponent\<close> raises on a lone surrogate.\<close>

definition utf8_bytes :: "nat \<Rightarrow> jsstr option" where
  "utf8_bytes c =
     (if c < 0x80 then Some [c]
      else if c < 0x800 then Some [0xc0 + c div 0x40, 0x80 + c mod 0x40]
      else if 0xd800 \<le> c \<and> c < 0xe000 then None
      else if c < 0x10000 then Some [0xe0 + c div 0x1000, 0x80 + c div 0x40 mod 0x40, 0x80 + c mod 0x40]
      else Some [0xf0 + c div 0x40000, 0x80 + c div 0x1000 mod 0x40, 0x80 + c div 0x40 mod 0x40, 0x80 + c mod 0x40])"

fun utf8_chars :: "(nat \<times> jsstr) list \<Rightarrow> jsstr option" where
  "utf8_chars [] = Some []"
| "utf8_chars ((code, char) # cs) =
     (case (utf8_bytes code, utf8_chars cs) of (Some a, Some b) \<Rightarrow> Some (a @ b) | _ \<Rightarrow> None)"

definition utf8StringToString :: "jsstr \<Rightarrow> jsstr option" where
  "utf8StringToString str = utf8_chars (js_chars str)"

definition utf8PasswordToBytes :: "jsstr \<Rightarrow> bytes" where
  "utf8PasswordToBytes password =
     stringToBytes (case utf8StringToString password of Some s \<Rightarrow> s | None \<Rightarrow> password)"

section \<open>Revisions 5 and 6\<close>

text \<open>The method \<open>_hash\<close> of the two subclasses is an argument of the methods of \<open>PDFBase\<close>.\<close>

type_synonym pdf_hash = "bytes \<Rightarrow> bytes \<Rightarrow> bytes \<Rightarrow> bytes res"

definition isArrayEqual :: "bytes \<Rightarrow> bytes \<Rightarrow> bool" where
  "isArrayEqual arr1 arr2 \<longleftrightarrow>
     length arr1 = length arr2 \<and> list_all (\<lambda>i. arr1 ! i = arr2 ! i) [0..<length arr1]"

lemma isArrayEqual_iff [simp]: "isArrayEqual xs ys \<longleftrightarrow> xs = ys"
  unfolding isArrayEqual_def list_all_iff by (auto intro: nth_equalityI)

definition checkOwnerPassword :: "pdf_hash \<Rightarrow> bytes \<Rightarrow> bytes \<Rightarrow> bytes \<Rightarrow> bytes \<Rightarrow> bool res" where
  "checkOwnerPassword hash password ownerValidationSalt userBytes ownerPassword =
     rbind (arr_set (zeros (length password + 56)) password 0) (\<lambda>h.
     rbind (arr_set h ownerValidationSalt (length password)) (\<lambda>h.
     rbind (arr_set h userBytes (length password + length ownerValidationSalt)) (\<lambda>h.
     rbind (hash password h userBytes) (\<lambda>result.
     Inr (isArrayEqual result ownerPassword)))))"

definition checkUserPassword :: "pdf_hash \<Rightarrow> bytes \<Rightarrow> bytes \<Rightarrow> bytes \<Rightarrow> bool res" where
  "checkUserPassword hash password userValidationSalt userPassword =
     rbind (arr_set (zeros (length password + 8)) password 0) (\<lambda>h.
     rbind (arr_set h userValidationSalt (length password)) (\<lambda>h.
     rbind (hash password h []) (\<lambda>result.
     Inr (isArrayEqual result userPassword))))"

definition getOwnerKey :: "pdf_hash \<Rightarrow> bytes \<Rightarrow> bytes \<Rightarrow> bytes \<Rightarrow> bytes \<Rightarrow> bytes res" where
  "getOwnerKey hash password ownerKeySalt userBytes ownerEncryption =
     rbind (arr_set (zeros (length password + 56)) password 0) (\<lambda>h.
     rbind (arr_set h ownerKeySalt (length password)) (\<lambda>h.
     rbind (arr_set h userBytes (length password + length ownerKeySalt)) (\<lambda>h.
     rbind (hash password h userBytes) (\<lambda>key.
     rbind (mk_aes256 key) (\<lambda>cipher.
     Inr (fst (aes_decryptBlock ownerEncryption False (Some (zeros 16)) cipher)))))))"

definition getUserKey :: "pdf_hash \<Rightarrow> bytes \<Rightarrow> bytes \<Rightarrow> bytes \<Rightarrow> bytes res" where
  "getUserKey hash password userKeySalt userEncryption =
     rbind (arr_set (zeros (length password + 8)) password 0) (\<lambda>h.
     rbind (arr_set h userKeySalt (length password)) (\<lambda>h.
     rbind (hash password h []) (\<lambda>key.
     rbind (mk_aes256 key) (\<lambda>cipher.
     Inr (fst (aes_decryptBlock userEncryption False (Some (zeros 16)) cipher))))))"

definition pdf17_hash :: pdf_hash where
  "pdf17_hash password inp userBytes = Inr (calculateSHA256 inp 0 (length inp))"

text \<open>One turn of the loop of revision 6: the new \<open>k\<close> and \<open>e\<close>.\<close>

definition pdf20_combined :: "bytes \<Rightarrow> bytes \<Rightarrow> bytes \<Rightarrow> bytes" where
  "pdf20_combined password k userBytes =
     blit (blit (blit (zeros (length password + length k + length userBytes)) password 0) k (length password))
       userBytes (length password + length k)"

definition pdf20_k1 :: "bytes \<Rightarrow> bytes" where
  "pdf20_k1 combined =
     foldl (\<lambda>k1 j. blit k1 combined (j * length combined)) (zeros (length combined * 64)) [0..<64]"

definition pdf20_round :: "bytes \<Rightarrow> bytes \<Rightarrow> bytes \<Rightarrow> (bytes \<times> bytes) res" where
  "pdf20_round password userBytes k =
     rbind (mk_aes128 (subarray k 0 16)) (\<lambda>cipher.
       let e = fst (aes_encrypt (pdf20_k1 (pdf20_combined password k userBytes)) (Some (subarray k 16 32)) cipher);
           remainder = sum_list (map unat (take 16 e)) mod 3;
           k' = (if remainder = 0 then calculateSHA256 e 0 (length e)
                 else if remainder = 1 then calculateSHA384 e 0 (length e)
                 else calculateSHA512 e 0 (length e) False)
       in Inr (k', e))"

definition pdf20_more :: "bytes \<Rightarrow> nat \<Rightarrow> bool" where
  "pdf20_more e i \<longleftrightarrow> i < 64 \<or> e \<noteq> [] \<and> unat (last e) + 32 > i"

lemma pdf20_more_bound: "pdf20_more e i \<Longrightarrow> i < 287"
  using u8_less [of "last e"] by (auto simp: pdf20_more_def)

function pdf20_loop :: "bytes \<Rightarrow> bytes \<Rightarrow> bytes \<Rightarrow> bytes \<Rightarrow> nat \<Rightarrow> bytes res" where
  "pdf20_loop password userBytes k e i =
     (if pdf20_more e i
      then rbind (pdf20_round password userBytes k) (\<lambda>(k', e'). pdf20_loop password userBytes k' e' (i + 1))
      else Inr (subarray k 0 32))"
  by pat_completeness auto

termination
  by (relation "measure (\<lambda>(p, u, k, e, i). 287 - i)") (auto dest: pdf20_more_bound)

declare pdf20_loop.simps [simp del]

definition pdf20_hash :: pdf_hash where
  "pdf20_hash password inp userBytes =
     pdf20_loop password userBytes (subarray (calculateSHA256 inp 0 (length inp)) 0 32) [0] 0"

definition createEncryptionKey20 ::
    "pobj \<Rightarrow> bytes option \<Rightarrow> bytes \<Rightarrow> bytes \<Rightarrow> bytes \<Rightarrow> bytes \<Rightarrow> bytes \<Rightarrow> bytes \<Rightarrow> bytes \<Rightarrow> bytes \<Rightarrow> bytes \<Rightarrow> bytes option res"
where
  "createEncryptionKey20 revision password ownerPassword ownerValidationSalt ownerKeySalt uBytes
       userPassword userValidationSalt userKeySalt ownerEncryption userEncryption =
     (let password = (case password of Some p \<Rightarrow> take (min 127 (length p)) p | None \<Rightarrow> []);
          hash = (if revision = PNum (Num 6) then pdf20_hash else pdf17_hash)
      in rbind (checkUserPassword hash password userValidationSalt userPassword) (\<lambda>isUser.
           if isUser then rbind (getUserKey hash password userKeySalt userEncryption) (\<lambda>k. Inr (Some k))
           else if password = [] then Inr None
           else rbind (checkOwnerPassword hash password ownerValidationSalt uBytes ownerPassword) (\<lambda>isOwner.
             if isOwner then rbind (getOwnerKey hash password ownerKeySalt uBytes ownerEncryption) (\<lambda>k. Inr (Some k))
             else Inr None)))"

section \<open>Numbers in dictionaries\<close>

text \<open>
  The conversions of JavaScript for the values of a dictionary entry.  An array converts
  through the comma-separated text of its elements, so only arrays of at most one element
  can be numbers; names, dictionaries, references and streams give NaN.
\<close>

fun obj_truthy :: "pobj \<Rightarrow> bool" where
  "obj_truthy PUndef = False"
| "obj_truthy PNull = False"
| "obj_truthy (PBool b) = b"
| "obj_truthy (PNum n) = num_truthy n"
| "obj_truthy (PStr s) = (s \<noteq> [])"
| "obj_truthy _ = True"

fun array_num :: "rounding \<Rightarrow> pobj \<Rightarrow> js_num" where
  "array_num fl PUndef = Num 0"
| "array_num fl PNull = Num 0"
| "array_num fl (PNum n) = n"
| "array_num fl (PStr s) = stringToNumber fl s"
| "array_num fl (PArr []) = Num 0"
| "array_num fl (PArr [x]) = array_num fl x"
| "array_num fl _ = NaN"

fun obj_num :: "rounding \<Rightarrow> pobj \<Rightarrow> js_num" where
  "obj_num fl PUndef = NaN"
| "obj_num fl (PBool b) = Num (if b then 1 else 0)"
| "obj_num fl v = array_num fl v"

definition toInt32 :: "js_num \<Rightarrow> u32" where
  "toInt32 n = (case n of Num x \<Rightarrow> word_of_int (rat_trunc x) | _ \<Rightarrow> 0)"

section \<open>Revisions 2 to 4\<close>

definition defaultPasswordBytes :: bytes where
  "defaultPasswordBytes = [0x28, 0xbf, 0x4e, 0x5e, 0x4e, 0x75, 0x8a, 0x41, 0x64, 0x00, 0x4e, 0x56, 0xff, 0xfa, 0x01,
     0x08, 0x2e, 0x2e, 0x00, 0xb6, 0xd0, 0x68, 0x3e, 0x80, 0x2f, 0x0c, 0xa9, 0xfe, 0x64, 0x53, 0x69, 0x7a]"

text \<open>The two loops that write the password and its padding to the start of \<open>hashData\<close>.\<close>

definition write_password :: "bytes option \<Rightarrow> bytes \<Rightarrow> bytes" where
  "write_password password hashData =
     (let n = (case password of Some p \<Rightarrow> min 32 (length p) | None \<Rightarrow> 0);
          p = (case password of Some p \<Rightarrow> p | None \<Rightarrow> []);
          hashData = foldl (\<lambda>h i. h[i := p ! i]) hashData [0..<n]
      in foldl (\<lambda>h i. h[i := defaultPasswordBytes ! (i - n)]) hashData [n..<32])"

definition xor_key :: "bytes \<Rightarrow> nat \<Rightarrow> nat \<Rightarrow> bytes" where
  "xor_key key n j = map (\<lambda>k. rd key k XOR of_nat j) [0..<n]"

text \<open>The data that is hashed, and the number of its bytes.\<close>

definition key_hashData :: "bytes \<Rightarrow> bytes option \<Rightarrow> bytes \<Rightarrow> u32 \<Rightarrow> bool \<Rightarrow> bytes \<times> nat" where
  "key_hashData fileId password ownerPassword flags metadataMark =
     (let h = write_password password (zeros (40 + length ownerPassword + length fileId));
          i = 32;
          h = blit h ownerPassword i;
          i = i + length ownerPassword;
          h = h[i := low8 flags, i + 1 := low8 (shr flags 8), i + 2 := low8 (shr flags 16), i + 3 := low8 (shr flags 24)];
          i = i + 4;
          h = blit h fileId i;
          i = i + length fileId
      in if metadataMark then (arr_fill h 0xff i (i + 4), i + 4) else (h, i))"

definition check_data :: "bool \<Rightarrow> bytes \<Rightarrow> bytes \<Rightarrow> bytes \<Rightarrow> bytes" where
  "check_data rev3 hashData fileId encryptionKey =
     (if rev3 then
        let h = blit (blit hashData defaultPasswordBytes 0) fileId 32;
            checkData = fst (rc4_encryptBlock (calculateMD5 h 0 (32 + length fileId)) (mk_rc4 encryptionKey))
        in foldl (\<lambda>checkData j. fst (rc4_encryptBlock checkData (mk_rc4 (xor_key encryptionKey (length encryptionKey) j))))
             checkData [1..<20]
      else fst (rc4_encryptBlock defaultPasswordBytes (mk_rc4 encryptionKey)))"

definition prepareKeyData ::
    "rounding \<Rightarrow> bytes \<Rightarrow> bytes option \<Rightarrow> bytes \<Rightarrow> bytes \<Rightarrow> pobj \<Rightarrow> pobj \<Rightarrow> nat \<Rightarrow> bool \<Rightarrow> bytes option" where
  "prepareKeyData fl fileId password ownerPassword userPassword flags revision keyLength encryptMetadata =
     (let rev3 = num_le (Num 3) (obj_num fl revision);
          rev4 = num_le (Num 4) (obj_num fl revision);
          (hashData, i) = key_hashData fileId password ownerPassword (toInt32 (obj_num fl flags)) (rev4 \<and> \<not> encryptMetadata);
          hash = calculateMD5 hashData 0 i;
          keyLengthInBytes = keyLength div 8;
          hash = (if rev3 then ((\<lambda>hash. calculateMD5 hash 0 keyLengthInBytes) ^^ 50) hash else hash);
          encryptionKey = take keyLengthInBytes hash;
          checkData = check_data rev3 hashData fileId encryptionKey
      in if list_all (\<lambda>k. k < length userPassword \<and> userPassword ! k = checkData ! k) [0..<length checkData]
         then Some encryptionKey else None)"

definition decodeUserPassword :: "rounding \<Rightarrow> bytes \<Rightarrow> bytes \<Rightarrow> pobj \<Rightarrow> nat \<Rightarrow> bytes" where
  "decodeUserPassword fl password ownerPassword revision keyLength =
     (let rev3 = num_le (Num 3) (obj_num fl revision);
          hash = calculateMD5 (write_password (Some password) (zeros 32)) 0 32;
          keyLengthInBytes = keyLength div 8;
          hash = (if rev3 then ((\<lambda>hash. calculateMD5 hash 0 (length hash)) ^^ 50) hash else hash)
      in if rev3
         then foldl (\<lambda>userPassword j. fst (rc4_encryptBlock userPassword (mk_rc4 (xor_key hash keyLengthInBytes j))))
                ownerPassword (rev [0..<20])
         else fst (rc4_encryptBlock ownerPassword (mk_rc4 (take keyLengthInBytes hash))))"

definition buildObjectKey :: "nat \<Rightarrow> nat \<Rightarrow> bytes \<Rightarrow> bool \<Rightarrow> bytes" where
  "buildObjectKey num gen encryptionKey isAes =
     (let n = length encryptionKey;
          key = blit (zeros (n + 9)) encryptionKey 0;
          key = key[n := of_nat num, n + 1 := of_nat (num div 2 ^ 8), n + 2 := of_nat (num div 2 ^ 16),
                    n + 3 := of_nat gen, n + 4 := of_nat (gen div 2 ^ 8)];
          (key, i) = (if isAes then (key[n + 5 := 0x73, n + 6 := 0x41, n + 7 := 0x6c, n + 8 := 0x54], n + 9)
                      else (key, n + 5))
      in take (min (n + 5) 16) (calculateMD5 key 0 i))"

section \<open>What the loops write\<close>

lemma foldl_store:
  assumes "a \<le> b" and "b \<le> length h"
  shows "foldl (\<lambda>h i. h[i := f i]) h [a..<b] = take a h @ map f [a..<b] @ drop b h"
  using assms
proof (induction b)
  case (Suc b)
  show ?case
  proof (cases "a = Suc b")
    case False
    with Suc have "a \<le> b" by simp
    with Suc have "foldl (\<lambda>h i. h[i := f i]) h [a..<Suc b] = (take a h @ map f [a..<b] @ drop b h)[b := f b]" by simp
    also have "\<dots> = take a h @ map f [a..<b] @ f b # drop (Suc b) h"
      using Suc \<open>a \<le> b\<close> by (simp add: list_update_append min_def Cons_nth_drop_Suc [symmetric])
    finally show ?thesis using \<open>a \<le> b\<close> by simp
  qed (simp add: Suc)
qed simp

definition pad_password :: "bytes \<Rightarrow> bytes" where
  "pad_password p = take 32 (p @ defaultPasswordBytes)"

lemma length_pad_password [simp]: "length (pad_password p) = 32"
  by (simp add: pad_password_def defaultPasswordBytes_def)

lemma pad_password_idem [simp]: "pad_password (pad_password p) = pad_password p"
  by (simp add: pad_password_def [of "pad_password p"])

lemma write_password_eq:
  assumes "32 \<le> length h"
  shows "write_password pw h = pad_password (case pw of Some p \<Rightarrow> p | None \<Rightarrow> []) @ drop 32 h"
proof -
  define p where "p = (case pw of Some p \<Rightarrow> p | None \<Rightarrow> [])"
  define n where "n = min 32 (length p)"
  have n: "(case pw of Some p \<Rightarrow> min 32 (length p) | None \<Rightarrow> 0) = n" by (auto simp: n_def p_def split: option.split)
  have d: "length defaultPasswordBytes = 32" by (simp add: defaultPasswordBytes_def)
  let ?h = "map ((!) p) [0..<n] @ drop n h"
  have "write_password pw h = foldl (\<lambda>h i. h[i := defaultPasswordBytes ! (i - n)]) ?h [n..<32]"
    using assms by (simp add: write_password_def Let_def n foldl_store n_def flip: p_def)
  also have "\<dots> = map ((!) p) [0..<n] @ map (\<lambda>i. defaultPasswordBytes ! (i - n)) [n..<32] @ drop 32 h"
    using assms by (subst foldl_store) (simp_all add: n_def)
  also have "map ((!) p) [0..<n] = take 32 p"
    by (rule nth_equalityI) (auto simp: n_def)
  also have "map (\<lambda>i. defaultPasswordBytes ! (i - n)) [n..<32] = take (32 - n) defaultPasswordBytes"
    by (rule nth_equalityI) (simp_all add: d)
  finally show ?thesis by (simp add: pad_password_def n_def p_def min_def)
qed

lemma length_rc4_encryptBlock [simp]: "length (fst (rc4_encryptBlock xs c)) = length xs"
  by (induction xs c rule: rc4_encryptBlock.induct) (auto split: prod.split)

lemma rc4_involutive [simp]: "fst (rc4_encryptBlock (fst (rc4_encryptBlock data c)) c) = data"
  using rc4_inverse [of data c] by (simp add: rc4_decryptBlock_def)

lemma foldl_involutive:
  assumes "\<And>x j. f (f x j) j = x"
  shows "foldl f (foldl f x ks) (rev ks) = x"
  using assms by (induction ks rule: rev_induct) simp_all

text \<open>A digest depends only on the bytes it is told to read.\<close>

lemma calculateMD5_take: "n \<le> length data \<Longrightarrow> calculateMD5 data 0 n = calculateMD5 (take n data) 0 n"
proof -
  assume "n \<le> length data"
  then have "copy_loop data 0 n p = copy_loop (take n data) 0 n p" for p
    unfolding copy_loop_def by (intro foldl_cong) auto
  then have "md5_padded data 0 n = md5_padded (take n data) 0 n" by (simp add: md5_padded_def)
  then show ?thesis by (simp add: calculateMD5_def)
qed

section \<open>The algorithms of the PDF specification\<close>

text \<open>
  The reference definitions: how a writer of revision 2 to 4 computes the key of the file
  and the entries O and U of the encryption dictionary, on byte strings.
\<close>

definition md5 :: "bytes \<Rightarrow> bytes" where
  "md5 m = calculateMD5 m 0 (length m)"

definition is_rev :: "rounding \<Rightarrow> nat \<Rightarrow> pobj \<Rightarrow> bool" where
  "is_rev fl n revision \<longleftrightarrow> num_le (Num (of_nat n)) (obj_num fl revision)"

definition file_message :: "bytes \<Rightarrow> bytes \<Rightarrow> bytes \<Rightarrow> u32 \<Rightarrow> bool \<Rightarrow> bytes" where
  "file_message fileId password own flags metadataMark =
     pad_password password @ own @ le_bytes flags @ fileId @ (if metadataMark then replicate 4 0xff else [])"

definition file_key :: "rounding \<Rightarrow> bytes \<Rightarrow> bytes \<Rightarrow> bytes \<Rightarrow> pobj \<Rightarrow> pobj \<Rightarrow> nat \<Rightarrow> bool \<Rightarrow> bytes" where
  "file_key fl fileId password own flags revision keyLength encryptMetadata =
     (let n = keyLength div 8;
          h = md5 (file_message fileId password own (toInt32 (obj_num fl flags)) (is_rev fl 4 revision \<and> \<not> encryptMetadata))
      in take n (if is_rev fl 3 revision then ((\<lambda>h. calculateMD5 h 0 n) ^^ 50) h else h))"

definition rc4_layers :: "bytes \<Rightarrow> nat list \<Rightarrow> bytes \<Rightarrow> bytes" where
  "rc4_layers key ks data = foldl (\<lambda>d j. fst (rc4_encryptBlock d (mk_rc4 (xor_key key (length key) j)))) data ks"

definition user_entry :: "rounding \<Rightarrow> bytes \<Rightarrow> bytes \<Rightarrow> pobj \<Rightarrow> bytes" where
  "user_entry fl fileId key revision =
     (if is_rev fl 3 revision then rc4_layers key [0..<20] (md5 (defaultPasswordBytes @ fileId))
      else fst (rc4_encryptBlock defaultPasswordBytes (mk_rc4 key)))"

definition owner_entry :: "rounding \<Rightarrow> bytes \<Rightarrow> bytes \<Rightarrow> pobj \<Rightarrow> nat \<Rightarrow> bytes" where
  "owner_entry fl ownerPw userPw revision keyLength =
     (let h = md5 (pad_password ownerPw)
      in if is_rev fl 3 revision
         then rc4_layers (take (keyLength div 8) ((md5 ^^ 50) h)) [0..<20] (pad_password userPw)
         else fst (rc4_encryptBlock (pad_password userPw) (mk_rc4 (take (keyLength div 8) h))))"

lemma is_rev_fold: "num_le (Num 3) (obj_num fl r) = is_rev fl 3 r" "num_le (Num 4) (obj_num fl r) = is_rev fl 4 r"
  by (simp_all add: is_rev_def)

lemma length_md5 [simp]: "length (md5 m) = 16"
  by (simp add: md5_def)

lemma length_md5_iter: "0 < n \<Longrightarrow> length ((md5 ^^ n) h) = 16"
  by (cases n) auto

lemma xor_key_0: "xor_key key (length key) 0 = key"
  by (auto simp: xor_key_def intro: nth_equalityI)

lemma xor_key_take: "n \<le> length key \<Longrightarrow> xor_key (take n key) (length (take n key)) j = xor_key key n j"
  by (simp add: xor_key_def)

subsection \<open>The owner password\<close>

lemma decodeUserPassword_owner_entry:
  assumes "keyLength \<le> 128"
  shows "decodeUserPassword fl ownerPw (owner_entry fl ownerPw userPw revision keyLength) revision keyLength = pad_password userPw"
proof -
  have w: "write_password (Some ownerPw) (zeros 32) = pad_password ownerPw" by (simp add: write_password_eq zeros_def)
  have m: "calculateMD5 (pad_password ownerPw) 0 32 = md5 (pad_password ownerPw)" by (simp add: md5_def)
  have it: "(\<lambda>hash. calculateMD5 hash 0 (length hash)) = md5" by (simp add: md5_def fun_eq_iff)
  have n: "keyLength div 8 \<le> length ((md5 ^^ 50) (md5 (pad_password ownerPw)))"
    using assms by (subst length_md5_iter) auto
  show ?thesis
    using foldl_involutive [of "\<lambda>d j. fst (rc4_encryptBlock d (mk_rc4 (xor_key ((md5 ^^ 50) (md5 (pad_password ownerPw)))
        (keyLength div 8) j)))" "pad_password userPw" "[0..<20]"] xor_key_take [OF n]
    by (simp add: decodeUserPassword_def owner_entry_def rc4_layers_def is_rev_def Let_def w m it)
qed

subsection \<open>The user password\<close>

lemma le_bytes_low8: "le_bytes w = [low8 w, low8 (shr w 8), low8 (shr w 16), low8 (shr w 24)]"
  by (simp add: le_bytes_def)

lemma update4: "length h \<ge> i + 4 \<Longrightarrow> h[i := a, i + 1 := b, i + 2 := c, i + 3 := d] = take i h @ [a, b, c, d] @ drop (i + 4) h"
  by (rule nth_equalityI)
    (auto simp: nth_append nth_list_update nth_Cons split: nat.split intro!: arg_cong [of _ _ "(!) h"])

lemma arr_fill_tail: "arr_fill (xs @ zeros n) v (length xs) (length xs + n) = xs @ replicate n v"
  by (simp add: arr_fill_def Let_def zeros_def)

lemma key_hashData_message:
  assumes "key_hashData fileId password own flags mark = (h, i)"
  shows "i \<le> length h \<and> take i h = file_message fileId (case password of Some p \<Rightarrow> p | None \<Rightarrow> []) own flags mark
    \<and> length h = 40 + length own + length fileId"
proof -
  define p where "p = pad_password (case password of Some p \<Rightarrow> p | None \<Rightarrow> [])"
  have p: "length p = 32" by (simp add: p_def)
  have w: "write_password password (zeros (40 + length own + length fileId)) = p @ zeros (8 + length own + length fileId)"
    by (simp add: write_password_eq p_def add.assoc)
  have b1: "blit (p @ zeros (8 + length own + length fileId)) own 32 = p @ own @ zeros (8 + length fileId)"
    by (simp add: blit_def p)
  define h2 where "h2 = p @ own @ le_bytes flags @ zeros (4 + length fileId)"
  have b2: "(p @ own @ zeros (8 + length fileId))[32 + length own := low8 flags, 32 + length own + 1 := low8 (shr flags 8),
      32 + length own + 2 := low8 (shr flags 16), 32 + length own + 3 := low8 (shr flags 24)] = h2"
    by (subst update4) (simp_all add: p h2_def le_bytes_low8)
  have l: "length (le_bytes flags) = 4" by (simp add: le_bytes_low8)
  have b3: "blit h2 fileId (32 + length own + 4) = p @ own @ le_bytes flags @ fileId @ zeros 4"
    by (simp add: blit_def p l h2_def)
  let ?h = "p @ own @ le_bytes flags @ fileId @ zeros 4"
  let ?i = "32 + length own + 4 + length fileId"
  have "(h, i) = (if mark then (arr_fill ?h 0xff ?i (?i + 4), ?i + 4) else (?h, ?i))"
    using assms unfolding key_hashData_def Let_def w b1 b2 b3 by simp
  then show ?thesis
    using arr_fill_tail [of "p @ own @ le_bytes flags @ fileId" 4 "0xff"]
    by (cases mark) (simp_all add: file_message_def p l add.commute add.left_commute flip: p_def)
qed

lemma check_data_user_entry:
  assumes "32 + length fileId \<le> length hashData"
  shows "check_data (is_rev fl 3 revision) hashData fileId key = user_entry fl fileId key revision"
proof -
  have d: "length defaultPasswordBytes = 32" by (simp add: defaultPasswordBytes_def)
  have "take (32 + length fileId) (blit (blit hashData defaultPasswordBytes 0) fileId 32) = defaultPasswordBytes @ fileId"
    using assms by (simp add: blit_def d)
  then have "calculateMD5 (blit (blit hashData defaultPasswordBytes 0) fileId 32) 0 (32 + length fileId) = md5 (defaultPasswordBytes @ fileId)"
    using assms d by (subst calculateMD5_take) (simp_all add: md5_def)
  moreover have "[0..<20] = 0 # [1..<20]" by (simp add: upt_rec)
  ultimately show ?thesis by (simp add: check_data_def user_entry_def rc4_layers_def Let_def xor_key_0)
qed

lemma list_all_prefix: "list_all (\<lambda>k. k < length ys \<and> ys ! k = xs ! k) [0..<length xs] \<longleftrightarrow> prefix xs ys"
proof
  assume a: "list_all (\<lambda>k. k < length ys \<and> ys ! k = xs ! k) [0..<length xs]"
  then have "k < length xs \<Longrightarrow> k < length ys" for k by (simp add: list_all_iff)
  then have "length xs \<le> length ys" using linorder_not_less by blast
  with a have "take (length xs) ys = xs" by (auto simp: list_all_iff intro: nth_equalityI)
  then show "prefix xs ys" by (metis take_is_prefix)
qed (auto simp: list_all_iff prefix_def nth_append)

lemma prepareKeyData_eq:
  "prepareKeyData fl fileId password own user flags revision keyLength encryptMetadata =
     (let key = file_key fl fileId (case password of Some p \<Rightarrow> p | None \<Rightarrow> []) own flags revision keyLength encryptMetadata
      in if prefix (user_entry fl fileId key revision) user then Some key else None)"
proof -
  obtain h i where hi: "key_hashData fileId password own (toInt32 (obj_num fl flags)) (is_rev fl 4 revision \<and> \<not> encryptMetadata) = (h, i)"
    by fastforce
  note h = key_hashData_message [OF hi]
  then have m: "calculateMD5 h 0 i = md5 (file_message fileId
      (case password of Some p \<Rightarrow> p | None \<Rightarrow> []) own (toInt32 (obj_num fl flags)) (is_rev fl 4 revision \<and> \<not> encryptMetadata))"
    and l: "32 + length fileId \<le> length h"
    using calculateMD5_take [of i h] length_take [of i h] by (simp_all add: md5_def)
  show ?thesis
    by (simp only: prepareKeyData_def file_key_def Let_def is_rev_fold hi prod.case m check_data_user_entry [OF l] list_all_prefix)
qed

section \<open>Revisions 5 and 6: the hash and the keys\<close>

lemma length_pdf20_round:
  assumes "32 \<le> length k"
  shows "\<exists>k' e. pdf20_round password userBytes k = Inr (k', e) \<and> 32 \<le> length k'"
proof -
  have "length (subarray k 0 16) = 16" using assms subarray_0 [of k 16] by (simp add: min_def)
  then obtain c where "mk_aes128 (subarray k 0 16) = Inr c"
    by (simp add: mk_aes128_def expandKey128_def arr_set_ok)
  then show ?thesis by (simp add: pdf20_round_def Let_def calculateSHA384_def)
qed

lemma pdf20_loop_total:
  assumes "32 \<le> length k"
  shows "\<exists>h. pdf20_loop password userBytes k e i = Inr h \<and> length h = 32"
  using assms
proof (induction "287 - i" arbitrary: k e i rule: less_induct)
  case less
  show ?case
  proof (cases "pdf20_more e i")
    case True
    obtain k' e' where r: "pdf20_round password userBytes k = Inr (k', e')" "32 \<le> length k'"
      using length_pdf20_round [OF less.prems] by blast
    moreover have "287 - (i + 1) < 287 - i" using pdf20_more_bound [OF True] by simp
    ultimately show ?thesis using less.hyps True by (subst pdf20_loop.simps) simp
  next
    case False
    then show ?thesis using less.prems subarray_0 [of k 32] by (subst pdf20_loop.simps) (simp add: min_def)
  qed
qed

lemma pdf20_hash_total: "\<exists>h. pdf20_hash password inp userBytes = Inr h \<and> length h = 32"
  using subarray_0 [of "calculateSHA256 inp 0 (length inp)" 32] by (simp add: pdf20_hash_def pdf20_loop_total)

text \<open>
  The reference: the hash of a password with a salt, and the key of the file encrypted
  under a hash, as a writer stores it.
\<close>

definition hash_value :: "pdf_hash \<Rightarrow> bytes \<Rightarrow> bytes \<Rightarrow> bytes \<Rightarrow> bytes" where
  "hash_value hash password salt userBytes =
     (case hash password (password @ salt @ userBytes) userBytes of Inr h \<Rightarrow> h | Inl _ \<Rightarrow> [])"

definition wrap_key :: "bytes \<Rightarrow> bytes \<Rightarrow> bytes" where
  "wrap_key key fileKey =
     (case mk_aes256 key of Inr c \<Rightarrow> fst (aes_encrypt fileKey (Some (zeros 16)) c) | Inl _ \<Rightarrow> [])"

lemma aes_cbc_inverse:
  assumes "aes_aligned c" and "\<not> ae_second c" and "16 dvd length data" and "data \<noteq> []"
  shows "fst (aes_decryptBlock (fst (aes_encrypt data (Some iv) c)) False (Some iv) c) = data"
proof -
  have bs: "concat (to_blocks data) = data" "blocks (to_blocks data)" "to_blocks data \<noteq> []"
    using to_blocks_spec [OF assms(3)] assms(4) by simp_all
  let ?cs = "cbc_enc_blocks (aes_enc c) iv (to_blocks data)"
  have cs: "blocks ?cs" "?cs \<noteq> []"
    using aes.blocks_enc [OF bs(2)] bs(3) by (simp, cases "to_blocks data", auto simp: Let_def)
  have "fst (aes_encrypt data (Some iv) c) = concat ?cs"
    using aes_encrypt_blocks [OF assms(1) bs(2,3), of iv] bs(1) by simp
  moreover have "aes_decryptBlock d False (Some iv) c = aes_decryptBlock2 d False (aes_with_iv iv c)" for d
    using assms(2) by (simp add: aes_decryptBlock_def aes_with_iv_def)
  ultimately show ?thesis
    using assms(1) cs aes.cbc_inverse [OF bs(2), of "ae_cycles c" "ae_keySize c" "ae_key c" iv] bs(1)
    by (simp add: aes_decryptBlock2_blocks Let_def)
qed

lemma unwrap_key:
  assumes "length key = 32" and "length fileKey = 32"
  obtains c where "mk_aes256 key = Inr c" and "fst (aes_decryptBlock (wrap_key key fileKey) False (Some (zeros 16)) c) = fileKey"
proof -
  obtain k where "mk_aes256 key = Inr (mk_aes 14 224 k)"
    using assms(1) by (simp add: mk_aes256_def expandKey256_def arr_set_ok)
  moreover from this have "fst (aes_decryptBlock (wrap_key key fileKey) False (Some (zeros 16)) (mk_aes 14 224 k)) = fileKey"
    using assms(2) by (simp add: wrap_key_def aes_cbc_inverse flip: length_greater_0_conv)
  ultimately show ?thesis by (rule that)
qed

lemma zeros_0 [simp]: "zeros 0 = []"
  by (simp add: zeros_def)

text \<open>What the key methods rely on of a hash: it returns 32 bytes.\<close>

locale key_hash =
  fixes hash :: pdf_hash
  assumes hash_total: "\<exists>h. hash password inp userBytes = Inr h \<and> length h = 32"
begin

lemma hash_eq: "hash password (password @ salt @ userBytes) userBytes = Inr (hash_value hash password salt userBytes)"
  using hash_total [of password "password @ salt @ userBytes" userBytes] by (auto simp: hash_value_def)

lemma length_hash_value [simp]: "length (hash_value hash password salt userBytes) = 32"
  using hash_total [of password "password @ salt @ userBytes" userBytes] by (auto simp: hash_value_def)

lemma checkUserPassword_eq:
  assumes "length salt = 8"
  shows "checkUserPassword hash password salt userPassword = Inr (hash_value hash password salt [] = userPassword)"
  using assms hash_eq [of password salt "[]"] by (simp add: checkUserPassword_def arr_set_def blit_def)

lemma checkOwnerPassword_eq:
  assumes "length salt = 8" and "length userBytes = 48"
  shows "checkOwnerPassword hash password salt userBytes ownerPassword = Inr (hash_value hash password salt userBytes = ownerPassword)"
  using assms hash_eq [of password salt userBytes] by (simp add: checkOwnerPassword_def arr_set_def blit_def)

lemma getUserKey_eq:
  assumes "length salt = 8" and "length fileKey = 32"
  shows "getUserKey hash password salt (wrap_key (hash_value hash password salt []) fileKey) = Inr fileKey"
proof -
  obtain c where "mk_aes256 (hash_value hash password salt []) = Inr c"
    "fst (aes_decryptBlock (wrap_key (hash_value hash password salt []) fileKey) False (Some (zeros 16)) c) = fileKey"
    using unwrap_key [OF length_hash_value assms(2)] .
  then show ?thesis using assms(1) hash_eq [of password salt "[]"] by (simp add: getUserKey_def arr_set_def blit_def)
qed

lemma getOwnerKey_eq:
  assumes "length salt = 8" and "length userBytes = 48" and "length fileKey = 32"
  shows "getOwnerKey hash password salt userBytes (wrap_key (hash_value hash password salt userBytes) fileKey) = Inr fileKey"
proof -
  obtain c where "mk_aes256 (hash_value hash password salt userBytes) = Inr c"
    "fst (aes_decryptBlock (wrap_key (hash_value hash password salt userBytes) fileKey) False (Some (zeros 16)) c) = fileKey"
    using unwrap_key [OF length_hash_value assms(3)] .
  then show ?thesis using assms(1,2) hash_eq [of password salt userBytes] by (simp add: getOwnerKey_def arr_set_def blit_def)
qed

end

interpretation h17: key_hash pdf17_hash
  by unfold_locales (simp add: pdf17_hash_def)

interpretation h20: key_hash pdf20_hash
  by unfold_locales (rule pdf20_hash_total)

lemma key20_hash: "key_hash (if revision = PNum (Num 6) then pdf20_hash else pdf17_hash)"
  using h17.key_hash_axioms h20.key_hash_axioms by simp

text \<open>
  C20: the password hash of revision 6 always returns 32 bytes.  The loop, whose end depends
  on the last byte it has encrypted, never runs more than 287 times, and no step of it
  raises: the keys it builds always have the length the cipher takes.
\<close>

theorem pdf20_hash_returns:
  "(\<exists>h. pdf20_hash password inp userBytes = Inr h \<and> length h = 32) \<and> \<not> pdf20_more e (287 + i)"
  using pdf20_hash_total pdf20_more_bound [of e "287 + i"] by auto

text \<open>
  C19: in revisions 5 and 6 both passwords open the document.  If the entries U and UE were
  computed from a user password and the key of the file, \<open>createEncryptionKey20\<close> returns
  that key for the user password; if O and OE were computed from an owner password, it
  returns the key for the owner password, unless that also passes as the user password.
\<close>

theorem password20_opens:
  assumes "length password \<le> 127" and "password \<noteq> []" and "length fileKey = 32"
    and "length uvs = 8" and "length uks = 8" and "length ovs = 8" and "length oks = 8" and "length uBytes = 48"
    and hash: "hash = (if revision = PNum (Num 6) then pdf20_hash else pdf17_hash)"
    and "user' \<noteq> hash_value hash password uvs []"
  shows "createEncryptionKey20 revision (Some password) own ovs oks uBytes (hash_value hash password uvs []) uvs uks
      oe (wrap_key (hash_value hash password uks []) fileKey) = Inr (Some fileKey) \<and>
    createEncryptionKey20 revision (Some password) (hash_value hash password ovs uBytes) ovs oks uBytes user' uvs uks
      (wrap_key (hash_value hash password oks uBytes) fileKey) ue = Inr (Some fileKey)"
proof -
  note k = key20_hash [of revision, folded hash]
  show ?thesis
    using assms(1-8) assms(10)
    by (auto simp: createEncryptionKey20_def Let_def hash [symmetric] key_hash.checkUserPassword_eq [OF k]
        key_hash.checkOwnerPassword_eq [OF k] key_hash.getUserKey_eq [OF k] key_hash.getOwnerKey_eq [OF k])
qed

theorem password20_opens_witness:
  "createEncryptionKey20 (PNum (Num 6)) (Some [112]) [] (zeros 8) (zeros 8) (zeros 48)
      (hash_value pdf20_hash [112] (zeros 8) []) (zeros 8) (zeros 8)
      [] (wrap_key (hash_value pdf20_hash [112] (zeros 8) []) (zeros 32)) = Inr (Some (zeros 32)) \<and>
    createEncryptionKey20 (PNum (Num 6)) (Some [112]) (hash_value pdf20_hash [112] (zeros 8) (zeros 48)) (zeros 8) (zeros 8)
      (zeros 48) [] (zeros 8) (zeros 8)
      (wrap_key (hash_value pdf20_hash [112] (zeros 8) (zeros 48)) (zeros 32)) [] = Inr (Some (zeros 32))"
proof -
  have "[] \<noteq> hash_value pdf20_hash [112] (zeros 8) []" using h20.length_hash_value [of "[112]" "zeros 8" "[]"] by force
  then show ?thesis by (intro password20_opens) simp_all
qed

end
