(* ===== verification/Crypt_Streams.thy ===== *)
theory Crypt_Streams
  imports Streams Cipher_Modes
begin

text \<open>
  \<open>DecryptStream\<close>: the decryption of a stream in chunks of 512 bytes, one chunk ahead so
  that the last one is known to be the last.  The stream yields exactly what decrypting
  the whole data at once yields.
\<close>

section \<open>DecryptStream\<close>

record crypt_state =
  cs_stream :: stream
  cs_next :: "bytes option"
  cs_cipher :: cipher

definition crypt_readBlock :: "crypt_state dstream \<Rightarrow> crypt_state dstream res" where
  "crypt_readBlock d =
     (let x = sub d;
          (chunk, s1) = (case cs_next x of Some ch \<Rightarrow> (ch, cs_stream x) | None \<Rightarrow> getBytes 512 (cs_stream x))
      in if chunk = [] then Inr (d\<lparr>eof := True, sub := x\<lparr>cs_stream := s1\<rparr>\<rparr>)
         else
           let (nextChunk, s2) = getBytes 512 s1;
               hasMoreData = nextChunk \<noteq> [];
               (out, c') = decryptBlock chunk (\<not> hasMoreData) (cs_cipher x)
           in append_chunk out \<lparr>cs_stream = s2, cs_next = Some nextChunk, cs_cipher = c'\<rparr> d)"

definition decryptStream :: "bytes \<Rightarrow> rat \<Rightarrow> cipher \<Rightarrow> crypt_state dstream" where
  "decryptStream bs maybeLength c =
     mk_dstream maybeLength \<lparr>cs_stream = mk_stream bs None None, cs_next = None, cs_cipher = c\<rparr>"

definition crypt_block :: "bytes \<Rightarrow> crypt_state \<Rightarrow> (bytes \<times> bool \<times> crypt_state) res" where
  "crypt_block c x =
     (let (chunk, s1) = (case cs_next x of Some ch \<Rightarrow> (ch, cs_stream x) | None \<Rightarrow> getBytes 512 (cs_stream x))
      in if chunk = [] then Inr ([], True, x\<lparr>cs_stream := s1\<rparr>)
         else
           let (nextChunk, s2) = getBytes 512 s1;
               (out, c') = decryptBlock chunk (nextChunk = []) (cs_cipher x)
           in Inr (out, False, \<lparr>cs_stream = s2, cs_next = Some nextChunk, cs_cipher = c'\<rparr>))"

text \<open>The data still to be decrypted.\<close>

definition pending :: "crypt_state \<Rightarrow> bytes" where
  "pending x = (case cs_next x of Some ch \<Rightarrow> ch @ rest (cs_stream x) | None \<Rightarrow> rest (cs_stream x))"

definition crypt_inv :: "crypt_state \<Rightarrow> bool" where
  "crypt_inv x \<longleftrightarrow> stream_ok (cs_stream x) \<and>
     (case cs_next x of Some ch \<Rightarrow> ch = take 512 (pending x) | None \<Rightarrow> True)"

lemma crypt_block_cases:
  assumes "crypt_inv x"
  obtains (finished) x' where "pending x = []" and "crypt_block c x = Inr ([], True, x')"
  | (more) out c' x' where "pending x \<noteq> []"
      and "decryptBlock (take 512 (pending x)) (length (pending x) \<le> 512) (cs_cipher x) = (out, c')"
      and "crypt_block c x = Inr (out, False, x')" and "crypt_inv x'" and "cs_cipher x' = c'"
      and "pending x' = drop 512 (pending x)"
proof -
  obtain chunk s1 where c: "(case cs_next x of Some ch \<Rightarrow> (ch, cs_stream x) | None \<Rightarrow> getBytes 512 (cs_stream x)) = (chunk, s1)"
    and chunk: "chunk = take 512 (pending x)" and s1: "stream_ok s1" "rest s1 = drop 512 (pending x)"
  proof (cases "cs_next x")
    case None
    obtain s' where "getBytes 512 (cs_stream x) = (take 512 (rest (cs_stream x)), s')"
        "rest s' = drop 512 (rest (cs_stream x))" "stream_ok s'"
      using assms getBytes_rest [of "cs_stream x" 512] by (auto simp: crypt_inv_def)
    with None that show ?thesis by (simp add: pending_def)
  next
    case (Some ch)
    with assms have ch: "ch = take 512 (pending x)" and ok: "stream_ok (cs_stream x)"
      by (simp_all add: crypt_inv_def)
    have "ch @ rest (cs_stream x) = take 512 (pending x) @ drop 512 (pending x)"
      unfolding append_take_drop_id using Some by (simp add: pending_def)
    then have "rest (cs_stream x) = drop 512 (pending x)" by (metis ch same_append_eq)
    with Some ch ok show ?thesis by (intro that) auto
  qed
  show thesis
  proof (cases "pending x = []")
    case True
    with c chunk show ?thesis by (intro finished) (auto simp: crypt_block_def)
  next
    case False
    obtain s2 where s2: "getBytes 512 s1 = (take 512 (rest s1), s2)" "rest s2 = drop 512 (rest s1)" "stream_ok s2"
      using getBytes_rest [OF s1(1), of 512] by auto
    obtain out c' where d: "decryptBlock chunk (take 512 (rest s1) = []) (cs_cipher x) = (out, c')"
      by fastforce
    let ?x' = "\<lparr>cs_stream = s2, cs_next = Some (take 512 (rest s1)), cs_cipher = c'\<rparr>"
    have p: "pending ?x' = drop 512 (pending x)"
    proof -
      have "pending ?x' = take 512 (rest s1) @ drop 512 (rest s1)" using s2 by (simp add: pending_def)
      then show ?thesis unfolding append_take_drop_id using s1(2) by simp
    qed
    show ?thesis
    proof (rule more [where out = out and c' = c' and x' = ?x'])
      show "decryptBlock (take 512 (pending x)) (length (pending x) \<le> 512) (cs_cipher x) = (out, c')"
        using d chunk s1 by simp
      show "crypt_block c x = Inr (out, False, ?x')"
        using False c chunk s2 d by (simp add: crypt_block_def)
      show "crypt_inv ?x'" using s2 p s1 by (simp add: crypt_inv_def)
    qed (use False p in simp_all)
  qed
qed

lemma crypt_refines:
  assumes "ds_ok d" and "\<not> eof d" and "crypt_block (content d) (sub d) = Inr (out, fin, x')"
  shows "\<exists>d'. crypt_readBlock d = Inr d' \<and> appends d out fin x' d'"
proof -
  let ?x = "sub d"
  obtain chunk s1 where c: "(case cs_next ?x of Some ch \<Rightarrow> (ch, cs_stream ?x) | None \<Rightarrow> getBytes 512 (cs_stream ?x)) = (chunk, s1)"
    by fastforce
  show ?thesis
  proof (cases "chunk = []")
    case True
    with assms c show ?thesis
      by (auto simp: crypt_block_def crypt_readBlock_def appends_def ds_ok_def content_def)
  next
    case False
    with assms c append_chunk_appends [OF assms(1,2)] show ?thesis
      by (auto simp: crypt_block_def crypt_readBlock_def split: prod.splits)
  qed
qed

interpretation crypt: block_decoder crypt_readBlock crypt_block "\<lambda>c x. crypt_inv x" "\<lambda>x. length (pending x)"
proof unfold_locales
  show "crypt_readBlock d = Inl e" if "crypt_block (content d) (sub d) = Inl e" for d e
    using that by (auto simp: crypt_block_def Let_def split: prod.splits if_splits)
  show "crypt_inv x'" if "crypt_inv x" "crypt_block c x = Inr (out, False, x')" for c x out x'
    using that by (cases rule: crypt_block_cases [where c = c]) auto
  show "length (pending x') < length (pending x)" if "crypt_inv x" "crypt_block c x = Inr (out, False, x')" for c x out x'
    using that by (cases rule: crypt_block_cases [where c = c]) auto
qed (rule crypt_refines)

section \<open>Decryption in chunks\<close>

text \<open>A cipher run over a list of chunks, the last one marked as the last.\<close>

fun decrypt_chunks :: "bytes list \<Rightarrow> cipher \<Rightarrow> bytes \<times> cipher" where
  "decrypt_chunks [] c = ([], c)"
| "decrypt_chunks [d] c = decryptBlock d True c"
| "decrypt_chunks (d # e # ds) c =
     (let (o1, c1) = decryptBlock d False c; (o2, c2) = decrypt_chunks (e # ds) c1 in (o1 @ o2, c2))"

function chunks512 :: "bytes \<Rightarrow> bytes list" where
  "chunks512 xs = (if xs = [] then [] else take 512 xs # chunks512 (drop 512 xs))"
  by pat_completeness auto
termination by (relation "measure length") auto

declare chunks512.simps [simp del]

lemma chunks512_Nil [simp]: "chunks512 xs = [] \<longleftrightarrow> xs = []"
  by (subst chunks512.simps) simp

lemma chunks512_empty [simp]: "chunks512 [] = []"
  by simp

lemma concat_chunks512: "concat (chunks512 xs) = xs"
  by (induction xs rule: chunks512.induct) (subst chunks512.simps, simp)

lemma chunks512_aligned: "16 dvd length xs \<Longrightarrow> d \<in> set (chunks512 xs) \<Longrightarrow> d \<noteq> [] \<and> 16 dvd length d"
proof (induction xs rule: chunks512.induct)
  case (1 xs)
  show ?case
  proof (cases "xs = []")
    case False
    have "16 dvd length (drop 512 xs)" "16 dvd length (take 512 xs)"
      using "1.prems"(1) by (simp_all add: dvd_diff_nat min_def)
    with 1 False show ?thesis by (subst (asm) (2) chunks512.simps) auto
  qed (use 1 in \<open>simp add: chunks512.simps\<close>)
qed

lemma crypt_decode_all:
  "crypt_inv x \<Longrightarrow> decode_all crypt_block c x = Some (Inr (c @ fst (decrypt_chunks (chunks512 (pending x)) (cs_cipher x))))"
proof (induction "length (pending x)" arbitrary: c x rule: less_induct)
  case less
  from less.prems show ?case
  proof (cases rule: crypt_block_cases [where c = c])
    case (finished x')
    then show ?thesis by (simp add: chunks512.simps)
  next
    case (more out c' x')
    have "length (pending x') < length (pending x)" using more by simp
    from less.hyps [OF this more(4)] more(5,6)
    have rec: "decode_all crypt_block (c @ out) x' = Some (Inr ((c @ out) @ fst (decrypt_chunks (chunks512 (drop 512 (pending x))) c')))"
      by simp
    have ch: "chunks512 (pending x) = take 512 (pending x) # chunks512 (drop 512 (pending x))"
      using more(1) by (subst chunks512.simps) simp
    show ?thesis
    proof (cases "length (pending x) \<le> 512")
      case True
      then have "chunks512 (drop 512 (pending x)) = []" by simp
      with True more rec ch show ?thesis by (simp add: decode_all_more)
    next
      case False
      then obtain e ds where e: "chunks512 (drop 512 (pending x)) = e # ds"
        by (cases "chunks512 (drop 512 (pending x))") auto
      with False more rec ch show ?thesis by (simp add: decode_all_more split_beta)
    qed
  qed
qed

lemma null_chunks: "decrypt_chunks ds NullCipher = (concat ds, NullCipher)"
  by (induction ds NullCipher rule: decrypt_chunks.induct) auto

lemma rc4_chunks: "decrypt_chunks ds (ARCFourCipher c) = decryptBlock (concat ds) True (ARCFourCipher c)"
proof (induction ds arbitrary: c)
  case Nil
  show ?case by (simp add: rc4_decryptBlock_def)
next
  case (Cons d ds)
  show ?case
  proof (cases ds)
    case (Cons e es)
    obtain o1 c1 where d: "rc4_encryptBlock d c = (o1, c1)" by fastforce
    obtain o2 c2 where e: "rc4_encryptBlock (concat ds) c1 = (o2, c2)" by fastforce
    have "rc4_encryptBlock (d @ concat ds) c = (o1 @ o2, c2)" by (simp add: rc4_append d e)
    with Cons Cons.IH [of c1] d e show ?thesis by (simp add: rc4_decryptBlock_def)
  qed simp
qed

lemma aes_chunks2:
  assumes "aes_aligned c" and "ae_second c" and "ds \<noteq> []" and "\<forall>d \<in> set ds. d \<noteq> [] \<and> 16 dvd length d"
  shows "fst (decrypt_chunks ds (AESCipher c)) = fst (aes_decryptBlock2 (concat ds) True c)"
  using assms
proof (induction ds arbitrary: c)
  case (Cons d ds)
  have d: "concat (to_blocks d) = d" "blocks (to_blocks d)" "to_blocks d \<noteq> []"
    using to_blocks_spec [of d] Cons.prems(4) by simp_all
  show ?case
  proof (cases ds)
    case Nil
    with Cons.prems show ?thesis by (simp add: aes_decryptBlock_later)
  next
    case (Cons e es)
    have "16 dvd length (concat ds)" using Cons.prems(4) by (induction ds) auto
    moreover have "concat ds \<noteq> []" using Cons Cons.prems(4) by auto
    ultimately have r: "concat (to_blocks (concat ds)) = concat ds" "blocks (to_blocks (concat ds))"
      "to_blocks (concat ds) \<noteq> []"
      using to_blocks_spec [of "concat ds"] by simp_all
    let ?ps = "cbc_dec_blocks (aes_dec c) (ae_iv c) (to_blocks d)"
    let ?c1 = "c\<lparr>ae_buffer := zeros 16, ae_bufferLength := Some 0, ae_iv := last (to_blocks d)\<rparr>"
    let ?qs = "cbc_dec_blocks (aes_dec c) (last (to_blocks d)) (to_blocks (concat ds))"
    have c1: "aes_decryptBlock2 d False c = (concat ?ps, ?c1)"
      using aes_decryptBlock2_blocks [OF Cons.prems(1) d(2,3), of False] d(1) by (simp add: Let_def)
    have al: "aes_aligned ?c1" "ae_second ?c1" using Cons.prems(1,2) by (simp_all add: aes_aligned_def)
    have "fst (aes_decryptBlock2 (concat ds) True ?c1) = concat (strip_padding ?qs)"
      using aes_decryptBlock2_blocks [OF al(1) r(2,3), of True] r(1) by (simp add: Let_def)
    with Cons.IH [OF al] Cons Cons.prems(4)
    have IH: "fst (decrypt_chunks ds (AESCipher ?c1)) = concat (strip_padding ?qs)" by simp
    have "fst (aes_decryptBlock2 (concat (d # ds)) True c) = concat (strip_padding (?ps @ ?qs))"
      using aes_decryptBlock2_blocks [OF Cons.prems(1), of "to_blocks d @ to_blocks (concat ds)" True] d r
      by (simp add: Let_def cbc_dec_blocks_append ball_Un)
    also have "strip_padding (?ps @ ?qs) = ?ps @ strip_padding ?qs"
      using r(3) by (intro strip_padding_append) simp
    finally show ?thesis using IH c1 Cons Cons.prems(2)
      by (simp add: aes_decryptBlock_later split_beta)
  qed
qed simp

lemma aes_chunks:
  assumes "aes_aligned c" and "\<not> ae_second c" and "\<forall>d \<in> set ds. d \<noteq> [] \<and> 16 dvd length d"
  shows "fst (decrypt_chunks ds (AESCipher c)) = fst (decryptBlock (concat ds) True (AESCipher c))"
proof (cases ds)
  case Nil
  then show ?thesis using assms(1,2) by (simp add: aes_decryptBlock_def aes_aligned_def)
next
  case (Cons d es)
  then have "16 \<le> length d" using assms(3) by (auto dest: dvd_imp_le)
  then obtain iv t where d: "d = iv @ t" "length iv = 16"
    by (metis append_take_drop_id length_take min.absorb2)
  let ?c = "aes_with_iv iv c"
  have c: "aes_aligned ?c" "ae_second ?c" using assms(1) by simp_all
  have first: "aes_decryptBlock (iv @ xs) finalize None c = aes_decryptBlock2 xs finalize ?c" for xs finalize
    using aes_decryptBlock_first [OF assms(1,2) d(2)] .
  show ?thesis
  proof (cases es)
    case Nil
    then show ?thesis using Cons by simp
  next
    case Cons2: (Cons e fs)
    have nil: "aes_decryptBlock2 [] f ?c = ([], ?c)" for f
      using c(1) by (simp add: aes_decryptBlock2_def aes_aligned_def aes_with_iv_def)
    have t: "16 dvd length t" using assms(3) Cons d by (simp add: dvd_add_right_iff)
    show ?thesis
    proof (cases "t = []")
      case True
      then have "fst (decrypt_chunks ds (AESCipher c)) = fst (decrypt_chunks es (AESCipher ?c))"
        using Cons Cons2 d first [of "[]" False] nil by (simp add: split_beta)
      also have "\<dots> = fst (aes_decryptBlock2 (concat es) True ?c)"
        by (rule aes_chunks2 [OF c]) (use Cons Cons2 assms(3) in auto)
      finally show ?thesis using True Cons d first [of "concat es" True] by simp
    next
      case False
      have "fst (decrypt_chunks (t # es) (AESCipher ?c)) = fst (aes_decryptBlock2 (concat (t # es)) True ?c)"
        by (rule aes_chunks2 [OF c]) (use Cons False t assms(3) in auto)
      then show ?thesis using Cons Cons2 d first c(2)
        by (simp add: split_beta aes_decryptBlock_later)
    qed
  qed
qed

text \<open>A cipher as it is when a stream is opened or a string is decrypted.\<close>

fun fresh_cipher :: "cipher \<Rightarrow> bool" where
  "fresh_cipher (AESCipher c) = (aes_aligned c \<and> \<not> ae_second c)"
| "fresh_cipher _ = True"

fun is_aes :: "cipher \<Rightarrow> bool" where
  "is_aes (AESCipher c) = True"
| "is_aes _ = False"

lemma fresh_chunks:
  assumes "fresh_cipher c" and "is_aes c \<longrightarrow> 16 dvd length data"
  shows "fst (decrypt_chunks (chunks512 data) c) = fst (decryptBlock data True c)"
proof (cases c)
  case (AESCipher a)
  with assms aes_chunks [of a "chunks512 data"] chunks512_aligned [of data] concat_chunks512 [of data]
  show ?thesis by simp
qed (simp_all add: null_chunks rc4_chunks concat_chunks512 del: decryptBlock.simps(2))

text \<open>
  C25: an encrypted stream is decrypted as a whole.  Reading a DecryptStream in chunks of
  any positive sizes gives the bytes that \<open>decryptBlock\<close> gives for the complete data,
  although the stream decrypts 512 bytes at a time, for RC4, for the identity and for AES
  on data of whole blocks.
\<close>

theorem decryptStream_whole:
  assumes "fresh_cipher c" and "is_aes c \<longrightarrow> 16 dvd length data" and "\<forall>n \<in> set ns. 0 < n"
  shows "\<exists>d. read_chunks crypt_readBlock ns (decryptStream data maybeLength c)
    = Some (Inr (take (sum_list ns) (fst (decryptBlock data True c)), d))"
proof -
  let ?x = "\<lparr>cs_stream = mk_stream data None None, cs_next = None, cs_cipher = c\<rparr>"
  have i: "crypt_inv ?x" by (simp add: crypt_inv_def)
  have "decode_all crypt_block [] ?x = Some (Inr (fst (decryptBlock data True c)))"
    using crypt_decode_all [OF i, of "[]"] fresh_chunks [OF assms(1,2)] by (simp add: pending_def)
  then have "crypt.represents (decryptStream data maybeLength c) (fst (decryptBlock data True c))"
    unfolding decryptStream_def using i by (intro crypt.fresh_represents) simp_all
  from crypt.read_chunks_represents [OF this assms(3)] show ?thesis
    by (simp add: decryptStream_def)
qed

theorem decryptStream_whole_witness:
  "\<exists>d. read_chunks crypt_readBlock [7, 600] (decryptStream (zeros 1024) 0 (AESCipher (mk_aes 10 160 (zeros 176))))
    = Some (Inr (take (sum_list [7, 600]) (fst (decryptBlock (zeros 1024) True (AESCipher (mk_aes 10 160 (zeros 176))))), d))"
  by (rule decryptStream_whole) simp_all

lemma cbc_dec_loop_short:
  "n + length xs < 16 \<Longrightarrow> snd (cbc_dec_loop dec xs buf n iv res) = (n + length xs, iv, res)"
  by (induction xs arbitrary: buf n) (auto simp: Let_def)

text \<open>
  C26: an AES cipher object must be fed whole blocks.  Data that is handed over in pieces
  that are not multiples of 16 bytes is lost, because the number of buffered bytes is
  saved in \<open>bufferLength\<close> and read from \<open>bufferPosition\<close>: 17 bytes followed by 15 give no
  output, while the same 32 bytes in one call give a block.
\<close>

theorem aes_partial_block_lost:
  "\<exists>xs ys. length (xs @ ys) = 32 \<and>
    (let (o1, c1) = aes_decryptBlock xs False None (mk_aes cycles keySize key);
         (o2, c2) = aes_decryptBlock ys False None c1
     in o1 @ o2 = []) \<and>
    length (fst (aes_decryptBlock (xs @ ys) False None (mk_aes cycles keySize key))) = 16"
proof -
  let ?c = "mk_aes cycles keySize key" and ?iv = "zeros 16 :: bytes"
  let ?c1 = "aes_with_iv ?iv ?c"
  have first: "aes_decryptBlock (?iv @ xs) f None ?c = aes_decryptBlock2 xs f ?c1" for xs f
    by (rule aes_decryptBlock_first) simp_all
  have 1: "aes_decryptBlock2 [0] False ?c1 = ([], ?c1\<lparr>ae_buffer := (zeros 16)[0 := 0], ae_bufferLength := Some 1\<rparr>)"
    by (simp add: aes_decryptBlock2_def aes_with_iv_def mk_aes_def)
  have 2: "fst (aes_decryptBlock2 (zeros 15) False (?c1\<lparr>ae_buffer := (zeros 16)[0 := 0], ae_bufferLength := Some 1\<rparr>)) = []"
    using cbc_dec_loop_short [of 0 "zeros 15" "aes_dec ?c" "(zeros 16)[0 := 0]" ?iv "[]"]
    by (simp add: aes_decryptBlock2_def aes_with_iv_def mk_aes_def Let_def split_beta)
  have 3: "length (fst (aes_decryptBlock2 (concat [zeros 16]) False ?c1)) = 16"
    by (subst aes_decryptBlock2_blocks) (simp_all add: Let_def)
  have z: "[0] @ zeros 15 = (zeros 16 :: bytes)" by (simp add: zeros_def numeral_eq_Suc)
  show ?thesis
  proof (intro exI conjI)
    show "length ((?iv @ [0]) @ zeros 15) = 32" by simp
    show "let (o1, c1) = aes_decryptBlock (?iv @ [0]) False None ?c; (o2, c2) = aes_decryptBlock (zeros 15) False None c1
        in o1 @ o2 = []"
      using 2 by (simp add: first 1 aes_decryptBlock_later split_beta)
    show "length (fst (aes_decryptBlock ((?iv @ [0]) @ zeros 15) False None ?c)) = 16"
      using 3 first [of "[0] @ zeros 15" False] z by simp
  qed
qed

end
