(* ===== verification/Security_Handler.thy ===== *)
theory Security_Handler
  imports Key_Derivation Crypt_Streams
begin

text \<open>
  The standard security handler: \<open>CipherTransformFactory\<close>, which checks the password and
  holds the key of the document, and \<open>CipherTransform\<close>, which decrypts the strings and
  streams of one object.  The random initialisation vector of \<open>encryptString\<close>, the Unicode
  normalisation of \<open>saslPrep\<close> and the cross-reference table are arguments.
\<close>

section \<open>CipherTransform\<close>

text \<open>A cipher class with its key bound, as \<open>resolveCipher\<close> returns it.\<close>

datatype cipher_class = NullClass | ARCFourClass bytes | AES128Class bytes | AES256Class bytes

fun new_cipher :: "cipher_class \<Rightarrow> cipher res" where
  "new_cipher NullClass = Inr NullCipher"
| "new_cipher (ARCFourClass key) = Inr (ARCFourCipher (mk_rc4 key))"
| "new_cipher (AES128Class key) = rbind (mk_aes128 key) (\<lambda>c. Inr (AESCipher c))"
| "new_cipher (AES256Class key) = rbind (mk_aes256 key) (\<lambda>c. Inr (AESCipher c))"

record transform =
  tr_cache :: "(jsstr \<times> cipher_class) list"
  tr_embedded :: pobj
  tr_resolve :: "pobj \<Rightarrow> cipher_class res"
  tr_string :: pobj
  tr_stream :: pobj

definition mk_transform :: "(pobj \<Rightarrow> cipher_class res) \<Rightarrow> pobj \<Rightarrow> pobj \<Rightarrow> transform" where
  "mk_transform resolveCipher stringFilterName streamFilterName =
     \<lparr>tr_cache = [], tr_embedded = PNull, tr_resolve = resolveCipher, tr_string = stringFilterName,
      tr_stream = streamFilterName\<rparr>"

definition cache_key :: "pobj \<Rightarrow> jsstr" where
  "cache_key filterName = (case filterName of PName n \<Rightarrow> n | _ \<Rightarrow> js ''__default__'')"

definition getCipher :: "pobj \<Rightarrow> transform \<Rightarrow> (cipher_class \<times> transform) res" where
  "getCipher filterName t =
     (case map_of (tr_cache t) (cache_key filterName) of
        Some c \<Rightarrow> Inr (c, t)
      | None \<Rightarrow> rbind (tr_resolve t filterName) (\<lambda>c.
          Inr (c, t\<lparr>tr_cache := AList.update (cache_key filterName) c (tr_cache t)\<rparr>)))"

definition createStream ::
    "fetch \<Rightarrow> bytes \<Rightarrow> pobj \<Rightarrow> rat \<Rightarrow> pobj \<Rightarrow> transform \<Rightarrow> (crypt_state dstream \<times> transform) res" where
  "createStream fetch data dict len cryptFilterName t =
     (let defaultFilterName =
            (if obj_truthy (tr_embedded t) \<and> isDict fetch dict (Some (js ''EmbeddedFile'')) then tr_embedded t
             else tr_stream t)
      in rbind (getCipher (if obj_truthy cryptFilterName then cryptFilterName else defaultFilterName) t) (\<lambda>(cls, t).
         rbind (new_cipher cls) (\<lambda>cipher. Inr (decryptStream data len cipher, t))))"

definition decryptString :: "jsstr \<Rightarrow> transform \<Rightarrow> (jsstr \<times> transform) res" where
  "decryptString s t =
     rbind (getCipher (tr_string t) t) (\<lambda>(cls, t).
     rbind (new_cipher cls) (\<lambda>cipher.
     Inr (bytesToString (fst (decryptBlock (stringToBytes s) True cipher)), t)))"

definition encryptString :: "bytes \<Rightarrow> jsstr \<Rightarrow> transform \<Rightarrow> (jsstr \<times> transform) res" where
  "encryptString iv s t =
     rbind (getCipher (tr_string t) t) (\<lambda>(cls, t).
     rbind (new_cipher cls) (\<lambda>cipher.
       case cipher of
         AESCipher c \<Rightarrow>
           let pad = 16 - length s mod 16;
               s = s @ replicate pad pad;
               data = fst (aes_encrypt (stringToBytes s) (Some iv) c);
               buf = blit (blit (zeros (16 + length data)) iv 0) data 16
           in Inr (bytesToString buf, t)
       | _ \<Rightarrow> Inr (bytesToString (fst (cipher_encrypt (stringToBytes s) None cipher)), t)))"

section \<open>CipherTransformFactory\<close>

definition NEED_PASSWORD :: nat where
  "NEED_PASSWORD = 1"

definition INCORRECT_PASSWORD :: nat where
  "INCORRECT_PASSWORD = 2"

record factory =
  fc_filterName :: jsstr
  fc_dict :: entries
  fc_fileId :: jsstr
  fc_algorithm :: nat
  fc_cf :: pobj
  fc_stmf :: pobj
  fc_strf :: pobj
  fc_eff :: pobj
  fc_encryptMetadata :: bool
  fc_encryptionKey :: "bytes option"

text \<open>\<open>obj?.get(key)\<close> and \<open>obj.name\<close>; a value that is no dictionary has no method \<open>get\<close>.\<close>

definition opt_get :: "fetch \<Rightarrow> pobj \<Rightarrow> jsstr option \<Rightarrow> pobj res" where
  "opt_get fetch v key =
     (case v of
        PUndef \<Rightarrow> Inr PUndef
      | PNull \<Rightarrow> Inr PUndef
      | PDict m suppress \<Rightarrow> Inr (case key of Some k \<Rightarrow> dict_get fetch suppress m k | None \<Rightarrow> PUndef)
      | _ \<Rightarrow> Inl TypeError)"

definition obj_name :: "pobj \<Rightarrow> jsstr option" where
  "obj_name v = (case v of PName n \<Rightarrow> Some n | _ \<Rightarrow> None)"

definition or_name :: "pobj \<Rightarrow> pobj \<Rightarrow> pobj" where
  "or_name v w = (if obj_truthy v then v else w)"

text \<open>Setting \<open>suppressEncryption\<close> on a dictionary.\<close>

fun suppressed :: "pobj \<Rightarrow> pobj" where
  "suppressed (PDict m s) = PDict m True"
| "suppressed v = v"

definition obj_bytes :: "pobj \<Rightarrow> bytes res" where
  "obj_bytes v = (case v of PStr s \<Rightarrow> Inr (stringToBytes s) | _ \<Rightarrow> Inl (JsError ''Invalid argument for stringToBytes''))"

text \<open>The entry V: an integer among 1, 2, 4 and 5.\<close>

definition algorithm_of :: "pobj \<Rightarrow> nat res" where
  "algorithm_of v =
     (if v = PNum (Num 1) then Inr 1 else if v = PNum (Num 2) then Inr 2
      else if v = PNum (Num 4) then Inr 4 else if v = PNum (Num 5) then Inr 5
      else Inl (FormatError ''unsupported encryption algorithm''))"

text \<open>The length of the key in bits; the model covers lengths below \<open>2 ^ 31\<close>.\<close>

definition raw_keyLength :: "rounding \<Rightarrow> fetch \<Rightarrow> entries \<Rightarrow> nat \<Rightarrow> pobj res" where
  "raw_keyLength fl fetch dict algorithm =
     (let keyLength = dict_get fetch True dict (js ''Length'')
      in if obj_truthy keyLength then Inr keyLength
         else if algorithm \<le> 3 then Inr (PNum (Num 40))
         else case (suppressed (dict_get fetch True dict (js ''CF'')), dict_get fetch True dict (js ''StmF'')) of
           (PDict m s, PName streamCryptoName) \<Rightarrow>
             rbind (opt_get fetch (dict_get fetch s m streamCryptoName) (Some (js ''Length''))) (\<lambda>len.
               let keyLength = or_name len (PNum (Num 128))
               in if num_lt (obj_num fl keyLength) (Num 40)
                  then Inr (PNum (Num (of_int (sint (push_bit 3 (toInt32 (obj_num fl keyLength)))))))
                  else Inr keyLength)
         | _ \<Rightarrow> Inr keyLength)"

definition valid_keyLength :: "pobj \<Rightarrow> nat res" where
  "valid_keyLength v =
     (case v of
        PNum (Num x) \<Rightarrow>
          if x = of_int \<lfloor>x\<rfloor> \<and> 40 \<le> x \<and> \<lfloor>x\<rfloor> mod 8 = 0 then Inr (nat \<lfloor>x\<rfloor>) else Inl (FormatError ''invalid key length'')
      | _ \<Rightarrow> Inl (FormatError ''invalid key length''))"

text \<open>The passwords as bytes: the prepared one and, when it differs, the raw one.\<close>

definition password_bytes :: "(jsstr \<Rightarrow> jsstr) \<Rightarrow> pobj \<Rightarrow> nat \<Rightarrow> jsstr \<Rightarrow> bytes option \<times> bytes option" where
  "password_bytes nfkc revision algorithm password =
     (if password = [] then (None, None)
      else if revision = PNum (Num 6) then
        let prepped = saslPrep nfkc password
        in (Some (utf8PasswordToBytes prepped), if prepped \<noteq> password then Some (utf8PasswordToBytes password) else None)
      else if algorithm = 5 then (Some (utf8PasswordToBytes password), None)
      else (Some (stringToBytes password), None))"

fun first_key :: "(bytes option \<Rightarrow> bytes option res) \<Rightarrow> bytes option list \<Rightarrow> bytes option res" where
  "first_key f [] = Inr None"
| "first_key f (c # cs) = rbind (f c) (\<lambda>k. case k of Some key \<Rightarrow> Inr (Some key) | None \<Rightarrow> first_key f cs)"

text \<open>The first attempt to find the key: with the password as the user's, or with algorithm 5.\<close>

definition find_key :: "rounding \<Rightarrow> (jsstr \<Rightarrow> jsstr) \<Rightarrow> fetch \<Rightarrow> entries \<Rightarrow> bytes \<Rightarrow> jsstr \<Rightarrow> nat \<Rightarrow> nat \<Rightarrow> bool
    \<Rightarrow> bytes \<Rightarrow> bytes \<Rightarrow> bytes option res" where
  "find_key fl nfkc fetch dict fileIdBytes password algorithm keyLength encryptMetadata ownerBytes userBytes =
     (let flags = dict_get fetch True dict (js ''P'');
          revision = dict_get fetch True dict (js ''R'');
          ownerPassword = subarray ownerBytes 0 32;
          userPassword = subarray userBytes 0 32;
          (passwordBytes, rawPasswordBytes) = password_bytes nfkc revision algorithm password
      in if algorithm \<noteq> 5 then
           Inr (prepareKeyData fl fileIdBytes passwordBytes ownerPassword userPassword flags revision keyLength encryptMetadata)
         else
           rbind (obj_bytes (dict_get fetch True dict (js ''OE''))) (\<lambda>ownerEncryption.
           rbind (obj_bytes (dict_get fetch True dict (js ''UE''))) (\<lambda>userEncryption.
           rbind (obj_bytes (dict_get fetch True dict (js ''Perms''))) (\<lambda>perms.
             first_key (\<lambda>candidate. createEncryptionKey20 revision candidate ownerPassword
                 (subarray ownerBytes 32 40) (subarray ownerBytes 40 48) (subarray userBytes 0 48) userPassword
                 (subarray userBytes 32 40) (subarray userBytes 40 48) ownerEncryption userEncryption)
               (case rawPasswordBytes of Some raw \<Rightarrow> [passwordBytes, Some raw] | None \<Rightarrow> [passwordBytes])))))"

text \<open>Without a password, a document whose only encrypted parts are attachments still opens.\<close>

definition opens_without_key :: "fetch \<Rightarrow> nat \<Rightarrow> pobj \<Rightarrow> pobj \<Rightarrow> pobj \<Rightarrow> pobj \<Rightarrow> bool res" where
  "opens_without_key fetch algorithm cf stmf strf eff =
     (if 4 \<le> algorithm \<and> isName stmf (Some (js ''Identity'')) \<and> isName strf (Some (js ''Identity''))
      then rbind (opt_get fetch cf (obj_name eff)) (\<lambda>effCF.
           rbind (opt_get fetch effCF (Some (js ''AuthEvent''))) (\<lambda>authEvent.
           Inr (isName authEvent (Some (js ''EFOpen'')))))
      else Inr False)"

text \<open>A key of algorithm 4 is extended to 16 bytes.\<close>

definition final_key :: "nat \<Rightarrow> bytes \<Rightarrow> bytes" where
  "final_key algorithm k = (if algorithm = 4 \<and> length k < 16 then blit (zeros 16) k 0 else k)"

text \<open>The end of the constructor: the owner password is tried when the first attempt found no key.\<close>

definition finish_key :: "rounding \<Rightarrow> (jsstr \<Rightarrow> jsstr) \<Rightarrow> fetch \<Rightarrow> nat \<Rightarrow> jsstr \<Rightarrow> bytes \<Rightarrow> bytes \<Rightarrow> bytes option \<Rightarrow> factory
    \<Rightarrow> factory res" where
  "finish_key fl nfkc fetch keyLength password ownerBytes userBytes found f =
     (if found = None \<and> password = [] then
        rbind (opens_without_key fetch (fc_algorithm f) (fc_cf f) (fc_stmf f) (fc_strf f) (fc_eff f)) (\<lambda>opens.
          if opens then Inr (f\<lparr>fc_encryptionKey := None\<rparr>) else Inl (PasswordException NEED_PASSWORD))
      else
        let revision = dict_get fetch True (fc_dict f) (js ''R'');
            flags = dict_get fetch True (fc_dict f) (js ''P'');
            passwordBytes = (case fst (password_bytes nfkc revision (fc_algorithm f) password) of Some p \<Rightarrow> p | None \<Rightarrow> []);
            ownerPassword = subarray ownerBytes 0 32;
            encryptionKey = (case found of
                Some k \<Rightarrow> Some k
              | None \<Rightarrow> prepareKeyData fl (stringToBytes (fc_fileId f))
                  (Some (decodeUserPassword fl passwordBytes ownerPassword revision keyLength))
                  ownerPassword (subarray userBytes 0 32) flags revision keyLength (fc_encryptMetadata f))
        in case encryptionKey of
             None \<Rightarrow> Inl (PasswordException INCORRECT_PASSWORD)
           | Some k \<Rightarrow>
               Inr (f\<lparr>fc_encryptionKey := Some (final_key (fc_algorithm f) k)\<rparr>))"

text \<open>\<open>new CipherTransformFactory(dict, fileId, password)\<close>; an empty password stands for none.\<close>

definition mk_factory :: "rounding \<Rightarrow> (jsstr \<Rightarrow> jsstr) \<Rightarrow> fetch \<Rightarrow> entries \<Rightarrow> jsstr \<Rightarrow> jsstr \<Rightarrow> factory res" where
  "mk_factory fl nfkc fetch dict fileId password =
     (let get = (\<lambda>key. dict_get fetch True dict key)
      in case get (js ''Filter'') of
        PName filterName \<Rightarrow>
          if filterName \<noteq> js ''Standard'' then Inl (FormatError ''unknown encryption method'')
          else
            rbind (algorithm_of (get (js ''V''))) (\<lambda>algorithm.
            rbind (raw_keyLength fl fetch dict algorithm) (\<lambda>len.
            rbind (valid_keyLength len) (\<lambda>keyLength.
              let identity = PName (js ''Identity'');
                  cf = (if 4 \<le> algorithm then suppressed (get (js ''CF'')) else PNull);
                  stmf = (if 4 \<le> algorithm then or_name (get (js ''StmF'')) identity else identity);
                  strf = (if 4 \<le> algorithm then or_name (get (js ''StrF'')) identity else identity);
                  eff = (if 4 \<le> algorithm then or_name (get (js ''EFF'')) stmf else stmf);
                  encryptMetadata = ((algorithm = 4 \<or> algorithm = 5) \<and> get (js ''EncryptMetadata'') \<noteq> PBool False);
                  fileIdBytes = stringToBytes fileId;
                  f = \<lparr>fc_filterName = filterName, fc_dict = dict, fc_fileId = fileId, fc_algorithm = algorithm,
                       fc_cf = cf, fc_stmf = stmf, fc_strf = strf, fc_eff = eff, fc_encryptMetadata = encryptMetadata,
                       fc_encryptionKey = None\<rparr>
              in rbind (obj_bytes (get (js ''O''))) (\<lambda>ownerBytes.
                 rbind (obj_bytes (get (js ''U''))) (\<lambda>userBytes.
                 rbind (find_key fl nfkc fetch dict fileIdBytes password algorithm keyLength encryptMetadata ownerBytes userBytes) (\<lambda>found.
                   finish_key fl nfkc fetch keyLength password ownerBytes userBytes found f))))))
      | _ \<Rightarrow> Inl (FormatError ''unknown encryption method''))"

definition setPassword :: "rounding \<Rightarrow> (jsstr \<Rightarrow> jsstr) \<Rightarrow> fetch \<Rightarrow> jsstr \<Rightarrow> factory \<Rightarrow> factory res" where
  "setPassword fl nfkc fetch password f =
     rbind (mk_factory fl nfkc fetch (fc_dict f) (fc_fileId f) password) (\<lambda>t.
       Inr (f\<lparr>fc_encryptionKey := fc_encryptionKey t\<rparr>))"

definition resolveCipher :: "fetch \<Rightarrow> factory \<Rightarrow> nat \<Rightarrow> nat \<Rightarrow> pobj \<Rightarrow> cipher_class res" where
  "resolveCipher fetch f num gen filterName =
     (if fc_algorithm f = 4 \<or> fc_algorithm f = 5 then
        case filterName of
          PName n \<Rightarrow>
            (case fc_cf f of
               PDict m s \<Rightarrow>
                 rbind (opt_get fetch (dict_get fetch s m n) (Some (js ''CFM''))) (\<lambda>cfm.
                   if \<not> obj_truthy cfm \<or> obj_name cfm = Some (js ''None'') then Inr NullClass
                   else case fc_encryptionKey f of
                     None \<Rightarrow> Inl (PasswordException NEED_PASSWORD)
                   | Some key \<Rightarrow>
                       if fc_algorithm f = 5 \<or> obj_name cfm = Some (js ''AESV3'') then Inr (AES256Class key)
                       else if obj_name cfm = Some (js ''V2'') then Inr (ARCFourClass (buildObjectKey num gen key False))
                       else if obj_name cfm = Some (js ''AESV2'') then Inr (AES128Class (buildObjectKey num gen key True))
                       else Inl (FormatError ''Unknown crypto method''))
             | _ \<Rightarrow> Inl TypeError)
        | _ \<Rightarrow> Inl (FormatError ''Invalid crypt filter name.'')
      else case fc_encryptionKey f of
        None \<Rightarrow> Inl TypeError
      | Some key \<Rightarrow> Inr (ARCFourClass (buildObjectKey num gen key False)))"

definition createCipherTransform :: "fetch \<Rightarrow> factory \<Rightarrow> nat \<Rightarrow> nat \<Rightarrow> transform" where
  "createCipherTransform fetch f num gen =
     (if fc_algorithm f = 4 \<or> fc_algorithm f = 5
      then (mk_transform (resolveCipher fetch f num gen) (fc_strf f) (fc_stmf f))\<lparr>tr_embedded := fc_eff f\<rparr>
      else mk_transform (resolveCipher fetch f num gen) PNull PNull)"

section \<open>Strings\<close>

lemma new_cipher_fresh: "new_cipher cls = Inr c \<Longrightarrow> fresh_cipher c"
  by (cases cls) (auto simp: mk_aes128_def mk_aes256_def rbind_eq_Inr)

text \<open>A second request for a cipher finds it in the cache.\<close>

lemma getCipher_again:
  assumes "getCipher n t = Inr (cls, t')"
  shows "getCipher n t' = Inr (cls, t') \<and> tr_string t' = tr_string t"
  using assms by (auto simp: getCipher_def rbind_eq_Inr update_conv' split: option.splits)

lemma stringToBytes_append: "stringToBytes (a @ b) = stringToBytes a @ stringToBytes b"
  by (simp add: stringToBytes_def)

lemma pad_string: "stringToBytes (s @ replicate p p) = stringToBytes s @ replicate p (of_nat p)"
  by (simp add: stringToBytes_def)

lemma string_roundtrip_aux:
  assumes "encryptString iv s t = Inr (enc, t')" and "length iv = 16" and "list_all (\<lambda>c. c < 256) s"
  shows "decryptString enc t' = Inr (s, t')"
proof -
  obtain cls cipher where g: "getCipher (tr_string t) t = Inr (cls, t')" and c: "new_cipher cls = Inr cipher"
  proof -
    obtain cls t1 cipher where "getCipher (tr_string t) t = Inr (cls, t1)" "new_cipher cls = Inr cipher"
      using assms(1) by (auto simp: encryptString_def rbind_eq_Inr)
    then show thesis using assms(1) that by (cases cipher) (auto simp: encryptString_def Let_def)
  qed
  note fresh = new_cipher_fresh [OF c]
  have "fst (decryptBlock (stringToBytes enc) True cipher) = stringToBytes s"
  proof (cases cipher)
    case (AESCipher a)
    let ?d = "fst (aes_encrypt (pad16 (stringToBytes s)) (Some iv) a)"
    have "enc = bytesToString (blit (blit (zeros (16 + length ?d)) iv 0) ?d 16)"
      using assms(1) g c by (simp add: encryptString_def AESCipher Let_def pad_string pad16_def)
    moreover have "blit (blit (zeros (16 + length ?d)) iv 0) ?d 16 = iv @ ?d" using assms(2) by (simp add: blit_def)
    ultimately show ?thesis
      using fresh assms(2) aes_message_inverse [of a iv "stringToBytes s"]
      by (simp add: AESCipher stringToBytes_append)
  next
    case NullCipher
    then show ?thesis using assms(1) g c by (auto simp: encryptString_def)
  next
    case (ARCFourCipher r)
    then show ?thesis using assms(1) g c rc4_inverse [of "stringToBytes s" r] by (auto simp: encryptString_def)
  qed
  then show ?thesis
    using getCipher_again [OF g] c bytesToString_stringToBytes [OF assms(3)] by (simp add: decryptString_def)
qed

text \<open>
  C21: an encrypted string is decrypted to itself.  Whatever cipher the string filter selects
  (RC4, AES-128, AES-256 or the identity) and whatever the random initialisation vector,
  \<open>decryptString\<close> inverts \<open>encryptString\<close> on strings of byte-sized characters, through the
  padding, the prepended vector and the cipher cache.
\<close>

theorem string_roundtrip:
  assumes "encryptString iv s t = Inr (enc, t')" and "length iv = 16" and "list_all (\<lambda>c. c < 256) s"
  shows "decryptString enc t' = Inr (s, t')"
  using assms by (rule string_roundtrip_aux)

definition demo_transform :: transform where
  "demo_transform = mk_transform (\<lambda>_. Inr (AES128Class (zeros 16))) (PName (js ''StdCF'')) PNull"

theorem string_roundtrip_witness:
  "\<exists>enc t'. encryptString (zeros 16) (js ''ab'') demo_transform = Inr (enc, t') \<and>
    decryptString enc t' = Inr (js ''ab'', t')"
proof -
  obtain enc t' where e: "encryptString (zeros 16) (js ''ab'') demo_transform = Inr (enc, t')"
    by (simp add: encryptString_def demo_transform_def mk_transform_def getCipher_def mk_aes128_def expandKey128_def
        arr_set_ok Let_def)
  moreover have "decryptString enc t' = Inr (js ''ab'', t')"
    by (rule string_roundtrip [OF e]) simp_all
  ultimately show ?thesis by blast
qed

section \<open>Opening a document\<close>

lemma length_rc4_layers [simp]: "length (rc4_layers key ks data) = length data"
  unfolding rc4_layers_def by (induction ks arbitrary: data) simp_all

lemma length_owner_entry [simp]: "length (owner_entry fl ownerPw userPw revision keyLength) = 32"
  by (simp add: owner_entry_def Let_def)

lemma length_defaultPasswordBytes [simp]: "length defaultPasswordBytes = 32"
  by (simp add: defaultPasswordBytes_def)

lemma length_user_entry: "length (user_entry fl fileId key revision) = (if is_rev fl 3 revision then 16 else 32)"
  by (simp add: user_entry_def)

lemma file_key_pad: "file_key fl fileId (pad_password p) own flags revision keyLength em = file_key fl fileId p own flags revision keyLength em"
  by (simp add: file_key_def file_message_def)

text \<open>
  An encryption dictionary of revision 2 to 4 as a writer makes it, with \<open>own\<close> and \<open>key\<close>
  the entry O and the key of the file that the specification prescribes.
\<close>

record written =
  w_owner :: jsstr
  w_user :: jsstr
  w_algorithm :: nat
  w_keyLength :: nat
  w_revision :: pobj
  w_flags :: pobj
  w_metadata :: bool
  w_id :: jsstr
  w_tail :: bytes

definition w_own :: "rounding \<Rightarrow> written \<Rightarrow> bytes" where
  "w_own fl w = owner_entry fl (stringToBytes (w_owner w)) (stringToBytes (w_user w)) (w_revision w) (w_keyLength w)"

definition w_key :: "rounding \<Rightarrow> written \<Rightarrow> bytes" where
  "w_key fl w = file_key fl (stringToBytes (w_id w)) (stringToBytes (w_user w)) (w_own fl w) (w_flags w) (w_revision w)
     (w_keyLength w) (w_metadata w)"

definition w_u :: "rounding \<Rightarrow> written \<Rightarrow> bytes" where
  "w_u fl w = user_entry fl (stringToBytes (w_id w)) (w_key fl w) (w_revision w) @ w_tail w"

definition written_dict :: "rounding \<Rightarrow> fetch \<Rightarrow> entries \<Rightarrow> written \<Rightarrow> bool" where
  "written_dict fl fetch dict w \<longleftrightarrow>
     (let get = dict_get fetch True dict
      in get (js ''Filter'') = PName (js ''Standard'') \<and>
         algorithm_of (get (js ''V'')) = Inr (w_algorithm w) \<and> w_algorithm w \<noteq> 5 \<and>
         rbind (raw_keyLength fl fetch dict (w_algorithm w)) valid_keyLength = Inr (w_keyLength w) \<and> w_keyLength w \<le> 128 \<and>
         get (js ''R'') = w_revision w \<and> w_revision w \<noteq> PNum (Num 6) \<and> get (js ''P'') = w_flags w \<and>
         (w_algorithm w = 4 \<and> get (js ''EncryptMetadata'') \<noteq> PBool False \<longleftrightarrow> w_metadata w) \<and>
         get (js ''O'') = PStr (map unat (w_own fl w)) \<and> get (js ''U'') = PStr (map unat (w_u fl w)))"

lemma subarray_32: "subarray xs 0 32 = take 32 xs"
  using subarray_0 [of xs 32] by simp

lemma written_find_key:
  assumes "written_dict fl fetch dict w"
  shows "find_key fl nfkc fetch dict (stringToBytes (w_id w)) password (w_algorithm w) (w_keyLength w) (w_metadata w)
      (w_own fl w) (w_u fl w) =
    Inr (prepareKeyData fl (stringToBytes (w_id w)) (if password = [] then None else Some (stringToBytes password))
      (w_own fl w) (take 32 (w_u fl w)) (w_flags w) (w_revision w) (w_keyLength w) (w_metadata w))"
  using assms by (simp add: find_key_def written_dict_def Let_def password_bytes_def subarray_32 w_own_def)

lemma written_prepare:
  assumes "pad_password (case pw of Some p \<Rightarrow> p | None \<Rightarrow> []) = pad_password (stringToBytes (w_user w))"
  shows "prepareKeyData fl (stringToBytes (w_id w)) pw (w_own fl w) (take 32 (w_u fl w)) (w_flags w) (w_revision w)
      (w_keyLength w) (w_metadata w) = Some (w_key fl w)"
proof -
  have "prefix (user_entry fl (stringToBytes (w_id w)) (w_key fl w) (w_revision w)) (take 32 (w_u fl w))"
    by (simp add: w_u_def length_user_entry)
  moreover have "file_key fl (stringToBytes (w_id w)) (case pw of Some p \<Rightarrow> p | None \<Rightarrow> []) (w_own fl w) (w_flags w)
      (w_revision w) (w_keyLength w) (w_metadata w) = w_key fl w"
    using assms unfolding w_key_def by (metis file_key_pad)
  ultimately show ?thesis by (simp add: prepareKeyData_eq Let_def)
qed

lemma mk_factory_written:
  assumes w: "written_dict fl fetch dict w"
  shows "\<exists>f. mk_factory fl nfkc fetch dict (w_id w) password =
      finish_key fl nfkc fetch (w_keyLength w) password (w_own fl w) (w_u fl w)
        (prepareKeyData fl (stringToBytes (w_id w)) (if password = [] then None else Some (stringToBytes password))
          (w_own fl w) (take 32 (w_u fl w)) (w_flags w) (w_revision w) (w_keyLength w) (w_metadata w)) f \<and>
    fc_algorithm f = w_algorithm w \<and> fc_dict f = dict \<and> fc_fileId f = w_id w \<and> fc_encryptMetadata f = w_metadata w"
proof -
  obtain len where len: "raw_keyLength fl fetch dict (w_algorithm w) = Inr len" "valid_keyLength len = Inr (w_keyLength w)"
    using w by (auto simp: written_dict_def Let_def rbind_eq_Inr)
  have m: "((w_algorithm w = 4 \<or> w_algorithm w = 5) \<and> dict_get fetch True dict (js ''EncryptMetadata'') \<noteq> PBool False) = w_metadata w"
    using w by (auto simp: written_dict_def Let_def)
  have g: "dict_get fetch True dict (js ''Filter'') = PName (js ''Standard'')"
      "algorithm_of (dict_get fetch True dict (js ''V'')) = Inr (w_algorithm w)"
      "dict_get fetch True dict (js ''O'') = PStr (map unat (w_own fl w))"
      "dict_get fetch True dict (js ''U'') = PStr (map unat (w_u fl w))"
    using w by (simp_all add: written_dict_def Let_def)
  show ?thesis
    unfolding mk_factory_def Let_def g pobj.case len obj_bytes_def m rbind_simps if_False not_True_eq_False simp_thms
      stringToBytes_bytesToString written_find_key [OF w]
    by (rule exI, rule conjI, rule refl) simp
qed

lemma written_factory:
  assumes w: "written_dict fl fetch dict w"
    and k: "prepareKeyData fl (stringToBytes (w_id w)) (if password = [] then None else Some (stringToBytes password))
        (w_own fl w) (take 32 (w_u fl w)) (w_flags w) (w_revision w) (w_keyLength w) (w_metadata w) = found"
    and k': "(case found of Some k \<Rightarrow> Some k | None \<Rightarrow>
        prepareKeyData fl (stringToBytes (w_id w)) (Some (decodeUserPassword fl (stringToBytes password) (w_own fl w)
          (w_revision w) (w_keyLength w))) (w_own fl w) (take 32 (w_u fl w)) (w_flags w) (w_revision w)
          (w_keyLength w) (w_metadata w)) = Some key"
    and ne: "found = None \<longrightarrow> password \<noteq> []"
  shows "\<exists>f. mk_factory fl nfkc fetch dict (w_id w) password = Inr f \<and>
    fc_encryptionKey f = Some (final_key (w_algorithm w) key) \<and> fc_algorithm f = w_algorithm w"
proof -
  have own: "take 32 (w_own fl w) = w_own fl w" by (simp add: w_own_def)
  have g: "dict_get fetch True dict (js ''R'') = w_revision w" "dict_get fetch True dict (js ''P'') = w_flags w"
    using w by (simp_all add: written_dict_def Let_def)
  have pb: "password_bytes nfkc (w_revision w) (w_algorithm w) password =
      (if password = [] then None else Some (stringToBytes password), None)"
    using w by (simp add: written_dict_def password_bytes_def Let_def)
  obtain f where "mk_factory fl nfkc fetch dict (w_id w) password =
      finish_key fl nfkc fetch (w_keyLength w) password (w_own fl w) (w_u fl w) found f"
    "fc_algorithm f = w_algorithm w" "fc_dict f = dict" "fc_fileId f = w_id w" "fc_encryptMetadata f = w_metadata w"
    using mk_factory_written [OF w, of nfkc password] k by auto
  then show ?thesis using k' ne
    by (cases found) (simp_all add: finish_key_def Let_def g pb subarray_32 own final_key_def del: js_Cons)
qed

lemma written_user:
  assumes w: "written_dict fl fetch dict w"
  shows "\<exists>f. mk_factory fl nfkc fetch dict (w_id w) (w_user w) = Inr f \<and>
    fc_encryptionKey f = Some (final_key (w_algorithm w) (w_key fl w)) \<and> fc_algorithm f = w_algorithm w"
  by (rule written_factory [OF w written_prepare]) (simp_all add: stringToBytes_def)

text \<open>
  C18: both passwords open a document of revision 2 to 4.  If the entries O and U were
  computed from a user and an owner password as the PDF specification prescribes, the
  constructor accepts the user password and obtains the key of the file; it accepts the
  owner password as well, from which it recovers the user password by undoing the RC4
  layers of O, and obtains the same key, unless the owner password passes as a user
  password of its own.
\<close>

theorem passwords_open:
  assumes w: "written_dict fl fetch dict w" and "w_owner w \<noteq> []"
  shows "(\<exists>f. mk_factory fl nfkc fetch dict (w_id w) (w_user w) = Inr f \<and>
      fc_encryptionKey f = Some (final_key (w_algorithm w) (w_key fl w))) \<and>
    (\<exists>f k. mk_factory fl nfkc fetch dict (w_id w) (w_owner w) = Inr f \<and>
      fc_encryptionKey f = Some (final_key (w_algorithm w) k) \<and>
      (k = w_key fl w \<or> prepareKeyData fl (stringToBytes (w_id w)) (Some (stringToBytes (w_owner w))) (w_own fl w)
        (take 32 (w_u fl w)) (w_flags w) (w_revision w) (w_keyLength w) (w_metadata w) = Some k))"
proof -
  let ?prep = "\<lambda>pw. prepareKeyData fl (stringToBytes (w_id w)) pw (w_own fl w) (take 32 (w_u fl w)) (w_flags w)
    (w_revision w) (w_keyLength w) (w_metadata w)"
  have user: "\<exists>f. mk_factory fl nfkc fetch dict (w_id w) (w_user w) = Inr f \<and>
      fc_encryptionKey f = Some (final_key (w_algorithm w) (w_key fl w))"
    using written_user [OF w] by blast
  have "decodeUserPassword fl (stringToBytes (w_owner w)) (w_own fl w) (w_revision w) (w_keyLength w) = pad_password (stringToBytes (w_user w))"
    using w unfolding w_own_def by (intro decodeUserPassword_owner_entry) (simp add: written_dict_def Let_def)
  then have dec: "?prep (Some (decodeUserPassword fl (stringToBytes (w_owner w)) (w_own fl w) (w_revision w) (w_keyLength w))) = Some (w_key fl w)"
    by (intro written_prepare) simp
  define found where "found = ?prep (Some (stringToBytes (w_owner w)))"
  define key where "key = (case found of Some k \<Rightarrow> k | None \<Rightarrow> w_key fl w)"
  have "\<exists>f. mk_factory fl nfkc fetch dict (w_id w) (w_owner w) = Inr f \<and>
      fc_encryptionKey f = Some (final_key (w_algorithm w) key) \<and> fc_algorithm f = w_algorithm w"
    using assms(2) dec
    by (intro written_factory [OF w, of _ found]) (auto simp: found_def key_def split: option.split)
  moreover have "key = w_key fl w \<or> found = Some key" by (cases found) (simp_all add: key_def)
  ultimately show ?thesis using user unfolding found_def by blast
qed

definition demo_written :: written where
  "demo_written = \<lparr>w_owner = js ''o'', w_user = js ''u'', w_algorithm = 1, w_keyLength = 40, w_revision = PNum (Num 2),
     w_flags = PNum (Num (- 4)), w_metadata = False, w_id = js ''id'', w_tail = []\<rparr>"

definition demo_dict :: entries where
  "demo_dict = [(js ''Filter'', PName (js ''Standard'')), (js ''V'', PNum (Num 1)), (js ''R'', PNum (Num 2)),
     (js ''P'', PNum (Num (- 4))), (js ''O'', PStr (map unat (w_own Num demo_written))),
     (js ''U'', PStr (map unat (w_u Num demo_written)))]"

lemma demo_written_dict: "written_dict Num None demo_dict demo_written"
proof -
  have g: "dict_get None True demo_dict (js ''Filter'') = PName (js ''Standard'')"
    "dict_get None True demo_dict (js ''V'') = PNum (Num 1)" "dict_get None True demo_dict (js ''R'') = PNum (Num 2)"
    "dict_get None True demo_dict (js ''P'') = PNum (Num (- 4))" "dict_get None True demo_dict (js ''Length'') = PUndef"
    "dict_get None True demo_dict (js ''O'') = PStr (map unat (w_own Num demo_written))"
    "dict_get None True demo_dict (js ''U'') = PStr (map unat (w_u Num demo_written))"
    by (simp_all add: demo_dict_def dict_get_def dict_getValue_def getRaw_def map_get_def resolve_def)
  have "rbind (raw_keyLength Num None demo_dict 1) valid_keyLength = Inr 40"
    by (simp add: raw_keyLength_def g valid_keyLength_def Let_def del: js_Cons)
  with g show ?thesis
    by (simp add: written_dict_def demo_written_def Let_def algorithm_of_def del: js_Cons)
qed

theorem passwords_open_witness:
  "\<exists>f. mk_factory Num id None demo_dict (w_id demo_written) (w_user demo_written) = Inr f \<and>
    fc_encryptionKey f = Some (final_key (w_algorithm demo_written) (w_key Num demo_written))"
proof -
  have "w_owner demo_written \<noteq> []" by (simp add: demo_written_def)
  from conjunct1 [OF passwords_open [OF demo_written_dict this]] show ?thesis .
qed

section \<open>The keys of a factory\<close>








end
