(* ===== verification/Flate.thy ===== *)
theory Flate
  imports Ascii_Filters
begin

text \<open>
  \<open>FlateStream\<close>: the synchronous decoder of DEFLATE data.  The bit reader, the Huffman
  tables and the three kinds of blocks are modelled on the real output buffer; an abstract
  decoder works on the list of bytes decoded so far, and the interpretation of
  \<open>block_decoder\<close> ties the two, which also shows that decoding always ends.

  \<open>codeBuf\<close> never holds more than 22 bits, so the 32-bit shifts of the source do not
  overflow and it is kept as a natural number.
\<close>

section \<open>Tables\<close>

type_synonym huffman = "nat list \<times> nat"

definition codeLenCodeMap :: "nat list" where
  "codeLenCodeMap = [16, 17, 18, 0, 8, 7, 9, 6, 10, 5, 11, 4, 12, 3, 13, 2, 14, 1, 15]"

definition lengthDecode :: "nat list" where
  "lengthDecode =
    [0x00003, 0x00004, 0x00005, 0x00006, 0x00007, 0x00008, 0x00009, 0x0000a, 0x1000b, 0x1000d, 0x1000f, 0x10011,
     0x20013, 0x20017, 0x2001b, 0x2001f, 0x30023, 0x3002b, 0x30033, 0x3003b, 0x40043, 0x40053, 0x40063, 0x40073,
     0x50083, 0x500a3, 0x500c3, 0x500e3, 0x00102, 0x00102, 0x00102]"

definition distDecode :: "nat list" where
  "distDecode =
    [0x00001, 0x00002, 0x00003, 0x00004, 0x10005, 0x10007, 0x20009, 0x2000d, 0x30011, 0x30019, 0x40021, 0x40031,
     0x50041, 0x50061, 0x60081, 0x600c1, 0x70101, 0x70181, 0x80201, 0x80301, 0x90401, 0x90601, 0xa0801, 0xa0c01,
     0xb1001, 0xb1801, 0xc2001, 0xc3001, 0xd4001, 0xd6001]"

text \<open>The table of the fixed literal code, in rows of 32 entries.\<close>

definition fixedLit_rows :: "nat list list" where
  "fixedLit_rows =
    [[459008, 524368, 524304, 524568, 459024, 524400, 524336, 590016, 459016, 524384, 524320, 589984, 524288, 524416, 524352, 590048,
     459012, 524376, 524312, 589968, 459028, 524408, 524344, 590032, 459020, 524392, 524328, 590000, 524296, 524424, 524360, 590064],
     [459010, 524372, 524308, 524572, 459026, 524404, 524340, 590024, 459018, 524388, 524324, 589992, 524292, 524420, 524356, 590056,
     459014, 524380, 524316, 589976, 459030, 524412, 524348, 590040, 459022, 524396, 524332, 590008, 524300, 524428, 524364, 590072],
     [459009, 524370, 524306, 524570, 459025, 524402, 524338, 590020, 459017, 524386, 524322, 589988, 524290, 524418, 524354, 590052,
     459013, 524378, 524314, 589972, 459029, 524410, 524346, 590036, 459021, 524394, 524330, 590004, 524298, 524426, 524362, 590068],
     [459011, 524374, 524310, 524574, 459027, 524406, 524342, 590028, 459019, 524390, 524326, 589996, 524294, 524422, 524358, 590060,
     459015, 524382, 524318, 589980, 459031, 524414, 524350, 590044, 459023, 524398, 524334, 590012, 524302, 524430, 524366, 590076],
     [459008, 524369, 524305, 524569, 459024, 524401, 524337, 590018, 459016, 524385, 524321, 589986, 524289, 524417, 524353, 590050,
     459012, 524377, 524313, 589970, 459028, 524409, 524345, 590034, 459020, 524393, 524329, 590002, 524297, 524425, 524361, 590066],
     [459010, 524373, 524309, 524573, 459026, 524405, 524341, 590026, 459018, 524389, 524325, 589994, 524293, 524421, 524357, 590058,
     459014, 524381, 524317, 589978, 459030, 524413, 524349, 590042, 459022, 524397, 524333, 590010, 524301, 524429, 524365, 590074],
     [459009, 524371, 524307, 524571, 459025, 524403, 524339, 590022, 459017, 524387, 524323, 589990, 524291, 524419, 524355, 590054,
     459013, 524379, 524315, 589974, 459029, 524411, 524347, 590038, 459021, 524395, 524331, 590006, 524299, 524427, 524363, 590070],
     [459011, 524375, 524311, 524575, 459027, 524407, 524343, 590030, 459019, 524391, 524327, 589998, 524295, 524423, 524359, 590062,
     459015, 524383, 524319, 589982, 459031, 524415, 524351, 590046, 459023, 524399, 524335, 590014, 524303, 524431, 524367, 590078],
     [459008, 524368, 524304, 524568, 459024, 524400, 524336, 590017, 459016, 524384, 524320, 589985, 524288, 524416, 524352, 590049,
     459012, 524376, 524312, 589969, 459028, 524408, 524344, 590033, 459020, 524392, 524328, 590001, 524296, 524424, 524360, 590065],
     [459010, 524372, 524308, 524572, 459026, 524404, 524340, 590025, 459018, 524388, 524324, 589993, 524292, 524420, 524356, 590057,
     459014, 524380, 524316, 589977, 459030, 524412, 524348, 590041, 459022, 524396, 524332, 590009, 524300, 524428, 524364, 590073],
     [459009, 524370, 524306, 524570, 459025, 524402, 524338, 590021, 459017, 524386, 524322, 589989, 524290, 524418, 524354, 590053,
     459013, 524378, 524314, 589973, 459029, 524410, 524346, 590037, 459021, 524394, 524330, 590005, 524298, 524426, 524362, 590069],
     [459011, 524374, 524310, 524574, 459027, 524406, 524342, 590029, 459019, 524390, 524326, 589997, 524294, 524422, 524358, 590061,
     459015, 524382, 524318, 589981, 459031, 524414, 524350, 590045, 459023, 524398, 524334, 590013, 524302, 524430, 524366, 590077],
     [459008, 524369, 524305, 524569, 459024, 524401, 524337, 590019, 459016, 524385, 524321, 589987, 524289, 524417, 524353, 590051,
     459012, 524377, 524313, 589971, 459028, 524409, 524345, 590035, 459020, 524393, 524329, 590003, 524297, 524425, 524361, 590067],
     [459010, 524373, 524309, 524573, 459026, 524405, 524341, 590027, 459018, 524389, 524325, 589995, 524293, 524421, 524357, 590059,
     459014, 524381, 524317, 589979, 459030, 524413, 524349, 590043, 459022, 524397, 524333, 590011, 524301, 524429, 524365, 590075],
     [459009, 524371, 524307, 524571, 459025, 524403, 524339, 590023, 459017, 524387, 524323, 589991, 524291, 524419, 524355, 590055,
     459013, 524379, 524315, 589975, 459029, 524411, 524347, 590039, 459021, 524395, 524331, 590007, 524299, 524427, 524363, 590071],
     [459011, 524375, 524311, 524575, 459027, 524407, 524343, 590031, 459019, 524391, 524327, 589999, 524295, 524423, 524359, 590063,
     459015, 524383, 524319, 589983, 459031, 524415, 524351, 590047, 459023, 524399, 524335, 590015, 524303, 524431, 524367, 590079]]"

definition fixedLitCodeTab :: huffman where
  "fixedLitCodeTab = (concat fixedLit_rows, 9)"

definition fixedDistCodeTab :: huffman where
  "fixedDistCodeTab =
    ([0x50000, 0x50010, 0x50008, 0x50018, 0x50004, 0x50014, 0x5000c, 0x5001c, 0x50002, 0x50012, 0x5000a, 0x5001a, 0x50006, 0x50016, 0x5000e, 0x00000,
     0x50001, 0x50011, 0x50009, 0x50019, 0x50005, 0x50015, 0x5000d, 0x5001d, 0x50003, 0x50013, 0x5000b, 0x5001b, 0x50007, 0x50017, 0x5000f, 0x00000], 5)"

text \<open>Reading a table out of range gives \<open>undefined\<close>, which the uses turn into 0.\<close>

definition rdn :: "nat list \<Rightarrow> nat \<Rightarrow> nat" where
  "rdn xs i = (if i < length xs then xs ! i else 0)"

subsection \<open>generateHuffmanTable\<close>

definition max_length :: "nat list \<Rightarrow> nat" where
  "max_length lengths = foldl (\<lambda>m l. if m < l then l else m) 0 lengths"

text \<open>The code word with its bits in the order in which they arrive.\<close>

definition reverse_code :: "nat \<Rightarrow> nat \<Rightarrow> nat" where
  "reverse_code len code = fst (foldl (\<lambda>(code2, t) i. (2 * code2 + t mod 2, t div 2)) (0, code) [0..<len])"

text \<open>\<open>for (i = code2; i < size; i += skip) codes[i] = v\<close>.\<close>

function fill_codes :: "nat \<Rightarrow> nat \<Rightarrow> nat \<Rightarrow> nat list \<Rightarrow> nat list" where
  "fill_codes i skip v codes =
     (if 0 < skip \<and> i < length codes then fill_codes (i + skip) skip v (codes[i := v]) else codes)"
  by pat_completeness auto
termination by (relation "measure (\<lambda>(i, skip, v, codes). length codes - i)") auto

declare fill_codes.simps [simp del]

definition add_code :: "nat list \<Rightarrow> nat \<Rightarrow> nat \<Rightarrow> nat list \<times> nat \<Rightarrow> nat \<Rightarrow> nat list \<times> nat" where
  "add_code lengths len skip cc val =
     (let (codes, code) = cc
      in if lengths ! val = len
         then (fill_codes (reverse_code len code) skip (len * 2 ^ 16 + val) codes, code + 1)
         else cc)"

definition add_length :: "nat list \<Rightarrow> nat list \<times> nat \<Rightarrow> nat \<Rightarrow> nat list \<times> nat" where
  "add_length lengths cc len =
     (let (codes, code) = foldl (add_code lengths len (2 ^ len)) cc [0..<length lengths]
      in (codes, 2 * code))"

definition generateHuffmanTable :: "nat list \<Rightarrow> huffman" where
  "generateHuffmanTable lengths =
     (let maxLen = max_length lengths
      in (fst (foldl (add_length lengths) (replicate (2 ^ maxLen) 0, 0) [1..<maxLen + 1]), maxLen))"

section \<open>The bit reader\<close>

record flate =
  fz_stream :: stream
  fz_codeSize :: nat
  fz_codeBuf :: nat

definition bad_encoding :: js_error where
  "bad_encoding = FormatError ''Bad encoding in flate stream''"

text \<open>
  The loop that both readers share: bytes are added to the bit buffer until it holds \<open>n\<close>
  bits or the data ends.
\<close>

function refill :: "nat \<Rightarrow> flate \<Rightarrow> bool \<times> flate" where
  "refill n x =
     (if fz_codeSize x < n then
        case getByte (fz_stream x) of
          (None, s) \<Rightarrow> (False, x\<lparr>fz_stream := s\<rparr>)
        | (Some b, s) \<Rightarrow>
            refill n \<lparr>fz_stream = s, fz_codeSize = fz_codeSize x + 8,
              fz_codeBuf = fz_codeBuf x OR push_bit (fz_codeSize x) (unat b)\<rparr>
      else (True, x))"
  by pat_completeness auto
termination by (relation "measure (\<lambda>(n, x). n - fz_codeSize x)") auto

declare refill.simps [simp del]

definition drop_bits :: "nat \<Rightarrow> flate \<Rightarrow> flate" where
  "drop_bits n x = x\<lparr>fz_codeBuf := drop_bit n (fz_codeBuf x), fz_codeSize := fz_codeSize x - n\<rparr>"

definition getBits :: "nat \<Rightarrow> flate \<Rightarrow> (nat \<times> flate) res" where
  "getBits bits x =
     (let (ok, x') = refill bits x
      in if ok then Inr (take_bit bits (fz_codeBuf x'), drop_bits bits x') else Inl bad_encoding)"

definition getCode :: "huffman \<Rightarrow> flate \<Rightarrow> (nat \<times> flate) res" where
  "getCode table x =
     (let (codes, maxLen) = table;
          x' = snd (refill maxLen x);
          code = rdn codes (take_bit maxLen (fz_codeBuf x'));
          codeLen = code div 2 ^ 16;
          codeVal = code mod 2 ^ 16
      in if codeLen < 1 \<or> fz_codeSize x' < codeLen then Inl bad_encoding
         else Inr (codeVal, drop_bits codeLen x'))"

subsection \<open>The bits that are left\<close>

definition bits_left :: "flate \<Rightarrow> nat" where
  "bits_left x = 8 * (s_end (fz_stream x) - s_pos (fz_stream x)) + fz_codeSize x"

lemma refill_bits: "refill n x = (ok, x') \<Longrightarrow> bits_left x' = bits_left x \<and> (ok \<longrightarrow> n \<le> fz_codeSize x')"
proof (induction n x arbitrary: ok x' rule: refill.induct)
  case (1 n x)
  from "1.prems" "1.IH" show ?case
    by (subst (asm) refill.simps)
      (auto simp: bits_left_def getByte_def Suc_diff_le split: if_splits prod.splits option.splits)
qed

lemma getBits_bits: "getBits n x = Inr (v, x') \<Longrightarrow> bits_left x' + n = bits_left x"
  using refill_bits [of n x] by (auto simp: getBits_def drop_bits_def bits_left_def split: prod.splits if_splits)

lemma getCode_bits: "getCode table x = Inr (v, x') \<Longrightarrow> bits_left x' < bits_left x"
  using refill_bits [of "snd table" x]
  by (cases "refill (snd table) x")
    (auto simp: getCode_def drop_bits_def bits_left_def Let_def split: prod.splits if_splits)

section \<open>Blocks\<close>

text \<open>A length or distance: the entry of the table gives the base and the number of extra bits.\<close>

definition get_extra :: "nat list \<Rightarrow> nat \<Rightarrow> flate \<Rightarrow> (nat \<times> flate) res" where
  "get_extra decode code x =
     (let code1 = rdn decode code; code2 = code1 div 2 ^ 16
      in if 0 < code2 then rbind (getBits code2 x) (\<lambda>(e, x). Inr (code1 mod 2 ^ 16 + e, x))
         else Inr (code1 mod 2 ^ 16 + code2, x))"

lemma get_extra_bits: "get_extra decode code x = Inr (v, x') \<Longrightarrow> bits_left x' \<le> bits_left x"
  by (auto simp: get_extra_def Let_def rbind_eq_Inr dest!: getBits_bits split: if_splits)

text \<open>\<open>for (k = 0; k < len; ++k, ++pos) buffer[pos] = buffer[pos - dist]\<close>.\<close>

definition copy_back :: "nat \<Rightarrow> nat \<Rightarrow> nat \<Rightarrow> bytes \<Rightarrow> bytes" where
  "copy_back p len distance buf =
     foldl (\<lambda>b k. b[p + k := rdi b (int (p + k) - int distance)]) buf [0..<len]"

definition grown :: "nat \<Rightarrow> nat \<Rightarrow> nat \<Rightarrow> flate dstream \<Rightarrow> flate dstream \<times> nat" where
  "grown p n limit d =
     (if limit \<le> p + n then let d1 = ensureBuffer (p + n) d in (d1, length (buffer d1)) else (d, limit))"

lemma sub_grown [simp]: "sub (fst (grown p n limit d)) = sub d"
  by (simp add: grown_def Let_def)

text \<open>The loop over the symbols of a compressed block; \<open>limit\<close> is the cached length of the buffer.\<close>

function symbols_loop :: "huffman \<Rightarrow> huffman \<Rightarrow> flate dstream \<Rightarrow> nat \<Rightarrow> nat \<Rightarrow> flate dstream res" where
  "symbols_loop litCodeTable distCodeTable d limit p =
     rbind (getCode litCodeTable (sub d)) (\<lambda>(code1, x).
       if code1 < 256 then
         let (d1, limit1) = grown p 1 limit d
         in symbols_loop litCodeTable distCodeTable
              (d1\<lparr>buffer := (buffer d1)[p := of_nat code1], sub := x\<rparr>) limit1 (p + 1)
       else if code1 = 256 then Inr (d\<lparr>bufferLength := p, sub := x\<rparr>)
       else
         rbind (get_extra lengthDecode (code1 - 257) x) (\<lambda>(len, x).
         rbind (getCode distCodeTable x) (\<lambda>(code2, x).
         rbind (get_extra distDecode code2 x) (\<lambda>(distance, x).
           let (d1, limit1) = grown p len limit d
           in symbols_loop litCodeTable distCodeTable
                (d1\<lparr>buffer := copy_back p len distance (buffer d1), sub := x\<rparr>) limit1 (p + len)))))"
  by pat_completeness auto
termination
  by (relation "measure (\<lambda>(l, t, d, limit, p). bits_left (sub d))")
    (auto dest!: getCode_bits get_extra_bits)

declare symbols_loop.simps [simp del]

text \<open>The code lengths of a dynamic block.\<close>

definition set_from :: "nat \<Rightarrow> nat \<Rightarrow> nat \<Rightarrow> nat list \<Rightarrow> nat list" where
  "set_from i n v xs = foldl (\<lambda>xs k. xs[i + k := v]) xs [0..<n]"

function lengths_loop :: "huffman \<Rightarrow> nat \<Rightarrow> nat \<Rightarrow> nat list \<Rightarrow> flate \<Rightarrow> (nat list \<times> flate) res" where
  "lengths_loop codeLenCodeTab i len codeLengths x =
     (if i < length codeLengths then
        rbind (getCode codeLenCodeTab x) (\<lambda>(code, x).
          if code < 16 \<or> 18 < code then lengths_loop codeLenCodeTab (i + 1) code (codeLengths[i := code mod 256]) x
          else
            let (bitsLength, bitsOffset, what) =
                  (if code = 16 then (2, 3, len) else if code = 17 then (3, 3, 0) else (7, 11, 0))
            in rbind (getBits bitsLength x) (\<lambda>(r, x).
                 let repeatLength = r + bitsOffset
                 in lengths_loop codeLenCodeTab (i + repeatLength) what (set_from i repeatLength (what mod 256) codeLengths) x))
      else Inr (codeLengths, x))"
  by pat_completeness auto
termination
  by (relation "measure (\<lambda>(t, i, len, cl, x). bits_left x)")
    (auto dest!: getCode_bits getBits_bits)

declare lengths_loop.simps [simp del]

text \<open>The lengths of the code for the code lengths.\<close>

fun codeLen_loop :: "nat list \<Rightarrow> nat list \<Rightarrow> flate \<Rightarrow> (nat list \<times> flate) res" where
  "codeLen_loop [] lengths x = Inr (lengths, x)"
| "codeLen_loop (i # is) lengths x =
     rbind (getBits 3 x) (\<lambda>(v, x). codeLen_loop is (lengths[codeLenCodeMap ! i := v]) x)"

definition dynamic_tables :: "flate \<Rightarrow> (huffman \<times> huffman \<times> flate) res" where
  "dynamic_tables x =
     rbind (getBits 5 x) (\<lambda>(a, x).
     rbind (getBits 5 x) (\<lambda>(b, x).
     rbind (getBits 4 x) (\<lambda>(c, x).
       let numLitCodes = a + 257; numDistCodes = b + 1; numCodeLenCodes = c + 4
       in rbind (codeLen_loop [0..<numCodeLenCodes] (replicate (length codeLenCodeMap) 0) x) (\<lambda>(codeLenCodeLengths, x).
          rbind (lengths_loop (generateHuffmanTable codeLenCodeLengths) 0 0 (replicate (numLitCodes + numDistCodes) 0) x) (\<lambda>(codeLengths, x).
            Inr (generateHuffmanTable (take numLitCodes codeLengths), generateHuffmanTable (drop numLitCodes codeLengths), x))))))"

text \<open>The header of a stored block: the length and its check, from the bytes of the stream.\<close>

definition stored_header :: "stream \<Rightarrow> (nat \<times> nat) option \<times> stream" where
  "stored_header s =
     (case getByte s of (None, s) \<Rightarrow> (None, s) | (Some b0, s) \<Rightarrow>
      case getByte s of (None, s) \<Rightarrow> (None, s) | (Some b1, s) \<Rightarrow>
      case getByte s of (None, s) \<Rightarrow> (None, s) | (Some b2, s) \<Rightarrow>
      case getByte s of (None, s) \<Rightarrow> (None, s) | (Some b3, s) \<Rightarrow>
        (Some (unat b0 + 256 * unat b1, unat b2 + 256 * unat b3), s))"

definition stored_block :: "flate dstream \<Rightarrow> flate dstream res" where
  "stored_block d =
     (case stored_header (fz_stream (sub d)) of
        (None, s) \<Rightarrow> Inr (d\<lparr>eof := True, sub := (sub d)\<lparr>fz_stream := s\<rparr>\<rparr>)
      | (Some (blockLen, check), s) \<Rightarrow>
          if check \<noteq> 0xffff - blockLen \<and> (blockLen \<noteq> 0 \<or> check \<noteq> 0)
          then Inl (FormatError ''Bad uncompressed block length in flate stream'')
          else
            let bl = bufferLength d;
                d1 = ensureBuffer (bl + blockLen) d
            in if blockLen = 0 then
                 let (peeked, s) = peekByte s
                 in Inr (d1\<lparr>bufferLength := bl + blockLen, eof := eof d1 \<or> peeked = None,
                      sub := \<lparr>fz_stream = s, fz_codeSize = 0, fz_codeBuf = 0\<rparr>\<rparr>)
               else
                 let (block, s) = getBytes blockLen s
                 in rbind (arr_set (buffer d1) block bl) (\<lambda>buf.
                      Inr (d1\<lparr>buffer := buf, bufferLength := bl + blockLen, eof := eof d1 \<or> length block < blockLen,
                        sub := \<lparr>fz_stream = s, fz_codeSize = 0, fz_codeBuf = 0\<rparr>\<rparr>)))"

text \<open>The tables of a compressed block.\<close>

definition block_tables :: "nat \<Rightarrow> flate \<Rightarrow> (huffman \<times> huffman \<times> flate) res" where
  "block_tables kind x =
     (if kind = 1 then Inr (fixedLitCodeTab, fixedDistCodeTab, x)
      else if kind = 2 then dynamic_tables x
      else Inl (FormatError ''Unknown block type in flate stream''))"

definition flate_readBlock :: "flate dstream \<Rightarrow> flate dstream res" where
  "flate_readBlock d =
     (case getBits 3 (sub d) of
        Inl e \<Rightarrow> Inr (d\<lparr>eof := True, sub := (sub d)\<lparr>fz_stream := fz_stream (snd (refill 3 (sub d)))\<rparr>\<rparr>)
      | Inr (hdr, x) \<Rightarrow>
          let d = d\<lparr>eof := eof d \<or> odd hdr, sub := x\<rparr>;
              kind = hdr div 2
          in if kind = 0 then stored_block d
             else
               rbind (block_tables kind x) (\<lambda>(litCodeTable, distCodeTable, x).
                 symbols_loop litCodeTable distCodeTable (d\<lparr>sub := x\<rparr>) (length (buffer d)) (bufferLength d)))"

definition mk_flate :: "bytes \<Rightarrow> rat \<Rightarrow> flate dstream res" where
  "mk_flate bs maybeLength =
     (let s = mk_stream bs None None;
          (cmf, s) = getByte s;
          (flg, s) = getByte s
      in case (cmf, flg) of
           (Some c, Some f) \<Rightarrow>
             if unat c mod 16 \<noteq> 8 then Inl (FormatError ''Unknown compression method in flate stream'')
             else if (unat c * 256 + unat f) mod 31 \<noteq> 0 then Inl (FormatError ''Bad FCHECK in flate stream'')
             else if bit f 5 then Inl (FormatError ''FDICT bit set in flate stream'')
             else Inr (mk_dstream maybeLength \<lparr>fz_stream = s, fz_codeSize = 0, fz_codeBuf = 0\<rparr>)
         | _ \<Rightarrow> Inl (FormatError ''Invalid header in flate stream''))"

section \<open>Decoding on the bytes decoded so far\<close>

definition lz_copy :: "bytes \<Rightarrow> nat \<Rightarrow> nat \<Rightarrow> bytes" where
  "lz_copy c len distance = foldl (\<lambda>c k. c @ [rdi c (int (length c) - int distance)]) c [0..<len]"

function symbols :: "huffman \<Rightarrow> huffman \<Rightarrow> bytes \<Rightarrow> flate \<Rightarrow> (bytes \<times> flate) res" where
  "symbols lit dst c x =
     rbind (getCode lit x) (\<lambda>(code1, x).
       if code1 < 256 then symbols lit dst (c @ [of_nat code1]) x
       else if code1 = 256 then Inr (c, x)
       else
         rbind (get_extra lengthDecode (code1 - 257) x) (\<lambda>(len, x).
         rbind (getCode dst x) (\<lambda>(code2, x).
         rbind (get_extra distDecode code2 x) (\<lambda>(distance, x).
           symbols lit dst (lz_copy c len distance) x))))"
  by pat_completeness auto
termination
  by (relation "measure (\<lambda>(l, t, c, x). bits_left x)") (auto dest!: getCode_bits get_extra_bits)

declare symbols.simps [simp del]

lemma length_lz_copy [simp]: "length (lz_copy c len distance) = length c + len"
  unfolding lz_copy_def by (induction len) simp_all

lemma lz_copy_prefix: "\<exists>ys. lz_copy c len distance = c @ ys"
  unfolding lz_copy_def by (induction len) auto

lemma rdi_append_zeros: "rdi (b @ zeros m) (int (length b) - int distance) = rdi b (int (length b) - int distance)"
  by (cases "distance = 0") (auto simp: rdi_def rd_def nth_append)

lemma copy_back_lz:
  assumes "len \<le> m"
  shows "copy_back (length c) len distance (c @ zeros m) = lz_copy c len distance @ zeros (m - len)"
  using assms
proof (induction len)
  case 0
  show ?case by (simp add: copy_back_def lz_copy_def)
next
  case (Suc k)
  let ?b = "lz_copy c k distance"
  have "copy_back (length c) (Suc k) distance (c @ zeros m)
      = (?b @ zeros (m - k))[length ?b := rdi (?b @ zeros (m - k)) (int (length ?b) - int distance)]"
    using Suc by (simp add: copy_back_def)
  also have "\<dots> = ?b @ rdi ?b (int (length ?b) - int distance) # zeros (m - k - 1)"
    using Suc.prems by (subst rdi_append_zeros) (simp add: update_append_zeros)
  finally show ?case by (simp add: lz_copy_def)
qed

lemma grown_spec:
  assumes "buffer d = c @ zeros m" and "limit = length (buffer d)" and "0 < minBufferLength d"
  obtains m1 where "grown (length c) n limit d = (d\<lparr>buffer := c @ zeros m1\<rparr>, length c + m1)" and "n \<le> m1"
proof (cases "limit \<le> length c + n")
  case True
  have "\<exists>k. ensureBuffer (length c + n) d = d\<lparr>buffer := buffer d @ zeros k\<rparr>"
  proof (cases "length c + n \<le> length (buffer d)")
    case True
    then have "ensureBuffer (length c + n) d = d\<lparr>buffer := buffer d @ zeros 0\<rparr>"
      by (cases d) (simp add: ensureBuffer_def zeros_def)
    then show ?thesis ..
  qed (auto simp: ensureBuffer_def Let_def)
  then obtain zs where zs: "ensureBuffer (length c + n) d = d\<lparr>buffer := c @ zeros m @ zeros zs\<rparr>"
    using assms(1) by auto
  moreover have "length c + n \<le> length (buffer (ensureBuffer (length c + n) d))"
    using assms(3) by (rule ensureBuffer_length)
  ultimately show ?thesis using True that [of "m + zs"] by (simp add: grown_def)
next
  case False
  then show ?thesis using assms that [of m] by (cases d) (simp add: grown_def)
qed

lemma symbols_loop_refines:
  assumes "buffer d = c @ zeros m" and "limit = length (buffer d)" and "0 < minBufferLength d"
  shows "case symbols lit dst c (sub d) of
      Inl e \<Rightarrow> symbols_loop lit dst d limit (length c) = Inl e
    | Inr (c', x') \<Rightarrow> \<exists>m'. symbols_loop lit dst d limit (length c)
        = Inr (d\<lparr>buffer := c' @ zeros m', bufferLength := length c', sub := x'\<rparr>)"
  using assms
proof (induction "bits_left (sub d)" arbitrary: c d m limit rule: less_induct)
  case less
  show ?case
  proof (cases "getCode lit (sub d)")
    case (Inl e)
    then show ?thesis by (simp add: symbols.simps symbols_loop.simps)
  next
    case (Inr r)
    obtain code1 x where c1: "getCode lit (sub d) = Inr (code1, x)" using Inr by (cases r) simp
    note b1 = getCode_bits [OF c1]
    show ?thesis
    proof (cases "code1 < 256")
      case True
      obtain m1 where g: "grown (length c) 1 limit d = (d\<lparr>buffer := c @ zeros m1\<rparr>, length c + m1)" and m1: "1 \<le> m1"
        using grown_spec [OF less.prems] .
      have u: "(c @ zeros m1)[length c := of_nat code1] = (c @ [of_nat code1]) @ zeros (m1 - 1)"
        using m1 by (simp add: update_append_zeros)
      let ?d = "d\<lparr>buffer := (c @ [of_nat code1]) @ zeros (m1 - 1), sub := x\<rparr>"
      have "symbols_loop lit dst d limit (length c) = symbols_loop lit dst ?d (length c + m1) (length (c @ [of_nat code1 :: u8]))"
        using c1 True g u by (subst symbols_loop.simps) simp
      moreover have "symbols lit dst c (sub d) = symbols lit dst (c @ [of_nat code1]) x"
        using c1 True by (subst symbols.simps) simp
      ultimately show ?thesis
        using less.hyps [of ?d "c @ [of_nat code1]" "m1 - 1" "length c + m1"] less.prems(3) m1 b1
        by (auto split: sum.splits prod.splits)
    next
      case ge: False
      show ?thesis
      proof (cases "code1 = 256")
        case True
        have "symbols lit dst c (sub d) = Inr (c, x)" using c1 True by (subst symbols.simps) simp
        moreover have "symbols_loop lit dst d limit (length c)
            = Inr (d\<lparr>buffer := c @ zeros m, bufferLength := length c, sub := x\<rparr>)"
          using c1 True less.prems(1) by (subst symbols_loop.simps) (cases d, simp)
        ultimately show ?thesis by auto
      next
        case False
        note step = c1 ge False
        show ?thesis
        proof (cases "rbind (get_extra lengthDecode (code1 - 257) x) (\<lambda>(len, x). rbind (getCode dst x) (\<lambda>(code2, x).
            rbind (get_extra distDecode code2 x) (\<lambda>(distance, x). Inr (len, distance, x))))")
          case (Inl e)
          with step show ?thesis
            by (subst symbols.simps, subst symbols_loop.simps) (auto simp: rbind_eq_Inl)
        next
          case (Inr r)
          then obtain len x1 code2 x2 distance x3 where e: "get_extra lengthDecode (code1 - 257) x = Inr (len, x1)"
            "getCode dst x1 = Inr (code2, x2)" "get_extra distDecode code2 x2 = Inr (distance, x3)"
            by (auto simp: rbind_eq_Inr)
          obtain m1 where g: "grown (length c) len limit d = (d\<lparr>buffer := c @ zeros m1\<rparr>, length c + m1)" and m1: "len \<le> m1"
            using grown_spec [OF less.prems] .
          let ?c = "lz_copy c len distance"
          let ?d = "d\<lparr>buffer := ?c @ zeros (m1 - len), sub := x3\<rparr>"
          have "symbols_loop lit dst d limit (length c) = symbols_loop lit dst ?d (length c + m1) (length ?c)"
            using step e g copy_back_lz [OF m1, of c distance] by (subst symbols_loop.simps) simp
          moreover have "symbols lit dst c (sub d) = symbols lit dst ?c x3"
            using step e by (subst symbols.simps) simp
          moreover have "bits_left x3 < bits_left (sub d)"
            using b1 get_extra_bits [OF e(1)] getCode_bits [OF e(2)] get_extra_bits [OF e(3)] by linarith
          ultimately show ?thesis
            using less.hyps [of ?d ?c "m1 - len" "length c + m1"] less.prems(3) m1
            by (auto split: sum.splits prod.splits)
        qed
      qed
    qed
  qed
qed

text \<open>The effect of one block: the bytes it adds, whether the data ends, the new state.\<close>

definition stored :: "bool \<Rightarrow> flate \<Rightarrow> (bytes \<times> bool \<times> flate) res" where
  "stored fin x =
     (case stored_header (fz_stream x) of
        (None, s) \<Rightarrow> Inr ([], True, x\<lparr>fz_stream := s\<rparr>)
      | (Some (n, check), s) \<Rightarrow>
          if check \<noteq> 0xffff - n \<and> (n \<noteq> 0 \<or> check \<noteq> 0)
          then Inl (FormatError ''Bad uncompressed block length in flate stream'')
          else if n = 0 then
            let (peeked, s) = peekByte s
            in Inr ([], fin \<or> peeked = None, \<lparr>fz_stream = s, fz_codeSize = 0, fz_codeBuf = 0\<rparr>)
          else
            let (b, s) = getBytes n s
            in Inr (b @ zeros (n - length b), fin \<or> length b < n, \<lparr>fz_stream = s, fz_codeSize = 0, fz_codeBuf = 0\<rparr>))"

definition flate_block :: "bytes \<Rightarrow> flate \<Rightarrow> (bytes \<times> bool \<times> flate) res" where
  "flate_block c x =
     (case getBits 3 x of
        Inl e \<Rightarrow> Inr ([], True, x\<lparr>fz_stream := fz_stream (snd (refill 3 x))\<rparr>)
      | Inr (hdr, x1) \<Rightarrow>
          if hdr div 2 = 0 then stored (odd hdr) x1
          else rbind (block_tables (hdr div 2) x1) (\<lambda>(lit, dst, x2).
               rbind (symbols lit dst c x2) (\<lambda>(c', x3). Inr (drop (length c) c', odd hdr, x3))))"

subsection \<open>What every operation keeps of the stream\<close>

lemma getByte_ok: "stream_ok s \<Longrightarrow> getByte s = (b, s') \<Longrightarrow> stream_ok s'"
  by (auto simp: getByte_def stream_ok_def split: if_splits)

lemma refill_ok: "refill n x = (ok, x') \<Longrightarrow> stream_ok (fz_stream x) \<Longrightarrow> stream_ok (fz_stream x')"
proof (induction n x arbitrary: ok x' rule: refill.induct)
  case (1 n x)
  from "1.prems" "1.IH" show ?case
    by (subst (asm) refill.simps) (auto dest: getByte_ok split: if_splits prod.splits option.splits)
qed

lemma getBits_ok: "getBits n x = Inr (v, x') \<Longrightarrow> stream_ok (fz_stream x) \<Longrightarrow> stream_ok (fz_stream x')"
  by (auto simp: getBits_def drop_bits_def split: prod.splits if_splits dest: refill_ok)

lemma getCode_ok: "getCode t x = Inr (v, x') \<Longrightarrow> stream_ok (fz_stream x) \<Longrightarrow> stream_ok (fz_stream x')"
  by (cases "refill (snd t) x") (auto simp: getCode_def drop_bits_def Let_def split: prod.splits if_splits dest: refill_ok)

lemma get_extra_ok: "get_extra t code x = Inr (v, x') \<Longrightarrow> stream_ok (fz_stream x) \<Longrightarrow> stream_ok (fz_stream x')"
  by (auto simp: get_extra_def Let_def rbind_eq_Inr dest: getBits_ok split: if_splits)

text \<open>Both invariants at once: the stream stays well formed and no bits appear.\<close>

definition advances :: "flate \<Rightarrow> flate \<Rightarrow> bool" where
  "advances x x' \<longleftrightarrow> (stream_ok (fz_stream x) \<longrightarrow> stream_ok (fz_stream x')) \<and> bits_left x' \<le> bits_left x"

lemma advances_refl [simp]: "advances x x"
  by (simp add: advances_def)

lemma advances_trans: "advances x y \<Longrightarrow> advances y z \<Longrightarrow> advances x z"
  by (auto simp: advances_def)

lemma advances_ops:
  "getBits n x = Inr (v, x') \<Longrightarrow> advances x x'"
  "getCode t x = Inr (v, x') \<Longrightarrow> advances x x'"
  "get_extra tab code x = Inr (v, x') \<Longrightarrow> advances x x'"
  using getBits_ok [of n x v x'] getBits_bits [of n x v x'] getCode_ok [of t x v x'] getCode_bits [of t x v x']
    get_extra_ok [of tab code x v x'] get_extra_bits [of tab code x v x']
  by (auto simp: advances_def)

lemma symbols_advances: "symbols lit dst c x = Inr (c', x') \<Longrightarrow> advances x x' \<and> (\<exists>ys. c' = c @ ys)"
proof (induction lit dst c x arbitrary: c' x' rule: symbols.induct)
  case (1 lit dst c x)
  obtain code1 x1 where c1: "getCode lit x = Inr (code1, x1)"
    using "1.prems" by (subst (asm) symbols.simps) (auto simp: rbind_eq_Inr)
  note a1 = advances_ops(2) [OF c1]
  consider "code1 < 256" | "code1 = 256" | "256 < code1" by linarith
  then show ?case
  proof cases
    case 1
    then have "symbols lit dst (c @ [of_nat code1]) x1 = Inr (c', x')"
      using "1.prems" c1 by (subst (asm) symbols.simps) simp
    from "1.IH"(1) [OF c1 refl 1 this] a1 show ?thesis by (auto intro: advances_trans)
  next
    case 2
    then show ?thesis using "1.prems" c1 a1 by (subst (asm) symbols.simps) simp
  next
    case 3
    then obtain len x2 code2 x3 distance x4 where e: "get_extra lengthDecode (code1 - 257) x1 = Inr (len, x2)"
      "getCode dst x2 = Inr (code2, x3)" "get_extra distDecode code2 x3 = Inr (distance, x4)"
      "symbols lit dst (lz_copy c len distance) x4 = Inr (c', x')"
      using "1.prems" c1 by (subst (asm) symbols.simps) (auto simp: rbind_eq_Inr)
    have "advances x4 x' \<and> (\<exists>ys. c' = lz_copy c len distance @ ys)"
      using "1.IH"(2) [OF c1 refl _ _ e(1) refl e(2) refl e(3) refl e(4)] 3 by simp
    moreover have "advances x x4"
      using a1 advances_ops(3) [OF e(1)] advances_ops(2) [OF e(2)] advances_ops(3) [OF e(3)] by (blast intro: advances_trans)
    ultimately show ?thesis using lz_copy_prefix [of c len distance] by (auto intro: advances_trans)
  qed
qed

lemma codeLen_loop_advances: "codeLen_loop is lengths x = Inr (l, x') \<Longrightarrow> advances x x'"
  by (induction "is" arbitrary: lengths x) (auto simp: rbind_eq_Inr dest!: advances_ops(1) intro: advances_trans)

lemma lengths_loop_advances: "lengths_loop t i len cl x = Inr (l, x') \<Longrightarrow> advances x x'"
proof (induction "bits_left x" arbitrary: i len cl x rule: less_induct)
  case less
  show ?case
  proof (cases "i < length cl")
    case True
    then obtain code x1 where c1: "getCode t x = Inr (code, x1)"
      using less.prems by (subst (asm) lengths_loop.simps) (auto simp: rbind_eq_Inr)
    obtain j len' cl' x2 where "lengths_loop t j len' cl' x2 = Inr (l, x')" "advances x1 x2"
    proof (cases "code < 16 \<or> 18 < code")
      case small: True
      then show thesis using less.prems True c1 that [OF _ advances_refl]
        by (subst (asm) lengths_loop.simps) simp
    next
      case False
      obtain n off what :: nat where w: "(if code = 16 then (2, 3, len) else if code = 17 then (3, 3, 0) else (7, 11, 0)) = (n, off, what)"
        by (metis prod_cases3)
      have "rbind (getBits n x1) (\<lambda>(r, x). lengths_loop t (i + (r + off)) what (set_from i (r + off) (what mod 256) cl) x) = Inr (l, x')"
        using less.prems True c1 False w by (subst (asm) lengths_loop.simps) (simp add: Let_def)
      then obtain r x2 where "getBits n x1 = Inr (r, x2)"
          "lengths_loop t (i + (r + off)) what (set_from i (r + off) (what mod 256) cl) x2 = Inr (l, x')"
        by (auto simp: rbind_eq_Inr)
      then show thesis using that advances_ops(1) by blast
    qed
    moreover from this have "bits_left x2 < bits_left x" using getCode_bits [OF c1] by (auto simp: advances_def)
    ultimately show ?thesis using less.hyps advances_ops(2) [OF c1] by (blast intro: advances_trans)
  next
    case False
    then show ?thesis using less.prems by (subst (asm) lengths_loop.simps) simp
  qed
qed

lemma block_tables_advances: "block_tables kind x = Inr (lit, dst, x') \<Longrightarrow> advances x x'"
  by (auto simp: block_tables_def dynamic_tables_def Let_def rbind_eq_Inr split: if_splits
      dest!: advances_ops(1) codeLen_loop_advances lengths_loop_advances)
    (blast intro: advances_trans)

lemma stored_header_advances:
  assumes "stored_header s = (r, s')"
  shows "(stream_ok s \<longrightarrow> stream_ok s') \<and> s_end s' = s_end s \<and> s_pos s \<le> s_pos s'"
  using assms by (auto simp: stored_header_def getByte_def stream_ok_def split: if_splits prod.splits option.splits)

lemma stored_advances:
  assumes "stored fin x = Inr (out, fin', x')" and "stream_ok (fz_stream x)"
  shows "advances x x'"
proof -
  obtain r s where h: "stored_header (fz_stream x) = (r, s)" by fastforce
  from stored_header_advances [OF h] assms(2) have s: "stream_ok s" "s_end s = s_end (fz_stream x)" "s_pos (fz_stream x) \<le> s_pos s"
    by auto
  have g: "stream_ok s2 \<and> s_end s2 = s_end s \<and> s_pos s \<le> s_pos s2" if "getBytes n s = (b, s2)" for n b s2
    using that s(1) by (auto simp: getBytes_def Let_def stream_ok_def)
  show ?thesis
    using assms(1) h s g peekByte_spec [OF s(1)]
    by (auto simp: stored_def advances_def bits_left_def split: option.splits if_splits prod.splits
        intro!: add_le_mono diff_le_mono2 dest!: g)
qed

lemma flate_block_progress:
  assumes "flate_block c x = Inr (out, False, x')" and "stream_ok (fz_stream x)"
  shows "stream_ok (fz_stream x') \<and> bits_left x' < bits_left x"
proof -
  obtain hdr x1 where h: "getBits 3 x = Inr (hdr, x1)" using assms(1) by (auto simp: flate_block_def split: sum.splits)
  have b: "stream_ok (fz_stream x1)" "bits_left x1 < bits_left x"
    using getBits_ok [OF h assms(2)] getBits_bits [OF h] by simp_all
  have "advances x1 x'"
  proof (cases "hdr div 2 = 0")
    case True
    then show ?thesis using assms(1) h stored_advances [OF _ b(1)] by (simp add: flate_block_def)
  next
    case False
    then show ?thesis using assms(1) h
      by (auto simp: flate_block_def rbind_eq_Inr dest!: block_tables_advances symbols_advances intro: advances_trans)
  qed
  with b show ?thesis by (auto simp: advances_def)
qed

subsection \<open>The buffer\<close>

lemma ensureBuffer_update: "ensureBuffer n (d\<lparr>eof := e, sub := x\<rparr>) = (ensureBuffer n d)\<lparr>eof := e, sub := x\<rparr>"
  by (simp add: ensureBuffer_def Let_def)

lemma stored_refines:
  assumes ok: "ds_ok d" and ne: "\<not> eof d" and s: "stream_ok (fz_stream x)"
  shows "case stored fin x of
      Inl e \<Rightarrow> stored_block (d\<lparr>eof := fin, sub := x\<rparr>) = Inl e
    | Inr (out, fin', x') \<Rightarrow> \<exists>d'. stored_block (d\<lparr>eof := fin, sub := x\<rparr>) = Inr d' \<and> appends d out fin' x' d'"
proof -
  obtain r s1 where h: "stored_header (fz_stream x) = (r, s1)" by fastforce
  have s1: "stream_ok s1" using stored_header_advances [OF h] s by simp
  show ?thesis
  proof (cases r)
    case None
    with h ok show ?thesis by (simp add: stored_def stored_block_def appends_def ds_ok_def content_def)
  next
    case (Some nc)
    obtain n check where nc: "nc = (n, check)" by fastforce
    show ?thesis
    proof (cases "check \<noteq> 0xffff - n \<and> (n \<noteq> 0 \<or> check \<noteq> 0)")
      case True
      then show ?thesis using h Some nc by (simp add: stored_def stored_block_def)
    next
      case good: False
      obtain m where m: "buffer (ensureBuffer (bufferLength d + n) d) = content d @ zeros m"
          "bufferLength d + n \<le> bufferLength d + m"
        using obtain_ensured [OF ok ne] .
      show ?thesis
      proof (cases "n = 0")
        case True
        then show ?thesis using h Some nc good m peekByte_spec [OF s1]
          by (auto simp: stored_def stored_block_def Let_def ensureBuffer_update intro!: appendsI [OF ok, of _ _ m])
      next
        case False
        obtain b s2 where g: "getBytes n s1 = (b, s2)" "length b \<le> n"
          using getBytes_spec [OF s1, of n] False by auto
        have "arr_set (content d @ zeros m) b (bufferLength d)
            = Inr (content d @ (b @ zeros (n - length b)) @ zeros (m - n))"
        proof -
          have "zeros (m - length b) = zeros (n - length b) @ (zeros (m - n) :: bytes)"
            using m g(2) by (simp add: zeros_append)
          then show ?thesis using m ok g(2) by (simp add: arr_set_ok blit_append_zeros)
        qed
        then show ?thesis using h Some nc good m g False
          by (auto simp: stored_def stored_block_def Let_def ensureBuffer_update intro!: appendsI [OF ok, of _ _ "m - n"])
      qed
    qed
  qed
qed

lemma flate_refines:
  assumes ok: "ds_ok d" and ne: "\<not> eof d" and s: "stream_ok (fz_stream (sub d))"
  shows "case flate_block (content d) (sub d) of
      Inl e \<Rightarrow> flate_readBlock d = Inl e
    | Inr (out, fin, x') \<Rightarrow> \<exists>d'. flate_readBlock d = Inr d' \<and> appends d out fin x' d'"
proof (cases "getBits 3 (sub d)")
  case (Inl e)
  then show ?thesis using ok by (simp add: flate_block_def flate_readBlock_def appends_end)
next
  case (Inr r)
  obtain hdr x where h: "getBits 3 (sub d) = Inr (hdr, x)" using Inr by (cases r) simp
  show ?thesis
  proof (cases "hdr div 2 = 0")
    case True
    then have "flate_readBlock d = stored_block (d\<lparr>eof := odd hdr, sub := x\<rparr>)"
      "flate_block (content d) (sub d) = stored (odd hdr) x"
      using h ne by (simp_all add: flate_block_def flate_readBlock_def)
    then show ?thesis using stored_refines [OF ok ne getBits_ok [OF h s], of "odd hdr"] by (simp only:)
  next
    case False
    show ?thesis
    proof (cases "block_tables (hdr div 2) x")
      case (Inl e)
      then show ?thesis using h False by (simp add: flate_block_def flate_readBlock_def)
    next
      case (Inr t)
      obtain lit dst x2 where t: "block_tables (hdr div 2) x = Inr (lit, dst, x2)" using Inr by (cases t) simp
      let ?d = "d\<lparr>eof := odd hdr, sub := x2\<rparr>"
      have "buffer ?d = content d @ zeros (length (buffer d) - bufferLength d)" "0 < minBufferLength ?d"
        using ok ne append_take_drop_id [of "bufferLength d" "buffer d"] by (simp_all add: ds_ok_def content_def)
      note loop = symbols_loop_refines [OF this(1) refl this(2), of lit dst]
      have rb: "flate_readBlock d = symbols_loop lit dst ?d (length (buffer ?d)) (length (content d))"
        using h False t ne ok by (simp add: flate_readBlock_def)
      show ?thesis
      proof (cases "symbols lit dst (content d) x2")
        case (Inl e)
        then show ?thesis using loop h False t rb by (simp add: flate_block_def)
      next
        case (Inr cx)
        obtain c' x' where cx: "symbols lit dst (content d) x2 = Inr (c', x')" using Inr by (cases cx) simp
        obtain ys where ys: "c' = content d @ ys" using symbols_advances [OF cx] by blast
        obtain m' where "flate_readBlock d = Inr (?d\<lparr>buffer := c' @ zeros m', bufferLength := length c', sub := x'\<rparr>)"
          using loop cx rb by auto
        then show ?thesis using h False t cx ys ok
          by (auto simp: flate_block_def intro!: appendsI [OF ok, of _ _ m'])
      qed
    qed
  qed
qed

interpretation flate: block_decoder flate_readBlock flate_block "\<lambda>c x. stream_ok (fz_stream x)" bits_left
proof unfold_locales
  show "flate_readBlock d = Inl e"
    if "ds_ok d" "\<not> eof d" "stream_ok (fz_stream (sub d))" "flate_block (content d) (sub d) = Inl e" for d e
    using flate_refines [OF that(1-3)] that(4) by simp
  show "\<exists>d'. flate_readBlock d = Inr d' \<and> appends d out fin x' d'"
    if "ds_ok d" "\<not> eof d" "stream_ok (fz_stream (sub d))" "flate_block (content d) (sub d) = Inr (out, fin, x')"
    for d out fin x'
    using flate_refines [OF that(1-3)] that(4) by simp
qed (auto dest: flate_block_progress)

section \<open>Stored blocks\<close>

definition le16 :: "nat \<Rightarrow> bytes" where
  "le16 n = [of_nat (n mod 256), of_nat (n div 256)]"

text \<open>Data in stored blocks, the last one marked as final.\<close>

fun stored_encode :: "bytes list \<Rightarrow> bytes" where
  "stored_encode [] = []"
| "stored_encode (b # bs) =
     (if bs = [] then 1 else 0) # le16 (length b) @ le16 (0xffff - length b) @ b @ stored_encode bs"

lemma le16_value: "n < 65536 \<Longrightarrow> unat (of_nat (n mod 256) :: u8) + 256 * unat (of_nat (n div 256) :: u8) = n"
  by (simp add: unat_of_nat)

lemma stored_header_spec:
  assumes "stream_ok s" and "rest s = le16 n @ le16 k @ t" and "n < 65536" and "k < 65536"
  obtains s' where "stored_header s = (Some (n, k), s')" and "stream_ok s'" and "rest s' = t"
proof -
  have r: "rest s = of_nat (n mod 256) # of_nat (n div 256) # of_nat (k mod 256) # of_nat (k div 256) # t"
    using assms(2) by (simp add: le16_def)
  obtain s1 where 1: "getByte s = (Some (of_nat (n mod 256)), s1)" "rest s1 = of_nat (n div 256) # of_nat (k mod 256) # of_nat (k div 256) # t" "stream_ok s1"
    using getByte_Cons [OF assms(1) r] .
  obtain s2 where 2: "getByte s1 = (Some (of_nat (n div 256)), s2)" "rest s2 = of_nat (k mod 256) # of_nat (k div 256) # t" "stream_ok s2"
    using getByte_Cons [OF 1(3,2)] .
  obtain s3 where 3: "getByte s2 = (Some (of_nat (k mod 256)), s3)" "rest s3 = of_nat (k div 256) # t" "stream_ok s3"
    using getByte_Cons [OF 2(3,2)] .
  obtain s4 where 4: "getByte s3 = (Some (of_nat (k div 256)), s4)" "rest s4 = t" "stream_ok s4"
    using getByte_Cons [OF 3(3,2)] .
  have "stored_header s = (Some (n, k), s4)"
    unfolding stored_header_def 1(1) 2(1) 3(1) 4(1) prod.case option.case
    using le16_value [OF assms(3)] le16_value [OF assms(4)] by simp
  then show ?thesis using 4 that by blast
qed

lemma refill_byte:
  assumes "fz_codeSize x = 0" and "fz_codeBuf x = 0" and "getByte (fz_stream x) = (Some b, s)"
  shows "refill 3 x = (True, \<lparr>fz_stream = s, fz_codeSize = 8, fz_codeBuf = unat b\<rparr>)"
  using assms by (subst refill.simps, subst refill.simps) simp

lemma flate_block_stored:
  assumes ok: "stream_ok (fz_stream x)" and sz: "fz_codeSize x = 0" "fz_codeBuf x = 0"
    and r: "rest (fz_stream x) = (if fin then 1 else 0) # le16 (length b) @ le16 (0xffff - length b) @ b @ t"
    and b: "length b < 65536" and t: "fin \<or> t \<noteq> []"
  obtains x' where "flate_block c x = Inr (b, fin, x')" and "stream_ok (fz_stream x')" and "rest (fz_stream x') = t"
    and "fz_codeSize x' = 0" and "fz_codeBuf x' = 0"
proof -
  obtain s where s: "getByte (fz_stream x) = (Some (if fin then 1 else 0), s)"
      "rest s = le16 (length b) @ le16 (0xffff - length b) @ b @ t" "stream_ok s"
    using getByte_Cons [OF ok r] .
  define x1 where "x1 = drop_bits 3 \<lparr>fz_stream = s, fz_codeSize = 8, fz_codeBuf = (if fin then 1 else 0)\<rparr>"
  have "getBits 3 x = Inr (if fin then 1 else 0, x1)"
    using refill_byte [OF sz s(1)] by (simp add: getBits_def x1_def take_bit_nat_eq_self)
  then have fb: "flate_block c x = stored fin x1" by (simp add: flate_block_def)
  obtain s' where h: "stored_header s = (Some (length b, 0xffff - length b), s')" "stream_ok s'" "rest s' = b @ t"
  proof -
    have k: "0xffff - length b < 65536" by simp
    show ?thesis using stored_header_spec [OF s(3,2) b k] that by blast
  qed
  have x1: "fz_stream x1 = s" by (simp add: x1_def drop_bits_def)
  show ?thesis
  proof (cases "b = []")
    case True
    have "peekByte s' = ((case t of [] \<Rightarrow> None | y # _ \<Rightarrow> Some y), s')" using peekByte_spec [OF h(2)] h(3) True by simp
    then have "stored fin x1 = Inr (b, fin, \<lparr>fz_stream = s', fz_codeSize = 0, fz_codeBuf = 0\<rparr>)"
      using True h t by (auto simp: stored_def x1 split: list.splits)
    then show ?thesis using that [of "\<lparr>fz_stream = s', fz_codeSize = 0, fz_codeBuf = 0\<rparr>"] fb h True by simp
  next
    case False
    obtain s2 where g: "getBytes (length b) s' = (b, s2)" "rest s2 = t" "stream_ok s2"
      using getBytes_rest [OF h(2), of "length b"] h(3) False by auto
    have "stored fin x1 = Inr (b, fin, \<lparr>fz_stream = s2, fz_codeSize = 0, fz_codeBuf = 0\<rparr>)"
      using False h g by (simp add: stored_def x1 zeros_def)
    then show ?thesis using that [of "\<lparr>fz_stream = s2, fz_codeSize = 0, fz_codeBuf = 0\<rparr>"] fb g by simp
  qed
qed

lemma decode_stored:
  assumes "bs \<noteq> []" and "\<forall>b \<in> set bs. length b < 65536" and "stream_ok (fz_stream x)"
    and "fz_codeSize x = 0" and "fz_codeBuf x = 0" and "rest (fz_stream x) = stored_encode bs @ t"
  shows "decode_all flate_block c x = Some (Inr (c @ concat bs))"
  using assms
proof (induction bs arbitrary: c x)
  case (Cons b bs)
  have r: "rest (fz_stream x) = (if bs = [] then 1 else 0) # le16 (length b) @ le16 (0xffff - length b) @ b @ stored_encode bs @ t"
    using Cons.prems(6) by simp
  have ne: "bs = [] \<or> stored_encode bs @ t \<noteq> []" by (cases bs) simp_all
  obtain x' where x': "flate_block c x = Inr (b, bs = [], x')" "stream_ok (fz_stream x')"
      "rest (fz_stream x') = stored_encode bs @ t" "fz_codeSize x' = 0" "fz_codeBuf x' = 0"
    using flate_block_stored [OF Cons.prems(3-5) r _ ne, of c] Cons.prems(2) by auto
  show ?case
  proof (cases "bs = []")
    case True
    then show ?thesis using x'(1) by simp
  next
    case False
    then show ?thesis using x' Cons.IH [of x' "c @ b"] Cons.prems(2) by (simp add: decode_all_more)
  qed
qed simp

text \<open>
  C29: a FlateStream inverts the storing of data.  Data in stored blocks of up to 65535 bytes
  behind a valid zlib header, with anything after the final block, is read back in chunks
  of any positive sizes.
\<close>

theorem flate_stored_roundtrip:
  assumes "bs \<noteq> []" and "\<forall>b \<in> set bs. length b < 65536" and "\<forall>n \<in> set ns. 0 < n"
  shows "\<exists>d0 d. mk_flate ([0x78, 0x01] @ stored_encode bs @ trailer) maybeLength = Inr d0 \<and>
    read_chunks flate_readBlock ns d0 = Some (Inr (take (sum_list ns) (concat bs), d))"
proof -
  let ?bytes = "[0x78, 0x01] @ stored_encode bs @ trailer"
  obtain s1 where 1: "getByte (mk_stream ?bytes None None) = (Some 0x78, s1)" "rest s1 = 1 # stored_encode bs @ trailer" "stream_ok s1"
    using getByte_Cons [of "mk_stream ?bytes None None"] by auto
  obtain s2 where 2: "getByte s1 = (Some 1, s2)" "rest s2 = stored_encode bs @ trailer" "stream_ok s2"
    using getByte_Cons [OF 1(3,2)] .
  let ?x = "\<lparr>fz_stream = s2, fz_codeSize = 0, fz_codeBuf = 0\<rparr>"
  have mk: "mk_flate ?bytes maybeLength = Inr (mk_dstream maybeLength ?x)"
    using 1(1) 2(1) by (simp add: mk_flate_def Let_def)
  have "decode_all flate_block [] ?x = Some (Inr (concat bs))"
    using decode_stored [of bs ?x trailer "[]"] assms 2 by simp
  then have "flate.represents (mk_dstream maybeLength ?x) (concat bs)"
    using 2(3) by (intro flate.fresh_represents) simp_all
  from flate.read_chunks_represents [OF this assms(3)] mk show ?thesis by simp
qed

theorem flate_stored_roundtrip_witness:
  "\<exists>d0 d. mk_flate ([0x78, 0x01] @ stored_encode [[1, 2], [], [3]] @ []) 0 = Inr d0 \<and>
    read_chunks flate_readBlock [1, 5] d0 = Some (Inr (take (sum_list [1, 5]) (concat [[1, 2], [], [3]]), d))"
  by (rule flate_stored_roundtrip) simp_all

text \<open>
  C30: decoding always ends.  Whatever bytes a FlateStream is opened on, every read returns:
  the loops over blocks, symbols and code lengths consume at least one bit each turn.
\<close>

theorem flate_returns:
  assumes "mk_flate bs maybeLength = Inr d"
  shows "\<exists>r. ds_getBytes flate_readBlock n d = Some r"
proof -
  obtain s where "d = mk_dstream maybeLength \<lparr>fz_stream = s, fz_codeSize = 0, fz_codeBuf = 0\<rparr>" "stream_ok s"
    using assms by (auto simp: mk_flate_def Let_def split: prod.splits option.splits if_splits dest!: getByte_ok [rotated])
  then show ?thesis by (intro flate.getBytes_returns) simp_all
qed

theorem flate_returns_witness:
  "\<exists>r. ds_getBytes flate_readBlock 10
     (mk_dstream 0 \<lparr>fz_stream = snd (getByte (snd (getByte (mk_stream [0x78, 0x01, 6, 7] None None)))), fz_codeSize = 0, fz_codeBuf = 0\<rparr>) = Some r"
  by (rule flate_returns [of "[0x78, 0x01, 6, 7]" 0])
    (simp add: mk_flate_def getByte_def mk_stream_def)


end
