(* ===== verification/Huffman.thy ===== *)
theory Huffman
  imports Flate
begin

text \<open>
  The Huffman tables of FlateStream are right: for every list of code lengths that a prefix
  code can have, \<open>generateHuffmanTable\<close> maps every bit pattern that starts with the
  canonical code word of a symbol to that symbol and the length of its word.  With it the
  decoder inverts every encoding of literals and matches by canonical codes.
\<close>

section \<open>Canonical codes\<close>

text \<open>The symbols whose code words precede those of length \<open>len\<close> from symbol \<open>v\<close> on.\<close>

definition assigned :: "nat list \<Rightarrow> nat \<Rightarrow> nat \<Rightarrow> nat set" where
  "assigned ls len v = {u. u < length ls \<and> 0 < ls ! u \<and> (ls ! u < len \<or> ls ! u = len \<and> u < v)}"

definition code_before :: "nat list \<Rightarrow> nat \<Rightarrow> nat \<Rightarrow> nat" where
  "code_before ls len v = (\<Sum>u \<in> assigned ls len v. 2 ^ (len - ls ! u))"

definition canonical :: "nat list \<Rightarrow> nat \<Rightarrow> nat" where
  "canonical ls v = code_before ls (ls ! v) v"

text \<open>The lengths of a prefix code: the Kraft sum, scaled to integers, is at most one.\<close>

definition prefix_lengths :: "nat list \<Rightarrow> bool" where
  "prefix_lengths ls \<longleftrightarrow>
     (\<Sum>u \<in> {u. u < length ls \<and> 0 < ls ! u}. 2 ^ (max_length ls - ls ! u)) \<le> (2 ^ max_length ls :: nat)"

lemma finite_assigned [simp]: "finite (assigned ls len v)"
  by (simp add: assigned_def)

lemma max_length_fold: "foldl (\<lambda>m l. if m < l then l else m) a ls = foldl max a (ls :: nat list)"
  by (induction ls arbitrary: a) (auto simp: max_def intro!: arg_cong [of _ _ "\<lambda>a. foldl max a _"])

lemma foldl_max: "a \<le> foldl max a ls" "u < length ls \<Longrightarrow> ls ! u \<le> foldl max a (ls :: nat list)"
proof (induction ls arbitrary: a u)
  case (Cons l ls)
  { case 1 show ?case using Cons.IH(1) [of "max a l"] by simp }
  { case 2 show ?case using Cons.IH(1) [of "max a l"] Cons.IH(2) [of "u - 1" "max a l"] 2 by (cases u) auto }
qed simp_all

lemma max_length_ge: "u < length ls \<Longrightarrow> ls ! u \<le> max_length ls"
  by (simp add: max_length_def max_length_fold foldl_max(2))

lemma code_before_scaled:
  assumes "len \<le> m"
  shows "code_before ls len v * 2 ^ (m - len) = (\<Sum>u \<in> assigned ls len v. 2 ^ (m - ls ! u))"
proof -
  have "code_before ls len v * 2 ^ (m - len) = (\<Sum>u \<in> assigned ls len v. 2 ^ (len - ls ! u) * 2 ^ (m - len))"
    by (simp add: code_before_def sum_distrib_right)
  also have "\<dots> = (\<Sum>u \<in> assigned ls len v. 2 ^ (m - ls ! u))"
    using assms by (intro sum.cong) (auto simp: assigned_def simp flip: power_add)
  finally show ?thesis .
qed

lemma assigned_next: "assigned ls len (Suc v) = (if v < length ls \<and> ls ! v = len \<and> 0 < len then insert v (assigned ls len v) else assigned ls len v)"
  by (auto simp: assigned_def less_Suc_eq)

lemma assigned_length: "assigned ls (Suc len) 0 = assigned ls len (length ls)"
  by (auto simp: assigned_def less_Suc_eq)

lemma code_before_next:
  "code_before ls len (Suc v) = code_before ls len v + (if v < length ls \<and> ls ! v = len \<and> 0 < len then 1 else 0)"
  by (auto simp: code_before_def assigned_next) (simp add: assigned_def)

lemma code_before_length: "code_before ls (Suc len) 0 = 2 * code_before ls len (length ls)"
proof -
  have "code_before ls (Suc len) 0 = (\<Sum>u \<in> assigned ls len (length ls). 2 * 2 ^ (len - ls ! u))"
    unfolding code_before_def assigned_length
    by (intro sum.cong) (auto simp: assigned_def Suc_diff_le)
  then show ?thesis by (simp add: code_before_def sum_distrib_left)
qed

lemma canonical_bound:
  assumes "prefix_lengths ls" and "v < length ls" and "0 < ls ! v"
  shows "canonical ls v < 2 ^ (ls ! v)"
proof -
  let ?m = "max_length ls" and ?l = "ls ! v"
  have le: "?l \<le> ?m" using assms(2) by (rule max_length_ge)
  have "(canonical ls v + 1) * 2 ^ (?m - ?l) = code_before ls ?l (Suc v) * 2 ^ (?m - ?l)"
    using assms(2,3) by (simp add: canonical_def code_before_next)
  also have "\<dots> \<le> (\<Sum>u \<in> {u. u < length ls \<and> 0 < ls ! u}. 2 ^ (?m - ls ! u))"
    unfolding code_before_scaled [OF le] by (intro sum_mono2) (auto simp: assigned_def)
  also have "\<dots> \<le> 2 ^ ?m" using assms(1) by (simp add: prefix_lengths_def)
  also have "\<dots> = 2 ^ ?l * 2 ^ (?m - ?l)" using le by (simp flip: power_add)
  finally have "canonical ls v + 1 \<le> 2 ^ ?l" by (simp only: mult_le_cancel2) simp
  then show ?thesis by simp
qed

text \<open>A later code word is beyond every extension of an earlier one.\<close>

lemma canonical_earlier:
  assumes "u \<in> assigned ls len v" and "ls ! u \<le> len"
  shows "(canonical ls u + 1) * 2 ^ (len - ls ! u) \<le> code_before ls len v"
proof -
  have u: "u < length ls" "0 < ls ! u" using assms(1) by (auto simp: assigned_def)
  have "(canonical ls u + 1) * 2 ^ (len - ls ! u) = code_before ls (ls ! u) (Suc u) * 2 ^ (len - ls ! u)"
    using u by (simp add: canonical_def code_before_next)
  also have "\<dots> = (\<Sum>w \<in> assigned ls (ls ! u) (Suc u). 2 ^ (len - ls ! w))"
    by (rule code_before_scaled [OF assms(2)])
  also have "\<dots> \<le> code_before ls len v"
    unfolding code_before_def using assms by (intro sum_mono2) (auto simp: assigned_def)
  finally show ?thesis .
qed

section \<open>Reversed code words\<close>

lemma reverse_code_Suc: "reverse_code (Suc n) c = 2 * reverse_code n c + c div 2 ^ n mod 2"
proof -
  have "foldl (\<lambda>(code2, t) i. (2 * code2 + t mod 2, t div 2)) (a, t) [0..<n] = (a', t') \<Longrightarrow> t' = t div 2 ^ n" for a t a' t' :: nat
    by (induction n arbitrary: a' t') (auto simp: power_Suc2 div_mult2_eq simp del: power_Suc split: prod.splits)
  then show ?thesis
    by (auto simp: reverse_code_def split: prod.split)
qed

lemma reverse_code_0 [simp]: "reverse_code 0 c = 0"
  by (simp add: reverse_code_def)

lemma reverse_code_bound: "reverse_code n c < 2 ^ n"
  by (induction n) (auto simp: reverse_code_Suc)

lemma bit_reverse_code: "bit (reverse_code n c) i \<longleftrightarrow> i < n \<and> bit c (n - 1 - i)"
proof (induction n arbitrary: i)
  case (Suc n)
  have r: "reverse_code (Suc n) c = 2 * reverse_code n c + (if bit c n then 1 else 0)"
    by (simp add: reverse_code_Suc bit_iff_odd mod_2_eq_odd)
  show ?case
  proof (cases i)
    case 0
    then show ?thesis by (simp add: r bit_0)
  next
    case (Suc j)
    have "bit (reverse_code (Suc n) c) (Suc j) = bit (reverse_code n c) j"
      by (simp add: r bit_Suc)
    then show ?thesis using Suc Suc.IH [of j] by simp
  qed
qed simp

lemma reverse_code_mod:
  assumes "l \<le> len"
  shows "reverse_code len c mod 2 ^ l = reverse_code l (c div 2 ^ (len - l))"
proof -
  have "take_bit l (reverse_code len c) = reverse_code l (drop_bit (len - l) c)"
    using assms by (intro bit_eqI) (auto simp: bit_take_bit_iff bit_reverse_code bit_drop_bit_eq)
  then show ?thesis by (simp add: take_bit_eq_mod drop_bit_eq_div)
qed

lemma reverse_code_inj:
  assumes "reverse_code l a = reverse_code l b" and "a < 2 ^ l" and "b < 2 ^ l"
  shows "a = b"
proof -
  have "bit a i = bit b i" if "i < l" for i
    using arg_cong [OF assms(1), of "\<lambda>r. bit r (l - 1 - i)"] that by (simp add: bit_reverse_code)
  then have "take_bit l a = take_bit l b" by (intro bit_eqI) (auto simp: bit_take_bit_iff)
  then show ?thesis using assms(2,3) by (simp add: take_bit_nat_eq_self)
qed

section \<open>The table\<close>

lemma length_fill_codes [simp]: "length (fill_codes i skip v codes) = length codes"
  by (induction i skip v codes rule: fill_codes.induct) (subst fill_codes.simps, simp)

lemma nth_fill_codes:
  assumes "0 < skip" and "j < length codes"
  shows "fill_codes i skip v codes ! j = (if i \<le> j \<and> j mod skip = i mod skip then v else codes ! j)"
  using assms
proof (induction i skip v codes rule: fill_codes.induct)
  case (1 i skip v codes)
  show ?case
  proof (cases "i < length codes")
    case True
    then have "fill_codes i skip v codes = fill_codes (i + skip) skip v (codes[i := v])"
      using 1 by (subst fill_codes.simps) simp
    moreover have "i \<le> j \<and> j mod skip = i mod skip \<longleftrightarrow> j = i \<or> i + skip \<le> j \<and> j mod skip = i mod skip"
    proof -
      have "i + skip \<le> j" if "i \<le> j" "j mod skip = i mod skip" "j \<noteq> i"
      proof -
        have "skip dvd j - i" "0 < j - i" using that by (simp_all add: mod_eq_dvd_iff_nat)
        then show ?thesis using that(1) by (auto dest: dvd_imp_le)
      qed
      then show ?thesis using 1(2) by auto
    qed
    ultimately show ?thesis using 1 True by auto
  next
    case False
    then show ?thesis using 1 by (subst fill_codes.simps) auto
  qed
qed

definition table_ok :: "nat list \<Rightarrow> nat \<Rightarrow> nat \<Rightarrow> nat list \<Rightarrow> bool" where
  "table_ok ls len v codes \<longleftrightarrow> length codes = 2 ^ max_length ls \<and>
     (\<forall>u \<in> assigned ls len v. \<forall>j < 2 ^ max_length ls.
        j mod 2 ^ (ls ! u) = reverse_code (ls ! u) (canonical ls u) \<longrightarrow> codes ! j = ls ! u * 2 ^ 16 + u)"

lemma canonical_distinct:
  assumes k: "prefix_lengths ls" and u: "u \<in> assigned ls (ls ! v) v" and v: "v < length ls" "0 < ls ! v"
    and j: "j mod 2 ^ (ls ! u) = reverse_code (ls ! u) (canonical ls u)"
  shows "j mod 2 ^ (ls ! v) \<noteq> reverse_code (ls ! v) (canonical ls v)"
proof
  let ?lu = "ls ! u" and ?lv = "ls ! v"
  assume jv: "j mod 2 ^ ?lv = reverse_code ?lv (canonical ls v)"
  have le: "?lu \<le> ?lv" and u': "u < length ls" "0 < ?lu" using u by (auto simp: assigned_def)
  have "reverse_code ?lu (canonical ls u) = reverse_code ?lu (canonical ls v div 2 ^ (?lv - ?lu))"
    using j jv le reverse_code_mod [OF le, of "canonical ls v"] by (metis mod_mod_cancel le_imp_power_dvd)
  moreover have "canonical ls v div 2 ^ (?lv - ?lu) < 2 ^ ?lu"
    using canonical_bound [OF k v] le by (simp add: div_less_iff_less_mult flip: power_add)
  ultimately have "canonical ls u = canonical ls v div 2 ^ (?lv - ?lu)"
    using canonical_bound [OF k u'] by (blast intro: reverse_code_inj)
  moreover have "(canonical ls u + 1) * 2 ^ (?lv - ?lu) \<le> canonical ls v"
    using canonical_earlier [OF u le] by (simp add: canonical_def)
  ultimately show False
    by (metis add.commute div_less_iff_less_mult less_add_one not_less plus_1_eq_Suc zero_less_numeral zero_less_power)
qed

lemma add_code_ok:
  assumes k: "prefix_lengths ls" and t: "table_ok ls len v codes" and v: "v < length ls" and len: "0 < len"
  shows "\<exists>codes'. add_code ls len (2 ^ len) (codes, code_before ls len v) v = (codes', code_before ls len (Suc v)) \<and>
    table_ok ls len (Suc v) codes'"
proof (cases "ls ! v = len")
  case False
  then have "assigned ls len (Suc v) = assigned ls len v" by (simp add: assigned_next)
  with False t show ?thesis by (auto simp: add_code_def code_before_next table_ok_def)
next
  case True
  let ?codes = "fill_codes (reverse_code len (canonical ls v)) (2 ^ len) (len * 2 ^ 16 + v) codes"
  have c: "canonical ls v = code_before ls len v" using True by (simp add: canonical_def)
  have r: "reverse_code len (canonical ls v) < 2 ^ len" by (rule reverse_code_bound)
  have nth: "?codes ! j = (if j mod 2 ^ len = reverse_code len (canonical ls v) then len * 2 ^ 16 + v else codes ! j)"
    if "j < 2 ^ max_length ls" for j
  proof -
    have "j mod 2 ^ len = reverse_code len (canonical ls v) \<Longrightarrow> reverse_code len (canonical ls v) \<le> j"
      by (metis mod_less_eq_dividend)
    then show ?thesis using that t r by (auto simp: nth_fill_codes table_ok_def)
  qed
  have "table_ok ls len (Suc v) ?codes"
    unfolding table_ok_def
  proof (intro conjI ballI allI impI)
    fix u j
    assume u: "u \<in> assigned ls len (Suc v)" and j: "j < 2 ^ max_length ls"
      and m: "j mod 2 ^ (ls ! u) = reverse_code (ls ! u) (canonical ls u)"
    show "?codes ! j = ls ! u * 2 ^ 16 + u"
    proof (cases "u = v")
      case True
      then show ?thesis using nth [OF j] m \<open>ls ! v = len\<close> by simp
    next
      case False
      then have u': "u \<in> assigned ls len v" using u by (auto simp: assigned_next split: if_splits)
      have "j mod 2 ^ len \<noteq> reverse_code len (canonical ls v)"
        using canonical_distinct [OF k _ v _ m] u' len True by simp
      then show ?thesis using nth [OF j] t u' j m by (simp add: table_ok_def)
    qed
  qed (use t in \<open>simp add: table_ok_def\<close>)
  then show ?thesis using True len v c by (auto simp: add_code_def code_before_next)
qed

lemma add_codes_ok:
  assumes k: "prefix_lengths ls" and t: "table_ok ls len 0 codes" and len: "0 < len" and "n \<le> length ls"
  shows "\<exists>codes'. foldl (add_code ls len (2 ^ len)) (codes, code_before ls len 0) [0..<n] = (codes', code_before ls len n) \<and>
    table_ok ls len n codes'"
  using assms(4)
proof (induction n)
  case 0
  then show ?case using t by simp
next
  case (Suc n)
  then obtain codes' where "foldl (add_code ls len (2 ^ len)) (codes, code_before ls len 0) [0..<n] = (codes', code_before ls len n)"
    "table_ok ls len n codes'" by auto
  then show ?case using add_code_ok [OF k _ _ len, of n codes'] Suc.prems by simp
qed

lemma table_ok_next: "table_ok ls len (length ls) codes = table_ok ls (Suc len) 0 codes"
  by (simp add: table_ok_def assigned_length)

lemma add_lengths_ok:
  assumes k: "prefix_lengths ls"
  shows "\<exists>codes. foldl (add_length ls) (replicate (2 ^ max_length ls) 0, 0) [1..<n + 1] = (codes, code_before ls (n + 1) 0) \<and>
    table_ok ls (n + 1) 0 codes"
proof (induction n)
  case 0
  have "assigned ls 1 0 = {}" by (auto simp: assigned_def)
  then show ?case by (simp add: table_ok_def code_before_def)
next
  case (Suc n)
  then obtain codes where c: "foldl (add_length ls) (replicate (2 ^ max_length ls) 0, 0) [1..<n + 1] = (codes, code_before ls (n + 1) 0)"
    "table_ok ls (n + 1) 0 codes" by blast
  obtain codes' where c': "foldl (add_code ls (n + 1) (2 ^ (n + 1))) (codes, code_before ls (n + 1) 0) [0..<length ls]
      = (codes', code_before ls (n + 1) (length ls))" "table_ok ls (n + 1) (length ls) codes'"
    using add_codes_ok [OF k c(2)] by auto
  have "foldl (add_length ls) (replicate (2 ^ max_length ls) 0, 0) [1..<Suc n + 1] = (codes', code_before ls (Suc n + 1) 0)"
    using c(1) c'(1) by (simp add: add_length_def code_before_length)
  then show ?case using c'(2) by (simp add: table_ok_next)
qed

lemma generateHuffmanTable_correct:
  assumes "prefix_lengths ls" and "v < length ls" and "0 < ls ! v" and "j < 2 ^ max_length ls"
    and "j mod 2 ^ (ls ! v) = reverse_code (ls ! v) (canonical ls v)"
  shows "rdn (fst (generateHuffmanTable ls)) j = ls ! v * 2 ^ 16 + v"
proof -
  obtain codes where c: "foldl (add_length ls) (replicate (2 ^ max_length ls) 0, 0) [1..<max_length ls + 1]
      = (codes, code_before ls (max_length ls + 1) 0)" "table_ok ls (max_length ls + 1) 0 codes"
    using add_lengths_ok [OF assms(1)] by blast
  have "v \<in> assigned ls (max_length ls + 1) 0"
    using assms(2,3) max_length_ge [OF assms(2)] by (simp add: assigned_def)
  then show ?thesis using c assms(4,5) by (simp add: generateHuffmanTable_def Let_def table_ok_def rdn_def)
qed

section \<open>The bits ahead\<close>

text \<open>The bits ahead of the reader as one number, the next bit least significant.\<close>

fun bytes_value :: "bytes \<Rightarrow> nat" where
  "bytes_value [] = 0"
| "bytes_value (b # bs) = unat b + 256 * bytes_value bs"

definition ahead :: "flate \<Rightarrow> nat" where
  "ahead x = fz_codeBuf x + 2 ^ fz_codeSize x * bytes_value (rest (fz_stream x))"

definition reader_ok :: "flate \<Rightarrow> bool" where
  "reader_ok x \<longleftrightarrow> stream_ok (fz_stream x) \<and> fz_codeBuf x < 2 ^ fz_codeSize x"

lemma refill_spec:
  assumes "reader_ok x"
  shows "\<exists>x'. refill n x = (n \<le> bits_left x, x') \<and> reader_ok x' \<and> ahead x' = ahead x \<and> bits_left x' = bits_left x \<and>
    (n \<le> bits_left x \<longrightarrow> n \<le> fz_codeSize x') \<and> (\<not> n \<le> bits_left x \<longrightarrow> fz_codeSize x' = bits_left x)"
  using assms
proof (induction n x rule: refill.induct)
  case (1 n x)
  have ok: "stream_ok (fz_stream x)" "fz_codeBuf x < 2 ^ fz_codeSize x" using "1.prems" by (auto simp: reader_ok_def)
  have bl: "bits_left x = 8 * length (rest (fz_stream x)) + fz_codeSize x" using ok by (simp add: bits_left_def length_rest)
  show ?case
  proof (cases "fz_codeSize x < n")
    case False
    then show ?thesis using "1.prems" bl by (subst refill.simps) simp
  next
    case True
    show ?thesis
    proof (cases "rest (fz_stream x)")
      case Nil
      then show ?thesis using True "1.prems" bl getByte_Nil [OF ok(1)] by (subst refill.simps) simp
    next
      case (Cons b bs)
      obtain s where s: "getByte (fz_stream x) = (Some b, s)" "rest s = bs" "stream_ok s"
        using getByte_Cons [OF ok(1) Cons] .
      let ?x = "\<lparr>fz_stream = s, fz_codeSize = fz_codeSize x + 8, fz_codeBuf = fz_codeBuf x OR push_bit (fz_codeSize x) (unat b)\<rparr>"
      have v: "fz_codeBuf ?x = fz_codeBuf x + 2 ^ fz_codeSize x * unat b" using or_push_bit [OF ok(2)] by simp
      have "fz_codeBuf x + 2 ^ fz_codeSize x * unat b < 2 ^ fz_codeSize x * (unat b + 1)" using ok(2) by simp
      also have "\<dots> \<le> 2 ^ fz_codeSize x * 2 ^ 8" using u8_less [of b] by (intro mult_left_mono) simp_all
      finally have "reader_ok ?x" using s(3) v by (simp add: reader_ok_def power_add)
      moreover have "ahead ?x = ahead x" using Cons s(2) v by (simp add: ahead_def power_add algebra_simps)
      moreover have "bits_left ?x = bits_left x" using bl Cons s by (simp add: bits_left_def length_rest flip: length_rest)
      moreover have "refill n x = refill n ?x" using True s(1) by (subst refill.simps) simp
      ultimately show ?thesis using "1.IH" [OF True s(1) [symmetric] refl] by simp
    qed
  qed
qed

lemma drop_bits_spec:
  assumes "reader_ok x" and "n \<le> fz_codeSize x"
  shows "reader_ok (drop_bits n x)" and "ahead (drop_bits n x) = ahead x div 2 ^ n"
    and "bits_left (drop_bits n x) = bits_left x - n" and "take_bit n (fz_codeBuf x) = ahead x mod 2 ^ n"
proof -
  have p: "2 ^ fz_codeSize x = 2 ^ n * (2 ^ (fz_codeSize x - n) :: nat)" using assms(2) by (simp flip: power_add)
  then have a: "ahead x = fz_codeBuf x + 2 ^ n * (2 ^ (fz_codeSize x - n) * bytes_value (rest (fz_stream x)))"
    by (simp add: ahead_def)
  show "ahead (drop_bits n x) = ahead x div 2 ^ n" unfolding a by (simp add: ahead_def drop_bits_def drop_bit_eq_div)
  show "take_bit n (fz_codeBuf x) = ahead x mod 2 ^ n" unfolding a by (simp add: take_bit_eq_mod)
  show "reader_ok (drop_bits n x)" using assms p
    by (simp add: reader_ok_def drop_bits_def drop_bit_eq_div div_less_iff_less_mult mult.commute)
  show "bits_left (drop_bits n x) = bits_left x - n" using assms(2) by (simp add: bits_left_def drop_bits_def)
qed

lemma getBits_spec:
  assumes "reader_ok x" and "n \<le> bits_left x"
  shows "\<exists>x'. getBits n x = Inr (ahead x mod 2 ^ n, x') \<and> reader_ok x' \<and> ahead x' = ahead x div 2 ^ n \<and>
    bits_left x' = bits_left x - n"
proof -
  obtain x1 where r: "refill n x = (True, x1)" "reader_ok x1" "ahead x1 = ahead x" "bits_left x1 = bits_left x" "n \<le> fz_codeSize x1"
    using refill_spec [OF assms(1), of n] assms(2) by auto
  then show ?thesis using drop_bits_spec [OF r(2,5)] by (simp add: getBits_def)
qed

section \<open>Decoding symbols\<close>

text \<open>A table that maps every pattern that starts with the code word of a symbol to it.\<close>

definition decodes :: "huffman \<Rightarrow> nat list \<Rightarrow> bool" where
  "decodes t ls \<longleftrightarrow> (\<forall>v < length ls. 0 < ls ! v \<longrightarrow> v < 2 ^ 16 \<and> ls ! v \<le> snd t \<and>
     (\<forall>j < 2 ^ snd t. j mod 2 ^ (ls ! v) = reverse_code (ls ! v) (canonical ls v) \<longrightarrow> rdn (fst t) j = ls ! v * 2 ^ 16 + v))"

lemma generateHuffmanTable_decodes:
  "prefix_lengths ls \<Longrightarrow> length ls \<le> 2 ^ 16 \<Longrightarrow> decodes (generateHuffmanTable ls) ls"
  using generateHuffmanTable_correct [of ls] max_length_ge [of _ ls]
  by (auto simp: decodes_def) (simp_all add: generateHuffmanTable_def Let_def)

definition word :: "nat list \<Rightarrow> nat \<Rightarrow> nat" where
  "word ls v = reverse_code (ls ! v) (canonical ls v)"

lemma getCode_spec:
  assumes t: "decodes t ls" and v: "v < length ls" "0 < ls ! v" and x: "reader_ok x" "ls ! v \<le> bits_left x"
    and w: "ahead x mod 2 ^ (ls ! v) = word ls v"
  shows "\<exists>x'. getCode t x = Inr (v, x') \<and> reader_ok x' \<and> ahead x' = ahead x div 2 ^ (ls ! v) \<and>
    bits_left x' = bits_left x - ls ! v"
proof -
  let ?m = "snd t" and ?l = "ls ! v"
  obtain ok x1 where r: "refill ?m x = (ok, x1)" and x1: "reader_ok x1" "ahead x1 = ahead x" "bits_left x1 = bits_left x"
    and full: "?m \<le> bits_left x \<Longrightarrow> ?m \<le> fz_codeSize x1" and part: "\<not> ?m \<le> bits_left x \<Longrightarrow> fz_codeSize x1 = bits_left x"
    using refill_spec [OF x(1), of ?m] by auto
  have l: "?l \<le> ?m" "v < 2 ^ 16" using t v by (auto simp: decodes_def)
  have cs: "?l \<le> fz_codeSize x1" using full part l x(2) by linarith
  have "take_bit ?m (fz_codeBuf x1) mod 2 ^ ?l = ahead x mod 2 ^ ?l"
    using drop_bits_spec(4) [OF x1(1) cs] l x1(2) by (simp add: take_bit_eq_mod mod_mod_cancel le_imp_power_dvd)
  then have "rdn (fst t) (take_bit ?m (fz_codeBuf x1)) = ?l * 2 ^ 16 + v"
    using t v w by (simp add: decodes_def word_def take_bit_nat_less_exp)
  then have "getCode t x = Inr (v, drop_bits ?l x1)"
    using r v(2) cs l(2) by (cases t) (simp add: getCode_def Let_def)
  then show ?thesis using drop_bits_spec [OF x1(1) cs] x1 by simp
qed

text \<open>Fields of bits, the first field least significant.\<close>

type_synonym fields = "(nat \<times> nat) list"

fun fields_value :: "fields \<Rightarrow> nat" where
  "fields_value [] = 0"
| "fields_value ((n, v) # fs) = v + 2 ^ n * fields_value fs"

definition fields_length :: "fields \<Rightarrow> nat" where
  "fields_length fs = sum_list (map fst fs)"

definition starts :: "flate \<Rightarrow> fields \<Rightarrow> bool" where
  "starts x fs \<longleftrightarrow> reader_ok x \<and> fields_length fs \<le> bits_left x \<and> ahead x mod 2 ^ fields_length fs = fields_value fs"

lemma starts_field:
  assumes "starts x ((n, v) # fs)" and "v < 2 ^ n"
  shows "n \<le> bits_left x \<and> ahead x mod 2 ^ n = v \<and>
    (\<forall>x'. reader_ok x' \<and> ahead x' = ahead x div 2 ^ n \<and> bits_left x' = bits_left x - n \<longrightarrow> starts x' fs)"
proof -
  let ?N = "fields_length fs"
  have a: "ahead x mod (2 ^ n * 2 ^ ?N) = v + 2 ^ n * fields_value fs" and b: "n + ?N \<le> bits_left x"
    using assms(1) by (simp_all add: starts_def fields_length_def power_add)
  have m: "ahead x mod 2 ^ n = v"
    using arg_cong [OF a, of "\<lambda>k. k mod 2 ^ n"] assms(2) by (simp add: mod_mod_cancel)
  have "ahead x div 2 ^ n mod 2 ^ ?N = ahead x mod (2 ^ n * 2 ^ ?N) div 2 ^ n"
    by (simp add: mod_mult2_eq)
  also have "\<dots> = fields_value fs" unfolding a using assms(2) by simp
  finally show ?thesis using m b by (auto simp: starts_def)
qed

section \<open>Literals and matches\<close>

text \<open>
  The symbols of a compressed block: a literal byte, or a match given by its length symbol,
  its distance symbol and the extra bits of both.
\<close>

datatype token = Lit u8 | Match nat nat nat nat

definition base :: "nat list \<Rightarrow> nat \<Rightarrow> nat" where
  "base tab k = rdn tab k mod 2 ^ 16"

definition extra_bits :: "nat list \<Rightarrow> nat \<Rightarrow> nat" where
  "extra_bits tab k = rdn tab k div 2 ^ 16"

fun token_ok :: "nat list \<Rightarrow> nat list \<Rightarrow> token \<Rightarrow> bool" where
  "token_ok ll dl (Lit b) = (unat b < length ll \<and> 0 < ll ! unat b)"
| "token_ok ll dl (Match k e k' e') =
     (257 + k < length ll \<and> 0 < ll ! (257 + k) \<and> e < 2 ^ extra_bits lengthDecode k \<and>
      k' < length dl \<and> 0 < dl ! k' \<and> e' < 2 ^ extra_bits distDecode k')"

fun token_fields :: "nat list \<Rightarrow> nat list \<Rightarrow> token \<Rightarrow> fields" where
  "token_fields ll dl (Lit b) = [(ll ! unat b, word ll (unat b))]"
| "token_fields ll dl (Match k e k' e') =
     [(ll ! (257 + k), word ll (257 + k)), (extra_bits lengthDecode k, e), (dl ! k', word dl k'), (extra_bits distDecode k', e')]"

fun token_apply :: "bytes \<Rightarrow> token \<Rightarrow> bytes" where
  "token_apply c (Lit b) = c @ [b]"
| "token_apply c (Match k e k' e') = lz_copy c (base lengthDecode k + e) (base distDecode k' + e')"

lemma word_bound: "word ls v < 2 ^ (ls ! v)"
  by (simp add: word_def reverse_code_bound)

lemma starts_code:
  assumes "starts x ((ls ! v, word ls v) # fs)" and "decodes t ls" and "v < length ls" and "0 < ls ! v"
  obtains x' where "getCode t x = Inr (v, x')" and "starts x' fs"
proof -
  from starts_field [OF assms(1) word_bound] have f: "ls ! v \<le> bits_left x" "ahead x mod 2 ^ (ls ! v) = word ls v"
    "\<And>x'. reader_ok x' \<Longrightarrow> ahead x' = ahead x div 2 ^ (ls ! v) \<Longrightarrow> bits_left x' = bits_left x - ls ! v \<Longrightarrow> starts x' fs"
    by auto
  have "reader_ok x" using assms(1) by (simp add: starts_def)
  from getCode_spec [OF assms(2-4) this f(1,2)] f(3) that show ?thesis by blast
qed

lemma starts_extra:
  assumes "starts x ((extra_bits tab k, e) # fs)" and "e < 2 ^ extra_bits tab k"
  obtains x' where "get_extra tab k x = Inr (base tab k + e, x')" and "starts x' fs"
proof (cases "extra_bits tab k = 0")
  case True
  then have "starts x fs" "e = 0" using starts_field [OF assms] assms by (auto simp: starts_def)
  then show ?thesis using True that [of x] by (simp add: get_extra_def base_def extra_bits_def Let_def)
next
  case False
  from starts_field [OF assms] have f: "extra_bits tab k \<le> bits_left x" "ahead x mod 2 ^ extra_bits tab k = e"
    "\<And>x'. reader_ok x' \<Longrightarrow> ahead x' = ahead x div 2 ^ extra_bits tab k \<Longrightarrow> bits_left x' = bits_left x - extra_bits tab k \<Longrightarrow> starts x' fs"
    by auto
  have "reader_ok x" using assms(1) by (simp add: starts_def)
  from getBits_spec [OF this f(1)] f(2,3) obtain x' where "getBits (extra_bits tab k) x = Inr (e, x')" "starts x' fs" by auto
  then show ?thesis using False that [of x'] by (simp add: get_extra_def base_def extra_bits_def Let_def)
qed

lemma symbols_decode:
  assumes "decodes lit ll" and "decodes dst dl" and "\<forall>tk \<in> set tks. token_ok ll dl tk" and "256 < length ll" and "0 < ll ! 256"
    and "starts x (concat (map (token_fields ll dl) tks) @ (ll ! 256, word ll 256) # fs)"
  shows "\<exists>x'. symbols lit dst c x = Inr (foldl token_apply c tks, x') \<and> starts x' fs"
  using assms(3,6)
proof (induction tks arbitrary: c x)
  case Nil
  then obtain x' where "getCode lit x = Inr (256, x')" "starts x' fs"
    using starts_code [OF _ assms(1,4,5)] by auto
  then show ?case by (subst symbols.simps) simp
next
  case (Cons tk tks)
  let ?fs = "concat (map (token_fields ll dl) tks) @ (ll ! 256, word ll 256) # fs"
  show ?case
  proof (cases tk)
    case (Lit b)
    then obtain x' where x': "getCode lit x = Inr (unat b, x')" "starts x' ?fs"
      using starts_code [OF _ assms(1), of x "unat b" ?fs] Cons.prems by auto
    moreover have "unat b < 256" by (rule u8_less)
    ultimately have "symbols lit dst c x = symbols lit dst (c @ [b]) x'" by (subst symbols.simps) simp
    then show ?thesis using Cons.IH [OF _ x'(2)] Cons.prems(1) Lit by simp
  next
    case (Match k e k' e')
    have ok: "257 + k < length ll" "0 < ll ! (257 + k)" "e < 2 ^ extra_bits lengthDecode k" "k' < length dl" "0 < dl ! k'"
      "e' < 2 ^ extra_bits distDecode k'" using Cons.prems(1) Match by auto
    have s: "starts x ((ll ! (257 + k), word ll (257 + k)) # (extra_bits lengthDecode k, e) # (dl ! k', word dl k') #
        (extra_bits distDecode k', e') # ?fs)" using Cons.prems(2) Match by simp
    obtain x1 where x1: "getCode lit x = Inr (257 + k, x1)"
        "starts x1 ((extra_bits lengthDecode k, e) # (dl ! k', word dl k') # (extra_bits distDecode k', e') # ?fs)"
      using starts_code [OF s assms(1) ok(1,2)] .
    obtain x2 where x2: "get_extra lengthDecode k x1 = Inr (base lengthDecode k + e, x2)"
        "starts x2 ((dl ! k', word dl k') # (extra_bits distDecode k', e') # ?fs)"
      using starts_extra [OF x1(2) ok(3)] .
    obtain x3 where x3: "getCode dst x2 = Inr (k', x3)" "starts x3 ((extra_bits distDecode k', e') # ?fs)"
      using starts_code [OF x2(2) assms(2) ok(4,5)] .
    obtain x4 where x4: "get_extra distDecode k' x3 = Inr (base distDecode k' + e', x4)" "starts x4 ?fs"
      using starts_extra [OF x3(2) ok(6)] .
    have "symbols lit dst c x = symbols lit dst (token_apply c tk) x4"
      using x1(1) x2(1) x3(1) x4(1) Match by (subst symbols.simps) simp
    then show ?thesis using Cons.IH [OF _ x4(2)] Cons.prems(1) Match by simp
  qed
qed

end
