(* ===== verification/Predictor.thy ===== *)
theory Predictor
  imports Ascii_Filters Js_Numbers
begin

text \<open>
  \<open>PredictorStream\<close>: the PNG and TIFF predictors that follow Flate and LZW.  The rows are
  decoded on the real output buffer; the abstract effect of a row is a function of the row
  before it, and reading the stream gives back what a PNG or TIFF encoder predicted.
\<close>

section \<open>The stream\<close>

text \<open>
  The parameters are the entries of the parameter dictionary after \<open>||\<close> has replaced missing
  ones, as natural numbers whose products stay below \<open>2 ^ 31\<close>.
\<close>

record predictor =
  pr_stream :: stream
  pr_png :: bool
  pr_colors :: nat
  pr_bits :: nat
  pr_columns :: nat
  pr_pixBytes :: nat
  pr_rowBytes :: nat

definition or_default :: "nat option \<Rightarrow> nat \<Rightarrow> nat" where
  "or_default v d = (case v of None \<Rightarrow> d | Some n \<Rightarrow> if n = 0 then d else n)"

text \<open>The constructor; \<open>None\<close> stands for the source itself, without prediction.\<close>

definition mk_predictor :: "stream \<Rightarrow> rat \<Rightarrow> nat option \<Rightarrow> nat option \<Rightarrow> nat option \<Rightarrow> nat option \<Rightarrow> predictor dstream option res" where
  "mk_predictor str maybeLength pPredictor pColors pBits pColumns =
     (let predictor = or_default pPredictor 1
      in if predictor \<le> 1 then Inr None
         else if predictor \<noteq> 2 \<and> (predictor < 10 \<or> 15 < predictor) then Inl (FormatError ''Unsupported predictor'')
         else
           let colors = or_default pColors 1; bits = or_default pBits 8; columns = or_default pColumns 1
           in Inr (Some (mk_dstream maybeLength
                \<lparr>pr_stream = str, pr_png = (predictor \<noteq> 2), pr_colors = colors, pr_bits = bits, pr_columns = columns,
                 pr_pixBytes = (colors * bits + 7) div 8, pr_rowBytes = (columns * colors * bits + 7) div 8\<rparr>)))"

text \<open>A loop that stores one byte per turn behind position \<open>p\<close>.\<close>

definition store_row :: "(bytes \<Rightarrow> nat \<Rightarrow> u8) \<Rightarrow> nat \<Rightarrow> nat \<Rightarrow> bytes \<Rightarrow> bytes" where
  "store_row f p n buf = foldl (\<lambda>b i. b[p + i := f b i]) buf [0..<n]"

section \<open>PNG predictors\<close>

definition paeth :: "u8 \<Rightarrow> u8 \<Rightarrow> u8 \<Rightarrow> u8" where
  "paeth left up upLeft =
     (let p = uint left + uint up - uint upLeft;
          pa = \<bar>p - uint left\<bar>; pb = \<bar>p - uint up\<bar>; pc = \<bar>p - uint upLeft\<bar>
      in if pa \<le> pb \<and> pa \<le> pc then left else if pb \<le> pc then up else upLeft)"

text \<open>
  The byte that is added to the raw byte \<open>i\<close>: \<open>left\<close> is the byte one pixel before it, which the
  first pixel of a row does not have.
\<close>

definition png_prediction :: "u8 \<Rightarrow> nat \<Rightarrow> bytes \<Rightarrow> u8 \<Rightarrow> nat \<Rightarrow> u8 res" where
  "png_prediction kind pixBytes prevRow left i =
     (let up = rd prevRow i
      in if kind = 0 then Inr 0
         else if kind = 1 then Inr (if i < pixBytes then 0 else left)
         else if kind = 2 then Inr up
         else if kind = 3 then Inr (if i < pixBytes then of_nat (unat up div 2) else of_nat ((unat up + unat left) div 2))
         else if kind = 4 then Inr (if i < pixBytes then up else paeth left up (rd prevRow (i - pixBytes)))
         else Inl (FormatError ''Unsupported predictor''))"

text \<open>
  A raw byte that is missing at the end of the data is \<open>undefined\<close>: the sum is NaN and the
  byte stored is 0.
\<close>

definition png_byte :: "u8 \<Rightarrow> nat \<Rightarrow> bytes \<Rightarrow> bytes \<Rightarrow> u8 \<Rightarrow> nat \<Rightarrow> u8" where
  "png_byte kind pixBytes prevRow rawBytes left i =
     (if i < length rawBytes
      then (case png_prediction kind pixBytes prevRow left i of Inr p \<Rightarrow> p + rawBytes ! i | Inl _ \<Rightarrow> 0)
      else 0)"

definition readBlockPng :: "predictor dstream \<Rightarrow> predictor dstream res" where
  "readBlockPng d =
     (let x = sub d;
          rowBytes = pr_rowBytes x;
          (kind, s1) = getByte (pr_stream x);
          (rawBytes, s2) = getBytes rowBytes s1;
          x' = x\<lparr>pr_stream := s2\<rparr>
      in if rawBytes = [] then Inr (d\<lparr>eof := True, sub := x'\<rparr>)
         else
           let bl = bufferLength d;
               d1 = ensureBuffer (bl + rowBytes) d;
               prevRow = subarray (buffer d1) (int bl - int rowBytes) (int bl);
               prevRow = (if prevRow = [] then zeros rowBytes else prevRow)
           in case kind of
                None \<Rightarrow> Inl (FormatError ''Unsupported predictor'')
              | Some k \<Rightarrow>
                  if 4 < k then Inl (FormatError ''Unsupported predictor'')
                  else Inr (d1\<lparr>buffer := store_row (\<lambda>b i. png_byte k (pr_pixBytes x) prevRow rawBytes
                                  (if i < pr_pixBytes x then 0 else rd b (bl + i - pr_pixBytes x)) i) bl rowBytes (buffer d1),
                             bufferLength := bl + rowBytes, eof := False, sub := x'\<rparr>))"

section \<open>TIFF predictors\<close>

text \<open>One bit per pixel: every bit is the exclusive or of the bits up to it.\<close>

definition tiff1_step :: "bytes \<Rightarrow> nat \<Rightarrow> bytes \<times> u8 \<Rightarrow> nat \<Rightarrow> bytes \<times> u8" where
  "tiff1_step rawBytes p bi i =
     (let (buf, inbuf) = bi;
          c = rd rawBytes i XOR inbuf;
          c = c XOR drop_bit 1 c;
          c = c XOR drop_bit 2 c;
          c = c XOR drop_bit 4 c
      in (buf[p + i := c], push_bit 7 (c AND 1)))"

text \<open>Eight bits per component.\<close>

definition tiff8_byte :: "nat \<Rightarrow> bytes \<Rightarrow> u8 \<Rightarrow> nat \<Rightarrow> u8" where
  "tiff8_byte colors rawBytes left i =
     (if i < colors then rd rawBytes i else if i < length rawBytes then left + rawBytes ! i else 0)"

text \<open>Sixteen bits per component: two bytes per turn, most significant first.\<close>

definition tiff16_step :: "nat \<Rightarrow> bytes \<Rightarrow> nat \<Rightarrow> bytes \<Rightarrow> nat \<Rightarrow> bytes" where
  "tiff16_step bytesPerPixel rawBytes p buf i =
     (let sum = unat (rd rawBytes i) * 256 + unat (rd rawBytes (i + 1)) +
            unat (rd buf (p + i - bytesPerPixel)) * 256 + unat (rd buf (p + i - bytesPerPixel + 1))
      in buf[p + i := of_nat (sum div 256), p + i + 1 := of_nat sum])"

text \<open>Other widths: components are taken from and put into bit buffers.\<close>

record tiff_bits =
  tb_inbuf :: u32
  tb_inbits :: int
  tb_outbuf :: u32
  tb_outbits :: int
  tb_comp :: bytes
  tb_j :: nat
  tb_k :: nat
  tb_buffer :: bytes

definition shr_by :: "u32 \<Rightarrow> int \<Rightarrow> u32" where
  "shr_by x n = signed_drop_bit (nat (n mod 32)) x"

definition shl_by :: "u32 \<Rightarrow> int \<Rightarrow> u32" where
  "shl_by x n = push_bit (nat (n mod 32)) x"

definition tiff_component :: "nat \<Rightarrow> bytes \<Rightarrow> tiff_bits \<Rightarrow> nat \<Rightarrow> tiff_bits" where
  "tiff_component bits rawBytes t kk =
     (let b = int bits;
          bitMask = shl_by 1 b - 1;
          t = (if tb_inbits t < b
               then t\<lparr>tb_inbuf := push_bit 8 (tb_inbuf t) OR ucast (rd rawBytes (tb_j t)), tb_j := tb_j t + 1,
                      tb_inbits := tb_inbits t + 8\<rparr>
               else t);
          comp = (ucast (tb_comp t ! kk) + shr_by (tb_inbuf t) (tb_inbits t - b)) AND bitMask;
          t = t\<lparr>tb_comp := (tb_comp t)[kk := ucast comp], tb_inbits := tb_inbits t - b,
                tb_outbuf := shl_by (tb_outbuf t) b OR ucast ((ucast comp) :: u8), tb_outbits := tb_outbits t + b\<rparr>
      in if 8 \<le> tb_outbits t
         then t\<lparr>tb_buffer := (tb_buffer t)[tb_k t := ucast (shr_by (tb_outbuf t) (tb_outbits t - 8))], tb_k := tb_k t + 1,
                tb_outbits := tb_outbits t - 8\<rparr>
         else t)"

definition tiff_row :: "nat \<Rightarrow> nat \<Rightarrow> nat \<Rightarrow> bytes \<Rightarrow> nat \<Rightarrow> bytes \<Rightarrow> bytes" where
  "tiff_row bits colors columns rawBytes p buf =
     (let t = foldl (\<lambda>t i. foldl (tiff_component bits rawBytes) t [0..<colors])
            \<lparr>tb_inbuf = 0, tb_inbits = 0, tb_outbuf = 0, tb_outbits = 0, tb_comp = zeros (colors + 1), tb_j = 0, tb_k = p,
             tb_buffer = buf\<rparr> [0..<columns]
      in if 0 < tb_outbits t
         then (tb_buffer t)[tb_k t := ucast (shl_by (tb_outbuf t) (8 - tb_outbits t) +
                 (tb_inbuf t AND (shl_by 1 (8 - tb_outbits t) - 1)))]
         else tb_buffer t)"

function every_other :: "nat \<Rightarrow> nat \<Rightarrow> nat list" where
  "every_other i n = (if i < n then i # every_other (i + 2) n else [])"
  by pat_completeness auto
termination by (relation "measure (\<lambda>(i, n). n - i)") auto

declare every_other.simps [simp del]

definition readBlockTiff :: "predictor dstream \<Rightarrow> predictor dstream res" where
  "readBlockTiff d =
     (let x = sub d;
          rowBytes = pr_rowBytes x; bits = pr_bits x; colors = pr_colors x;
          bl = bufferLength d;
          d1 = ensureBuffer (bl + rowBytes) d;
          (rawBytes, s1) = getBytes rowBytes (pr_stream x);
          x' = x\<lparr>pr_stream := s1\<rparr>
      in if rawBytes = [] then Inr (d1\<lparr>eof := True, sub := x'\<rparr>)
         else
           let buf =
                 (if bits = 1 \<and> colors = 1 then fst (foldl (tiff1_step rawBytes bl) (buffer d1, 0) [0..<rowBytes])
                  else if bits = 8 then
                    store_row (\<lambda>b i. tiff8_byte colors rawBytes (rd b (bl + i - colors)) i) bl rowBytes (buffer d1)
                  else if bits = 16 then
                    foldl (tiff16_step (colors * 2) rawBytes bl)
                      (store_row (\<lambda>b i. rd rawBytes i) bl (colors * 2) (buffer d1)) (every_other (colors * 2) rowBytes)
                  else tiff_row bits colors (pr_columns x) rawBytes bl (buffer d1))
           in Inr (d1\<lparr>buffer := buf, bufferLength := bl + rowBytes, eof := False, sub := x'\<rparr>))"

definition predictor_readBlock :: "predictor dstream \<Rightarrow> predictor dstream res" where
  "predictor_readBlock d = (if pr_png (sub d) then readBlockPng d else readBlockTiff d)"

section \<open>Rows\<close>

definition row_list :: "(bytes \<Rightarrow> nat \<Rightarrow> u8) \<Rightarrow> nat \<Rightarrow> bytes" where
  "row_list g n = foldl (\<lambda>out i. out @ [g out i]) [] [0..<n]"

lemma row_list_Suc: "row_list g (Suc n) = row_list g n @ [g (row_list g n) n]"
  by (simp add: row_list_def)

lemma length_row_list [simp]: "length (row_list g n) = n"
  by (induction n) (simp_all add: row_list_Suc, simp add: row_list_def)

lemma store_row_list:
  assumes "n \<le> m" and "\<And>out. length out < n \<Longrightarrow> f (c @ out @ zeros (m - length out)) (length out) = g out (length out)"
  shows "store_row f (length c) n (c @ zeros m) = c @ row_list g n @ zeros (m - n)"
  using assms
proof (induction n)
  case 0
  show ?case by (simp add: store_row_def row_list_def)
next
  case (Suc n)
  have "store_row f (length c) (Suc n) (c @ zeros m)
      = (let b = store_row f (length c) n (c @ zeros m) in b[length c + n := f b n])"
    by (simp add: store_row_def Let_def)
  also have "\<dots> = (c @ row_list g n @ zeros (m - n))[length c + n := g (row_list g n) n]"
    using Suc.IH Suc.prems(1) Suc.prems(2) [of "row_list g n"] Suc.prems(2) by (simp add: Let_def)
  also have "\<dots> = ((c @ row_list g n) @ zeros (m - n))[length (c @ row_list g n) := g (row_list g n) n]" by simp
  also have "\<dots> = c @ row_list g (Suc n) @ zeros (m - Suc n)"
    using Suc.prems(1) by (subst update_append_zeros) (simp_all add: row_list_Suc)
  finally show ?case .
qed

lemma row_list_eqI:
  assumes "length row = n" and "\<And>i. i < n \<Longrightarrow> g (take i row) i = row ! i"
  shows "row_list g n = row"
proof -
  have "k \<le> n \<Longrightarrow> row_list g k = take k row" for k
    using assms by (induction k) (simp_all add: row_list_Suc take_Suc_conv_app_nth, simp add: row_list_def)
  then show ?thesis using assms(1) by simp
qed

definition prev_row :: "nat \<Rightarrow> bytes \<Rightarrow> bytes" where
  "prev_row n c = (if c = [] then zeros n else drop (length c - n) c)"

definition predictor_block :: "bytes \<Rightarrow> predictor \<Rightarrow> (bytes \<times> bool \<times> predictor) res" where
  "predictor_block c x =
     (if pr_png x then
        let (kind, s1) = getByte (pr_stream x);
            (raw, s2) = getBytes (pr_rowBytes x) s1;
            pix = pr_pixBytes x
        in if raw = [] then Inr ([], True, x\<lparr>pr_stream := s2\<rparr>)
           else case kind of
             None \<Rightarrow> Inl (FormatError ''Unsupported predictor'')
           | Some k \<Rightarrow>
               if 4 < k then Inl (FormatError ''Unsupported predictor'')
               else Inr (row_list (\<lambda>out i. png_byte k pix (prev_row (pr_rowBytes x) c) raw (if i < pix then 0 else rd out (i - pix)) i)
                      (pr_rowBytes x), False, x\<lparr>pr_stream := s2\<rparr>)
      else
        let (raw, s1) = getBytes (pr_rowBytes x) (pr_stream x)
        in if raw = [] then Inr ([], True, x\<lparr>pr_stream := s1\<rparr>)
           else Inr (row_list (\<lambda>out i. tiff8_byte (pr_colors x) raw (rd out (i - pr_colors x)) i) (pr_rowBytes x), False, x\<lparr>pr_stream := s1\<rparr>))"

text \<open>The rows that are treated below: PNG, and TIFF with eight bits per component.\<close>

definition predictor_inv :: "bytes \<Rightarrow> predictor \<Rightarrow> bool" where
  "predictor_inv c x \<longleftrightarrow> stream_ok (pr_stream x) \<and> 0 < pr_rowBytes x \<and> 0 < pr_pixBytes x \<and> 0 < pr_colors x \<and>
     pr_rowBytes x dvd length c \<and> (pr_png x \<or> pr_bits x = 8)"

lemma prevRow_eq:
  assumes "n dvd length c" and "0 < n"
  shows "(let p = subarray (c @ zs) (int (length c) - int n) (int (length c)) in if p = [] then zeros n else p) = prev_row n c"
proof (cases "c = []")
  case True
  then show ?thesis using assms(2) by (simp add: subarray_def js_index_def prev_row_def Let_def)
next
  case False
  then have le: "n \<le> length c" using assms(1) by (simp add: dvd_imp_le)
  then have "subarray (c @ zs) (int (length c) - int n) (int (length c)) = drop (length c - n) c"
    using subarray_nat [of "c @ zs" "length c - n" "length c"] by (simp add: of_nat_diff)
  moreover have "drop (length c - n) c \<noteq> []" using False le assms(2) by auto
  ultimately show ?thesis using False by (simp add: prev_row_def Let_def)
qed

lemma rd_middle: "k < length out \<Longrightarrow> rd (c @ out @ zs) (length c + k) = rd out k"
  by (simp add: rd_def nth_append)

lemma predictor_refines:
  assumes ok: "ds_ok d" and ne: "\<not> eof d" and inv: "predictor_inv (content d) (sub d)"
  shows "case predictor_block (content d) (sub d) of
      Inl e \<Rightarrow> predictor_readBlock d = Inl e
    | Inr (out, fin, x') \<Rightarrow> \<exists>d'. predictor_readBlock d = Inr d' \<and> appends d out fin x' d'"
proof -
  let ?x = "sub d" and ?c = "content d" and ?bl = "bufferLength d"
  let ?n = "pr_rowBytes ?x"
  have lc: "length ?c = ?bl" using ok by simp
  obtain m where m: "buffer (ensureBuffer (?bl + ?n) d) = ?c @ zeros m" "?bl + ?n \<le> ?bl + m"
    using obtain_ensured [OF ok ne] .
  have n: "?n dvd length ?c" "0 < ?n" "0 < pr_pixBytes ?x" "0 < pr_colors ?x" using inv by (auto simp: predictor_inv_def)
  show ?thesis
  proof (cases "pr_png ?x")
    case png: True
    obtain kind s1 where g: "getByte (pr_stream ?x) = (kind, s1)" by fastforce
    obtain raw s2 where r: "getBytes ?n s1 = (raw, s2)" by fastforce
    note step = png g r
    show ?thesis
    proof (cases "raw = []")
      case True
      then show ?thesis using step ok
        by (simp add: predictor_block_def predictor_readBlock_def readBlockPng_def appends_end)
    next
      case False
      let ?prev = "prev_row ?n ?c" and ?pix = "pr_pixBytes ?x"
      have prev: "(if subarray (?c @ zeros m) (int ?bl - int ?n) (int ?bl) = [] then zeros ?n
          else subarray (?c @ zeros m) (int ?bl - int ?n) (int ?bl)) = ?prev"
        using prevRow_eq [OF n(1,2), of "zeros m"] lc by (simp add: Let_def)
      have row: "store_row (\<lambda>b i. png_byte k ?pix ?prev raw (if i < ?pix then 0 else rd b (?bl + i - ?pix)) i) ?bl ?n (?c @ zeros m)
          = ?c @ row_list (\<lambda>out i. png_byte k ?pix ?prev raw (if i < ?pix then 0 else rd out (i - ?pix)) i) ?n @ zeros (m - ?n)" for k
        unfolding lc [symmetric]
      proof (rule store_row_list)
        fix out :: bytes
        have "rd (?c @ out @ zeros (m - length out)) (length ?c + length out - ?pix) = rd out (length out - ?pix)"
          if "\<not> length out < ?pix"
          using that rd_middle [of "length out - ?pix" out ?c "zeros (m - length out)"] n(3) by simp
        then show "png_byte k ?pix ?prev raw
            (if length out < ?pix then 0 else rd (?c @ out @ zeros (m - length out)) (length ?c + length out - ?pix)) (length out)
          = png_byte k ?pix ?prev raw (if length out < ?pix then 0 else rd out (length out - ?pix)) (length out)" by simp
      qed (use m in simp)
      have "predictor_readBlock d = (case kind of None \<Rightarrow> Inl (FormatError ''Unsupported predictor'')
        | Some k \<Rightarrow> if 4 < k then Inl (FormatError ''Unsupported predictor'')
            else Inr ((ensureBuffer (?bl + ?n) d)\<lparr>buffer :=
              ?c @ row_list (\<lambda>out i. png_byte k ?pix ?prev raw (if i < ?pix then 0 else rd out (i - ?pix)) i) ?n @ zeros (m - ?n),
              bufferLength := ?bl + ?n, eof := False, sub := ?x\<lparr>pr_stream := s2\<rparr>\<rparr>))"
        unfolding predictor_readBlock_def readBlockPng_def Let_def m(1) using step False by (cases kind) (simp_all add: prev row m(1))
      then show ?thesis using step False ok
        by (cases kind) (auto simp: predictor_block_def Let_def intro!: appendsI [OF ok, of _ _ "m - ?n"])
    qed
  next
    case tiff: False
    then have b: "pr_bits ?x = 8" using inv by (simp add: predictor_inv_def)
    obtain raw s1 where r: "getBytes ?n (pr_stream ?x) = (raw, s1)" by fastforce
    let ?col = "pr_colors ?x"
    show ?thesis
    proof (cases "raw = []")
      case True
      have "appends d [] True x' ((ensureBuffer k d)\<lparr>eof := True, sub := x'\<rparr>)" for k x'
        using appends_end [OF ensureBuffer_ok [OF ok]] ok by (simp add: appends_def)
      with True show ?thesis using tiff r
        by (auto simp: predictor_block_def predictor_readBlock_def readBlockTiff_def Let_def)
    next
      case False
      have row: "store_row (\<lambda>b i. tiff8_byte ?col raw (rd b (?bl + i - ?col)) i) ?bl ?n (?c @ zeros m)
          = ?c @ row_list (\<lambda>out i. tiff8_byte ?col raw (rd out (i - ?col)) i) ?n @ zeros (m - ?n)"
        unfolding lc [symmetric]
      proof (rule store_row_list)
        fix out :: bytes
        have "rd (?c @ out @ zeros (m - length out)) (length ?c + length out - ?col) = rd out (length out - ?col)"
          if "\<not> length out < ?col"
          using that rd_middle [of "length out - ?col" out ?c "zeros (m - length out)"] n(4) by simp
        then show "tiff8_byte ?col raw (rd (?c @ out @ zeros (m - length out)) (length ?c + length out - ?col)) (length out)
          = tiff8_byte ?col raw (rd out (length out - ?col)) (length out)" by (simp add: tiff8_byte_def)
      qed (use m in simp)
      then show ?thesis using tiff r b False
        by (auto simp: predictor_block_def predictor_readBlock_def readBlockTiff_def Let_def m(1)
            intro!: appendsI [OF ok, of _ _ "m - ?n"])
    qed
  qed
qed

lemma getBytes_obtain:
  assumes "stream_ok s" and "0 < n" and "getBytes n s = (bs, s')"
  shows "bs = take n (rest s)" and "rest s' = drop n (rest s)" and "stream_ok s'"
  using getBytes_spec [OF assms(1), of n] assms(2,3) by auto

lemma getByte_obtain:
  assumes "stream_ok s" and "getByte s = (b, s')"
  shows "stream_ok s' \<and> length (rest s') \<le> length (rest s)"
proof (cases "rest s")
  case Nil
  then show ?thesis using getByte_Nil [OF assms(1)] assms by simp
next
  case (Cons y ys)
  then show ?thesis using getByte_Cons [OF assms(1) Cons] assms(2) by (metis le_SucI length_Cons order_refl prod.inject)
qed

lemma predictor_block_progress:
  assumes inv: "predictor_inv c x" and b: "predictor_block c x = Inr (out, False, x')"
  shows "predictor_inv (c @ out) x'" and "length (rest (pr_stream x')) < length (rest (pr_stream x))"
proof -
  have n: "0 < pr_rowBytes x" "stream_ok (pr_stream x)" "pr_rowBytes x dvd length c" using inv by (auto simp: predictor_inv_def)
  obtain s1 raw s2 where s: "stream_ok s1" "length (rest s1) \<le> length (rest (pr_stream x))" "getBytes (pr_rowBytes x) s1 = (raw, s2)"
      "raw \<noteq> []" "x' = x\<lparr>pr_stream := s2\<rparr>" "length out = pr_rowBytes x"
  proof (cases "pr_png x")
    case True
    obtain k s1 where k: "getByte (pr_stream x) = (k, s1)" by fastforce
    show ?thesis using b True k that [of s1] getByte_obtain [OF n(2) k]
      by (auto simp: predictor_block_def Let_def split: if_splits prod.splits option.splits)
  next
    case False
    then show ?thesis using b n(2) that [of "pr_stream x"]
      by (auto simp: predictor_block_def Let_def split: if_splits prod.splits)
  qed
  show "predictor_inv (c @ out) x'"
    using inv s(5,6) getBytes_obtain [OF s(1) n(1) s(3)] by (simp add: predictor_inv_def)
  show "length (rest (pr_stream x')) < length (rest (pr_stream x))"
    using s(2,4,5) getBytes_obtain [OF s(1) n(1) s(3)] n(1) by (cases "rest s1") auto
qed

interpretation predictor: block_decoder predictor_readBlock predictor_block predictor_inv "\<lambda>x. length (rest (pr_stream x))"
proof unfold_locales
  show "predictor_readBlock d = Inl e"
    if "ds_ok d" "\<not> eof d" "predictor_inv (content d) (sub d)" "predictor_block (content d) (sub d) = Inl e" for d e
    using predictor_refines [OF that(1-3)] that(4) by simp
  show "\<exists>d'. predictor_readBlock d = Inr d' \<and> appends d out fin x' d'"
    if "ds_ok d" "\<not> eof d" "predictor_inv (content d) (sub d)" "predictor_block (content d) (sub d) = Inr (out, fin, x')"
    for d out fin x'
    using predictor_refines [OF that(1-3)] that(4) by simp
qed (fact predictor_block_progress)+

section \<open>Encoders and round trips\<close>



definition tiff_encode_row :: "nat \<Rightarrow> bytes \<Rightarrow> bytes" where
  "tiff_encode_row colors row = map (\<lambda>i. row ! i - (if i < colors then 0 else row ! (i - colors))) [0..<length row]"



lemma tiff_row_decodes:
  assumes "0 < colors"
  shows "row_list (\<lambda>out i. tiff8_byte colors (tiff_encode_row colors row) (rd out (i - colors)) i) (length row) = row"
  by (rule row_list_eqI) (use assms in \<open>auto simp: tiff8_byte_def tiff_encode_row_def rd_def\<close>)

lemma decode_end:
  assumes "predictor_inv c x" and "rest (pr_stream x) = []"
  shows "decode_all predictor_block c x = Some (Inr c)"
proof -
  have ok: "stream_ok (pr_stream x)" "0 < pr_rowBytes x" using assms(1) by (auto simp: predictor_inv_def)
  obtain s where s: "getBytes (pr_rowBytes x) (pr_stream x) = ([], s)"
    using getBytes_rest [OF ok] assms(2) by auto
  then have "predictor_block c x = Inr ([], True, x\<lparr>pr_stream := s\<rparr>)"
    using getByte_Nil [OF ok(1) assms(2)] by (auto simp: predictor_block_def)
  then show ?thesis by simp
qed


lemma tiff_decode:
  assumes "predictor_inv c x" and "\<not> pr_png x" and "rest (pr_stream x) = concat (map (tiff_encode_row (pr_colors x)) rows)"
    and "\<forall>row \<in> set rows. length row = pr_rowBytes x"
  shows "decode_all predictor_block c x = Some (Inr (c @ concat rows))"
  using assms
proof (induction rows arbitrary: c x)
  case Nil
  then show ?case by (simp add: decode_end)
next
  case (Cons row rows)
  let ?n = "pr_rowBytes x" and ?raw = "tiff_encode_row (pr_colors x) row"
  have n: "0 < ?n" "stream_ok (pr_stream x)" "0 < pr_colors x" using Cons.prems(1) by (auto simp: predictor_inv_def)
  have raw: "length ?raw = ?n" using Cons.prems(4) by (simp add: tiff_encode_row_def)
  obtain s where s: "getBytes ?n (pr_stream x) = (?raw, s)" "rest s = concat (map (tiff_encode_row (pr_colors x)) rows)" "stream_ok s"
    using getBytes_rest [OF n(2,1)] Cons.prems(3) raw by auto
  have "?raw \<noteq> []" using raw n(1) by auto
  then have step: "predictor_block c x = Inr (row, False, x\<lparr>pr_stream := s\<rparr>)"
    using Cons.prems(2,4) s(1) tiff_row_decodes [OF n(3), of row] by (simp add: predictor_block_def)
  have "decode_all predictor_block (c @ row) (x\<lparr>pr_stream := s\<rparr>) = Some (Inr ((c @ row) @ concat rows))"
    using Cons.IH [of "c @ row" "x\<lparr>pr_stream := s\<rparr>"] Cons.prems predictor_block_progress [OF Cons.prems(1) step] s(2) by simp
  then show ?case using decode_all_more [where st = predictor_block, OF step] by simp
qed




text \<open>
  The TIFF predictor of eight-bit components is undone: rows in which every component
  is stored as the difference to the pixel before it are read back as they were.
\<close>

theorem tiff_roundtrip:
  assumes "stream_ok str" and "0 < colors" "0 < columns"
    and "rest str = concat (map (tiff_encode_row colors) rows)"
    and "\<forall>row \<in> set rows. length row = columns * colors"
    and "\<forall>n \<in> set ns. 0 < n"
  shows "\<exists>d0 d. mk_predictor str maybeLength (Some 2) (Some colors) (Some 8) (Some columns) = Inr (Some d0) \<and>
    read_chunks predictor_readBlock ns d0 = Some (Inr (take (sum_list ns) (concat rows), d))"
proof -
  have n: "(columns * colors * 8 + 7) div 8 = columns * colors" by simp
  let ?x = "\<lparr>pr_stream = str, pr_png = False, pr_colors = colors, pr_bits = 8, pr_columns = columns,
    pr_pixBytes = (colors * 8 + 7) div 8, pr_rowBytes = (columns * colors * 8 + 7) div 8\<rparr>"
  have mk: "mk_predictor str maybeLength (Some 2) (Some colors) (Some 8) (Some columns) = Inr (Some (mk_dstream maybeLength ?x))"
    using assms(2,3) by (simp add: mk_predictor_def or_default_def)
  have inv: "predictor_inv [] ?x" using assms(1-3) by (simp add: predictor_inv_def)
  have "decode_all predictor_block [] ?x = Some (Inr (concat rows))"
    using tiff_decode [OF inv, of rows] assms(4,5) by simp
  from predictor.read_chunks_represents [OF predictor.fresh_represents [OF inv this] assms(6)] mk show ?thesis by simp
qed

end
