(* ===== verification/Lzw.thy ===== *)
theory Lzw
  imports Predictor
begin

text \<open>
  \<open>LZWStream\<close>.  The dictionary is kept as in the source, in three parallel arrays (last byte,
  length, code of the string without the last byte), and the output goes to the real buffer.
  LZW data is defined by its phrases: each one is a byte, or an earlier phrase followed by
  the first byte of the phrase after it.  Whatever phrases an encoder chooses, they are what
  the stream reads as.
\<close>

section \<open>The stream\<close>

text \<open>
  \<open>lzwState\<close> and the bit cache.  \<open>prevCode\<close> is \<open>None\<close> when it is undefined or null.
  \<open>delete this.lzwState\<close> at the end of the data has no effect that can be observed, since
  \<open>readBlock\<close> is not called again.
\<close>

record lzw =
  lz_stream :: stream
  lz_cachedData :: u32
  lz_bitsCached :: nat
  lz_earlyChange :: nat
  lz_codeLength :: nat
  lz_nextCode :: nat
  lz_values :: bytes
  lz_lengths :: "16 word list"
  lz_prevCodes :: "16 word list"
  lz_sequence :: bytes
  lz_seqLength :: nat
  lz_prevCode :: "nat option"

definition mk_lzw :: "stream \<Rightarrow> rat \<Rightarrow> nat \<Rightarrow> lzw dstream" where
  "mk_lzw str maybeLength earlyChange =
     mk_dstream maybeLength
       \<lparr>lz_stream = str, lz_cachedData = 0, lz_bitsCached = 0, lz_earlyChange = earlyChange, lz_codeLength = 9, lz_nextCode = 258,
        lz_values = map of_nat [0..<256] @ zeros (4096 - 256), lz_lengths = replicate 256 1 @ zeros (4096 - 256),
        lz_prevCodes = zeros 4096, lz_sequence = zeros 4096, lz_seqLength = 0, lz_prevCode = None\<rparr>"

text \<open>
  The bits that were read when the data ends are lost: only the position of the stream
  has changed then.
\<close>

function cache_bits :: "nat \<Rightarrow> u32 \<Rightarrow> nat \<Rightarrow> stream \<Rightarrow> (u32 \<times> nat) option \<times> stream" where
  "cache_bits n cachedData bitsCached s =
     (if bitsCached < n then
        case getByte s of
          (None, s') \<Rightarrow> (None, s')
        | (Some c, s') \<Rightarrow> cache_bits n (push_bit 8 cachedData OR ucast c) (bitsCached + 8) s'
      else (Some (cachedData, bitsCached), s))"
  by pat_completeness auto
termination by (relation "measure (\<lambda>(n, c, b, s). n - b)") auto

declare cache_bits.simps [simp del]

definition readBits :: "nat \<Rightarrow> lzw \<Rightarrow> nat option \<times> lzw" where
  "readBits n x =
     (case cache_bits n (lz_cachedData x) (lz_bitsCached x) (lz_stream x) of
        (None, s) \<Rightarrow> (None, x\<lparr>lz_stream := s\<rparr>)
      | (Some (cachedData, bitsCached), s) \<Rightarrow>
          (Some (unat (take_bit n (drop_bit (bitsCached - n) cachedData))),
           x\<lparr>lz_stream := s, lz_bitsCached := bitsCached - n, lz_cachedData := cachedData\<rparr>))"

text \<open>\<open>for (j = n - 1, q = code; j >= 0; j--)\<close>: the string of a code, from its end.\<close>

fun write_sequence :: "bytes \<Rightarrow> 16 word list \<Rightarrow> nat \<Rightarrow> nat \<Rightarrow> bytes \<Rightarrow> bytes" where
  "write_sequence vals prevs 0 q sq = sq"
| "write_sequence vals prevs (Suc j) q sq =
     write_sequence vals prevs j (unat (rd prevs q)) (sq[j := rd vals q])"

text \<open>The sequence of a code; a missing code at the end of the data compares as 0.\<close>

definition next_sequence :: "nat option \<Rightarrow> lzw \<Rightarrow> lzw" where
  "next_sequence code x =
     (let c = (case code of None \<Rightarrow> 0 | Some c \<Rightarrow> c);
          sq = lz_sequence x; n = lz_seqLength x
      in if c < 256 then x\<lparr>lz_sequence := sq[0 := of_nat c], lz_seqLength := 1\<rparr>
         else if c < lz_nextCode x then
           let n' = unat (rd (lz_lengths x) c)
           in x\<lparr>lz_seqLength := n', lz_sequence := write_sequence (lz_values x) (lz_prevCodes x) n' c sq\<rparr>
         else x\<lparr>lz_sequence := sq[n := rd sq 0], lz_seqLength := n + 1\<rparr>)"

text \<open>
  The width changes when the next code reaches a power of two, where the quotient of
  logarithms in the source is the exponent.
\<close>

definition next_width :: "nat \<Rightarrow> nat \<Rightarrow> nat" where
  "next_width codeLength m = (if m AND (m - 1) \<noteq> 0 then codeLength else min (ilog2 m + 1) 12)"

definition add_entry :: "lzw \<Rightarrow> lzw" where
  "add_entry x =
     (let nc = lz_nextCode x
      in x\<lparr>lz_prevCodes := (lz_prevCodes x)[nc := (case lz_prevCode x of None \<Rightarrow> 0 | Some p \<Rightarrow> of_nat p)],
           lz_lengths := (lz_lengths x)[nc := (case lz_prevCode x of None \<Rightarrow> 0 | Some p \<Rightarrow> rd (lz_lengths x) p + 1)],
           lz_values := (lz_values x)[nc := rd (lz_sequence x) 0],
           lz_nextCode := nc + 1,
           lz_codeLength := next_width (lz_codeLength x) (nc + 1 + lz_earlyChange x)\<rparr>)"

definition process_code :: "nat option \<Rightarrow> lzw \<Rightarrow> lzw" where
  "process_code code x =
     (let hasPrev = 0 < lz_seqLength x;
          x1 = next_sequence code x;
          x2 = (if hasPrev then add_entry x1 else x1)
      in x2\<lparr>lz_prevCode := code\<rparr>)"

definition clear_table :: "lzw \<Rightarrow> lzw" where
  "clear_table x = x\<lparr>lz_codeLength := 9, lz_nextCode := 258, lz_seqLength := 0\<rparr>"

function grow_estimate :: "nat \<Rightarrow> nat \<Rightarrow> nat" where
  "grow_estimate est n = (if est < n then grow_estimate (est + 512) n else est)"
  by pat_completeness auto
termination by (relation "measure (\<lambda>(est, n). n - est)") auto

declare grow_estimate.simps [simp del]

text \<open>The loop over the codes of a block; \<open>k\<close> turns are left.\<close>

fun lzw_loop :: "nat \<Rightarrow> nat \<Rightarrow> nat \<Rightarrow> nat \<Rightarrow> lzw dstream \<Rightarrow> nat \<times> lzw dstream" where
  "lzw_loop 0 est decoded cur d = (cur, d)"
| "lzw_loop (Suc k) est decoded cur d =
     (let (code, x) = readBits (lz_codeLength (sub d)) (sub d);
          d1 = d\<lparr>eof := eof d \<or> code = None\<rparr>
      in if code = Some 256 then lzw_loop k est decoded cur (d1\<lparr>sub := clear_table x\<rparr>)
         else if code = Some 257 then (cur, d1\<lparr>eof := True, sub := x\<rparr>)
         else
           let x' = process_code code x;
               n = lz_seqLength x';
               decoded' = decoded + n;
               est' = grow_estimate est decoded';
               d2 = (if est < decoded' then ensureBuffer (bufferLength d + est') d1 else d1)
           in lzw_loop k est' decoded' (cur + n)
                (d2\<lparr>buffer := store_row (\<lambda>b j. rd (lz_sequence x') j) cur n (buffer d2), sub := x'\<rparr>))"

definition lzw_readBlock :: "lzw dstream \<Rightarrow> lzw dstream res" where
  "lzw_readBlock d =
     (let (cur, d') = lzw_loop 512 1024 0 (bufferLength d) (ensureBuffer (bufferLength d + 1024) d)
      in Inr (d'\<lparr>bufferLength := cur\<rparr>))"

section \<open>The effect of a block\<close>

fun lzw_codes :: "nat \<Rightarrow> lzw \<Rightarrow> bytes \<times> bool \<times> lzw" where
  "lzw_codes 0 x = ([], False, x)"
| "lzw_codes (Suc k) x =
     (let (code, x1) = readBits (lz_codeLength x) x
      in if code = Some 256 then lzw_codes k (clear_table x1)
         else if code = Some 257 then ([], True, x1)
         else
           let x2 = process_code code x1;
               (out, fin, x3) = lzw_codes k x2
           in (map (rd (lz_sequence x2)) [0..<lz_seqLength x2] @ out, fin \<or> code = None, x3))"

definition lzw_block :: "bytes \<Rightarrow> lzw \<Rightarrow> (bytes \<times> bool \<times> lzw) res" where
  "lzw_block c x = Inr (lzw_codes 512 x)"

lemma row_list_map: "row_list (\<lambda>out i. f i) n = map f [0..<n]"
  by (induction n) (simp_all add: row_list_Suc, simp add: row_list_def)

lemma grow_estimate_ge: "n \<le> grow_estimate est n" "est \<le> grow_estimate est n"
proof (induction est n rule: grow_estimate.induct)
  case (1 est n)
  { case 1 with "1.IH" show ?case by (subst grow_estimate.simps) auto }
  { case 2 with "1.IH" show ?case by (subst grow_estimate.simps) auto }
qed

lemma ensureBuffer_zeros:
  assumes "0 < minBufferLength d" and "buffer d = c @ zeros m"
  obtains m' where "buffer (ensureBuffer n d) = c @ zeros m'" and "n \<le> length c + m'" and "m \<le> m'"
proof -
  have "\<exists>k. buffer (ensureBuffer n d) = c @ zeros (m + k)" using assms(2) by (auto simp: ensureBuffer_def Let_def intro: exI [of _ 0])
  then obtain k where "buffer (ensureBuffer n d) = c @ zeros (m + k)" ..
  then show ?thesis using that ensureBuffer_length(1) [OF assms(1), of n] by simp
qed

lemma lzw_loop_spec:
  assumes "buffer d = c @ zeros m" and "0 < minBufferLength d" and "length c = bufferLength d + decoded"
    and "bufferLength d + est \<le> length c + m" and "lzw_codes k (sub d) = (out, fin, x')"
  shows "\<exists>d' m'. lzw_loop k est decoded (length c) d = (length c + length out, d') \<and> buffer d' = c @ out @ zeros m' \<and>
    bufferLength d' = bufferLength d \<and> minBufferLength d' = minBufferLength d \<and> eof d' = (eof d \<or> fin) \<and> sub d' = x' \<and> pos d' = pos d"
  using assms
proof (induction k arbitrary: d c m est decoded out fin)
  case 0
  then show ?case by auto
next
  case (Suc k)
  obtain code x1 where r: "readBits (lz_codeLength (sub d)) (sub d) = (code, x1)" by fastforce
  consider "code = Some 256" | "code = Some 257" | "code \<noteq> Some 256" "code \<noteq> Some 257" by blast
  then show ?case
  proof cases
    case 1
    with Suc.prems r Suc.IH [of "d\<lparr>eof := eof d, sub := clear_table x1\<rparr>" c m decoded est out fin] show ?thesis by simp
  next
    case 2
    with Suc.prems r show ?thesis by (auto simp: intro!: exI [of _ m])
  next
    case 3
    let ?x = "process_code code x1"
    let ?n = "lz_seqLength ?x" and ?f = "rd (lz_sequence ?x)"
    let ?est = "grow_estimate est (decoded + ?n)" and ?d1 = "d\<lparr>eof := eof d \<or> code = None\<rparr>"
    define d2 where "d2 = (if est < decoded + ?n then ensureBuffer (bufferLength d + ?est) ?d1 else ?d1)"
    have d2: "bufferLength d2 = bufferLength d" "minBufferLength d2 = minBufferLength d" "eof d2 = (eof d \<or> code = None)" "pos d2 = pos d"
      by (simp_all add: d2_def)
    obtain m' where m': "buffer d2 = c @ zeros m'" "bufferLength d + ?est \<le> length c + m'"
    proof (cases "est < decoded + ?n")
      case True
      obtain m' where "buffer (ensureBuffer (bufferLength d + ?est) ?d1) = c @ zeros m'" "bufferLength d + ?est \<le> length c + m'"
        using ensureBuffer_zeros [of ?d1 c m] Suc.prems(1,2) by auto
      with True that show ?thesis by (simp add: d2_def)
    next
      case False
      then have "?est = est" by (simp add: grow_estimate.simps)
      with False that [of m] Suc.prems show ?thesis by (simp add: d2_def)
    qed
    have n: "?n \<le> m'" using m'(2) grow_estimate_ge(1) [of "decoded + ?n" est] Suc.prems(3) by simp
    have st: "store_row (\<lambda>b j. ?f j) (length c) ?n (c @ zeros m') = (c @ map ?f [0..<?n]) @ zeros (m' - ?n)"
      using store_row_list [of ?n m' "\<lambda>b j. ?f j" c "\<lambda>b j. ?f j"] n by (simp add: row_list_map)
    obtain out2 fin2 where rec: "lzw_codes k ?x = (out2, fin2, x')" "out = map ?f [0..<?n] @ out2" "fin = (fin2 \<or> code = None)"
      using Suc.prems(5) r 3 by (auto simp: Let_def split: prod.splits)
    let ?c = "c @ map ?f [0..<?n]"
    let ?d3 = "d2\<lparr>buffer := ?c @ zeros (m' - ?n), sub := ?x\<rparr>"
    have "lzw_loop (Suc k) est decoded (length c) d = lzw_loop k ?est (decoded + ?n) (length c + ?n)
        (d2\<lparr>buffer := store_row (\<lambda>b j. ?f j) (length c) ?n (buffer d2), sub := ?x\<rparr>)"
      using r 3 by (simp add: Let_def d2_def)
    then have step: "lzw_loop (Suc k) est decoded (length c) d = lzw_loop k ?est (decoded + ?n) (length ?c) ?d3"
      by (simp only: m'(1) st) simp
    obtain d' m'' where "lzw_loop k ?est (decoded + ?n) (length ?c) ?d3 = (length ?c + length out2, d')"
        "buffer d' = ?c @ out2 @ zeros m''" "bufferLength d' = bufferLength d" "minBufferLength d' = minBufferLength d"
        "eof d' = (eof d2 \<or> fin2)" "sub d' = x'" "pos d' = pos d"
      using Suc.IH [of ?d3 ?c "m' - ?n" "decoded + ?n" ?est out2 fin2] Suc.prems(2,3) m' n rec(1) d2 by auto
    then show ?thesis unfolding step using rec(2,3) d2(3) by (auto simp: add.assoc)
  qed
qed

lemma lzw_refines:
  assumes ok: "ds_ok d" and ne: "\<not> eof d" and b: "lzw_block (content d) (sub d) = Inr (out, fin, x')"
  shows "\<exists>d'. lzw_readBlock d = Inr d' \<and> appends d out fin x' d'"
proof -
  let ?d = "ensureBuffer (bufferLength d + 1024) d"
  obtain m where m: "buffer ?d = content d @ zeros m" "bufferLength d + 1024 \<le> bufferLength d + m" using obtain_ensured [OF ok ne] .
  obtain d' m' where "lzw_loop 512 1024 0 (bufferLength d) ?d = (bufferLength d + length out, d')" "buffer d' = content d @ out @ zeros m'"
      "minBufferLength d' = minBufferLength d" "eof d' = fin" "sub d' = x'" "pos d' = pos d"
    using lzw_loop_spec [of ?d "content d" m 0 1024 512 out fin x'] m b ok ne by (auto simp: lzw_block_def ds_ok_def)
  then show ?thesis using ok by (auto simp: lzw_readBlock_def intro!: appendsI)
qed

subsection \<open>Progress\<close>

definition lzw_left :: "lzw \<Rightarrow> nat" where
  "lzw_left x = 8 * (s_end (lz_stream x) - s_pos (lz_stream x)) + lz_bitsCached x"

definition lzw_inv :: "bytes \<Rightarrow> lzw \<Rightarrow> bool" where
  "lzw_inv c x \<longleftrightarrow> 0 < lz_codeLength x"

lemma cache_bits_left:
  "cache_bits n c b s = (Some (c', b'), s') \<Longrightarrow> 8 * (s_end s' - s_pos s') + b' = 8 * (s_end s - s_pos s) + b \<and> n \<le> b'"
proof (induction n c b s rule: cache_bits.induct)
  case (1 n c b s)
  from "1.prems" "1.IH" show ?case
    by (subst (asm) cache_bits.simps) (auto simp: getByte_def Suc_diff_le split: if_splits prod.splits option.splits)
qed

lemma readBits_left: "readBits n x = (Some v, x') \<Longrightarrow> lzw_left x' + n = lzw_left x \<and> lz_codeLength x' = lz_codeLength x"
  by (auto simp: readBits_def lzw_left_def dest!: cache_bits_left split: prod.splits option.splits)

lemma next_width_pos: "0 < n \<Longrightarrow> 0 < next_width n m"
  by (simp add: next_width_def)

lemma process_code_left:
  "lzw_left (process_code code x) = lzw_left x"
  "0 < lz_codeLength x \<Longrightarrow> 0 < lz_codeLength (process_code code x)"
  by (auto simp: process_code_def next_sequence_def add_entry_def lzw_left_def Let_def next_width_pos)

lemma clear_table_left: "lzw_left (clear_table x) = lzw_left x" "0 < lz_codeLength (clear_table x)"
  by (simp_all add: clear_table_def lzw_left_def)

lemma lzw_codes_progress:
  "lzw_codes k x = (out, False, x') \<Longrightarrow> 0 < lz_codeLength x \<Longrightarrow> 0 < lz_codeLength x' \<and> lzw_left x' + k \<le> lzw_left x"
proof (induction k arbitrary: x out)
  case (Suc k)
  obtain code x1 where r: "readBits (lz_codeLength x) x = (code, x1)" by fastforce
  show ?case
  proof (cases code)
    case None
    then show ?thesis using Suc.prems r by (simp add: Let_def split: prod.splits)
  next
    case (Some v)
    have l: "lzw_left x1 + lz_codeLength x = lzw_left x" "lz_codeLength x1 = lz_codeLength x" using readBits_left r Some by blast+
    show ?thesis
    proof (cases "v = 256")
      case True
      then show ?thesis using Suc.prems r Some Suc.IH [of "clear_table x1" out] l by (simp add: clear_table_left)
    next
      case False
      then have "v \<noteq> 257" using Suc.prems(1) r Some by auto
      then obtain out2 where "lzw_codes k (process_code code x1) = (out2, False, x')"
        using False Suc.prems(1) r Some by (auto simp: Let_def split: prod.splits)
      then show ?thesis using Suc.IH process_code_left [where x = x1 and code = code] l Suc.prems(2) by fastforce
    qed
  qed
qed simp

interpretation lzw: block_decoder lzw_readBlock lzw_block lzw_inv lzw_left
proof unfold_locales
  show "\<exists>d'. lzw_readBlock d = Inr d' \<and> appends d out fin x' d'"
    if "ds_ok d" "\<not> eof d" "lzw_block (content d) (sub d) = Inr (out, fin, x')" for d out fin x'
    using lzw_refines [OF that] .
qed (auto simp: lzw_inv_def lzw_block_def dest: lzw_codes_progress)

section \<open>Bits\<close>

text \<open>The bits of a number, most significant first.\<close>

definition msb_bits :: "nat \<Rightarrow> 'a::semiring_bits \<Rightarrow> bool list" where
  "msb_bits n w = map (bit w) (rev [0..<n])"

definition byte_bits :: "bytes \<Rightarrow> bool list" where
  "byte_bits bs = concat (map (msb_bits 8) bs)"

lemma length_msb_bits [simp]: "length (msb_bits n w) = n"
  by (simp add: msb_bits_def)

lemma length_byte_bits [simp]: "length (byte_bits bs) = 8 * length bs"
  by (induction bs) (simp_all add: byte_bits_def)

lemma byte_bits_Cons [simp]: "byte_bits [] = []" "byte_bits (b # bs) = msb_bits 8 b @ byte_bits bs"
  by (simp_all add: byte_bits_def)

lemma rev_upt_add: "rev [0..<k + n] = map (\<lambda>j. j + n) (rev [0..<k]) @ rev [0..<n]"
proof -
  have "[0..<k + n] = [0..<n] @ map (\<lambda>j. j + n) [0..<k]"
    using upt_add_eq_append [of 0 n k] by (simp add: map_add_upt add.commute)
  then show ?thesis by (simp add: rev_map)
qed

lemma msb_bits_push:
  fixes c :: u32 and y :: u8
  assumes "b + 8 \<le> 32"
  shows "msb_bits (b + 8) (push_bit 8 c OR ucast y) = msb_bits b c @ msb_bits 8 y"
proof -
  have "bit (push_bit 8 c OR ucast y) (j + 8) = bit c j" if "j < b" for j
    using that assms bit_imp_le_length [of y "j + 8"] by (auto simp: bit_or_iff bit_push_bit_iff bit_ucast_iff)
  moreover have "bit (push_bit 8 c OR ucast y) j = bit y j" if "j < 8" for j
    using that by (auto simp: bit_or_iff bit_push_bit_iff bit_ucast_iff)
  ultimately show ?thesis by (simp add: msb_bits_def rev_upt_add)
qed

lemma msb_bits_split: "n \<le> b \<Longrightarrow> msb_bits b w = msb_bits n (drop_bit (b - n) w) @ msb_bits (b - n) (w :: u32)"
  using rev_upt_add [of n "b - n"] by (simp add: msb_bits_def bit_drop_bit_eq add.commute)

lemma msb_bits_value:
  assumes "msb_bits n w = msb_bits n v" and "v < 2 ^ n" and "n \<le> 32"
  shows "unat (take_bit n (w :: u32)) = v"
proof (rule bit_eqI)
  fix k
  have "bit w k = bit v k" if "k < n" for k using assms(1) that by (simp add: msb_bits_def)
  moreover have "k < n" if "bit v k"
    using that assms(2) by (metis bit_take_bit_iff take_bit_nat_eq_self)
  ultimately show "bit (unat (take_bit n w)) k = bit v k"
    using assms(3) by (auto simp: bit_unsigned_iff bit_take_bit_iff)
qed

definition pending :: "lzw \<Rightarrow> bool list" where
  "pending x = msb_bits (lz_bitsCached x) (lz_cachedData x) @ byte_bits (rest (lz_stream x))"

lemma cache_bits_spec:
  assumes "stream_ok s" and "n \<le> 12" and "b \<le> n + 7" and "n \<le> b + 8 * length (rest s)"
  shows "\<exists>c' b' s'. cache_bits n c b s = (Some (c', b'), s') \<and> stream_ok s' \<and> n \<le> b' \<and> b' \<le> n + 7 \<and>
    msb_bits b' c' @ byte_bits (rest s') = msb_bits b c @ byte_bits (rest s)"
  using assms
proof (induction n c b s rule: cache_bits.induct)
  case (1 n c b s)
  show ?case
  proof (cases "b < n")
    case True
    then obtain y ys where y: "rest s = y # ys" using "1.prems"(4) by (cases "rest s") auto
    obtain s' where s': "getByte s = (Some y, s')" "rest s' = ys" "stream_ok s'"
      using getByte_Cons [OF "1.prems"(1) y] .
    have "\<exists>c' b' s''. cache_bits n (push_bit 8 c OR ucast y) (b + 8) s' = (Some (c', b'), s'') \<and> stream_ok s'' \<and> n \<le> b' \<and> b' \<le> n + 7 \<and>
        msb_bits b' c' @ byte_bits (rest s'') = msb_bits (b + 8) (push_bit 8 c OR ucast y) @ byte_bits (rest s')"
      by (rule "1.IH" [OF True s'(1) [symmetric] refl]) (use True "1.prems" s' y in auto)
    then show ?thesis
      using True s' y "1.prems"(2) by (subst cache_bits.simps) (simp add: msb_bits_push)
  next
    case False
    then show ?thesis using "1.prems" by (subst cache_bits.simps) auto
  qed
qed

lemma readBits_spec:
  assumes "stream_ok (lz_stream x)" and "lz_bitsCached x < 8" and "n \<le> 12" and "pending x = msb_bits n v @ r" and "v < 2 ^ n"
  obtains c b s where "readBits n x = (Some v, x\<lparr>lz_stream := s, lz_bitsCached := b, lz_cachedData := c\<rparr>)"
    and "stream_ok s" and "b < 8" and "msb_bits b c @ byte_bits (rest s) = r"
proof -
  have "n \<le> lz_bitsCached x + 8 * length (rest (lz_stream x))"
    using arg_cong [OF assms(4), of length] by (simp add: pending_def)
  then obtain c b s where
    c: "cache_bits n (lz_cachedData x) (lz_bitsCached x) (lz_stream x) = (Some (c, b), s)" "stream_ok s" "n \<le> b" "b \<le> n + 7"
      "msb_bits b c @ byte_bits (rest s) = msb_bits n v @ r"
    using cache_bits_spec [OF assms(1,3), of "lz_bitsCached x" "lz_cachedData x"] assms(2,4) by (auto simp: pending_def)
  have "msb_bits n (drop_bit (b - n) c) = msb_bits n v" "msb_bits (b - n) c @ byte_bits (rest s) = r"
    using c(5) unfolding msb_bits_split [OF c(3)] by (simp_all add: append_eq_append_conv)
  moreover from this(1) have "unat (take_bit n (drop_bit (b - n) c)) = v" using assms(3,5) by (intro msb_bits_value) simp_all
  ultimately show ?thesis using c that [where s = s and b = "b - n" and c = c] by (simp add: readBits_def)
qed

section \<open>Phrases\<close>

text \<open>
  LZW data as the format defines it: the phrase of a code below 256 is that byte; code
  \<open>258 + j\<close> is phrase \<open>j\<close> with the first byte of phrase \<open>j + 1\<close>, which may be the phrase
  that is being defined.
\<close>

definition lzw_phrases :: "nat list \<Rightarrow> bytes list \<Rightarrow> bool" where
  "lzw_phrases cs ps \<longleftrightarrow> length ps = length cs \<and>
     (\<forall>i < length cs. cs ! i < 256 \<and> ps ! i = [of_nat (cs ! i)] \<or>
        258 \<le> cs ! i \<and> cs ! i < 258 + i \<and> ps ! i = ps ! (cs ! i - 258) @ [hd (ps ! (cs ! i - 257))])"

definition width_of :: "nat \<Rightarrow> nat" where
  "width_of m = (if m < 512 then 9 else if m < 1024 then 10 else if m < 2048 then 11 else 12)"

text \<open>The width of a code after \<open>i\<close> codes since the table was cleared.\<close>

definition lzw_width :: "nat \<Rightarrow> nat \<Rightarrow> nat" where
  "lzw_width earlyChange i = width_of (258 + (i - 1) + earlyChange)"

fun codes_bits :: "nat \<Rightarrow> nat \<Rightarrow> nat list \<Rightarrow> bool list" where
  "codes_bits ec i [] = []"
| "codes_bits ec i (c # cs) = msb_bits (lzw_width ec i) c @ codes_bits ec (i + 1) cs"

text \<open>Segments that each start by clearing the table, and the end of the data.\<close>

fun lzw_bits :: "nat \<Rightarrow> nat \<Rightarrow> nat list list \<Rightarrow> bool list" where
  "lzw_bits ec i [] = msb_bits (lzw_width ec i) (257 :: nat)"
| "lzw_bits ec i (cs # css) = msb_bits (lzw_width ec i) (256 :: nat) @ codes_bits ec 0 cs @ lzw_bits ec (length cs) css"

lemma and_pred_pow2: "(m :: nat) AND (m - 1) = 0 \<Longrightarrow> 0 < m \<Longrightarrow> \<exists>k. m = 2 ^ k"
proof (induction m rule: less_induct)
  case (less m)
  show ?case
  proof (cases "even m")
    case True
    then obtain k where k: "m = 2 * k" ..
    then have "2 * k - 1 = 2 * (k - 1) + 1" using less.prems(2) by auto
    then have "k AND (k - 1) = 0"
      using less.prems(1) k by (subst (asm) and_nat_rec) simp
    then obtain j where "k = 2 ^ j" using less.IH [of k] less.prems(2) k by auto
    then have "m = 2 ^ Suc j" using k by simp
    then show ?thesis ..
  next
    case False
    then have e: "even (m - 1)" "(m - 1) div 2 = m div 2" by (auto elim: oddE)
    from less.prems(1) have "m div 2 = 0"
      by (subst (asm) and_nat_rec) (simp add: False e(1) e(2) [simplified])
    then have "m = 2 ^ 0" using False less.prems(2) by (cases m) auto
    then show ?thesis ..
  qed
qed

lemma next_width_of:
  assumes "258 \<le> m" and "m < 8000"
  shows "next_width (width_of m) (m + 1) = width_of (m + 1)"
proof (cases "(m + 1) AND m = 0")
  case True
  then obtain k where k: "m + 1 = 2 ^ k" using and_pred_pow2 [of "m + 1"] by auto
  have "k < 13" using k assms(2) power_increasing_iff [of "2::nat" 13 k] by (cases "k < 13") auto
  moreover have "8 < k" using k assms(1) power_increasing_iff [of "2::nat" k 8] by (cases "8 < k") auto
  ultimately have "k = 9 \<or> k = 10 \<or> k = 11 \<or> k = 12" by auto
  then show ?thesis using True k
    by (elim disjE) (simp_all add: next_width_def width_of_def ilog2.simps)
next
  case False
  have "m \<noteq> 511" "m \<noteq> 1023" "m \<noteq> 2047" using False by (intro notI; simp)+
  then show ?thesis using False by (auto simp: next_width_def width_of_def)
qed

subsection \<open>The strings of the dictionary\<close>

definition lzw_string :: "bytes list \<Rightarrow> nat \<Rightarrow> bytes" where
  "lzw_string ps q = (if q < 256 then [of_nat q] else ps ! (q - 258) @ [hd (ps ! (q - 257))])"

lemma phrase_string: "lzw_phrases cs ps \<Longrightarrow> i < length cs \<Longrightarrow> lzw_string ps (cs ! i) = ps ! i"
  by (auto simp: lzw_phrases_def lzw_string_def)

lemma phrase_code:
  "lzw_phrases cs ps \<Longrightarrow> i < length cs \<Longrightarrow> cs ! i < 256 \<or> 258 \<le> cs ! i \<and> cs ! i < 258 + i"
  by (auto simp: lzw_phrases_def)

lemma phrase_length: "lzw_phrases cs ps \<Longrightarrow> i < length cs \<Longrightarrow> ps ! i \<noteq> [] \<and> length (ps ! i) \<le> i + 1"
proof (induction i rule: less_induct)
  case (less i)
  from less.prems have "ps ! i = [of_nat (cs ! i)] \<or>
      258 \<le> cs ! i \<and> cs ! i < 258 + i \<and> ps ! i = ps ! (cs ! i - 258) @ [hd (ps ! (cs ! i - 257))]"
    by (auto simp: lzw_phrases_def)
  then show ?case
  proof
    assume c: "258 \<le> cs ! i \<and> cs ! i < 258 + i \<and> ps ! i = ps ! (cs ! i - 258) @ [hd (ps ! (cs ! i - 257))]"
    then have "cs ! i - 258 < i" by auto
    with less.IH [OF this] less.prems c show ?thesis by auto
  qed simp
qed

text \<open>The codes that have a string after \<open>i\<close> phrases.\<close>

definition known :: "nat \<Rightarrow> nat \<Rightarrow> bool" where
  "known i q \<longleftrightarrow> q < 256 \<or> 258 \<le> q \<and> q - 257 < i"

definition lzw_dictionary :: "nat list \<Rightarrow> bytes list \<Rightarrow> nat \<Rightarrow> lzw \<Rightarrow> bool" where
  "lzw_dictionary cs ps i x \<longleftrightarrow>
     length (lz_values x) = 4096 \<and> length (lz_lengths x) = 4096 \<and> length (lz_prevCodes x) = 4096 \<and>
     (\<forall>q < 256. lz_values x ! q = of_nat q) \<and>
     (\<forall>q. known i q \<longrightarrow> lz_lengths x ! q = of_nat (length (lzw_string ps q))) \<and>
     (\<forall>q. known i q \<longrightarrow> 256 \<le> q \<longrightarrow> lz_prevCodes x ! q = of_nat (cs ! (q - 258)) \<and> lz_values x ! q = hd (ps ! (q - 257)))"

lemma write_sequence_string:
  assumes "lzw_phrases cs ps" and "i \<le> length cs" "i \<le> 3838" and "lzw_dictionary cs ps i x" and "known i q"
    and "length (lzw_string ps q) = n" and "n \<le> length sq"
  shows "write_sequence (lz_values x) (lz_prevCodes x) n q sq = lzw_string ps q @ drop n sq"
  using assms(5-)
proof (induction n arbitrary: q sq)
  case 0
  then show ?case by (simp add: lzw_string_def split: if_splits)
next
  case (Suc n)
  have q: "q < 4096" using Suc.prems(1) assms(3) by (auto simp: known_def)
  have upd: "drop n (sq[n := v]) = v # drop (Suc n) sq" for v using Suc.prems(3) by (simp add: drop_update_swap Cons_nth_drop_Suc [symmetric])
  show ?case
  proof (cases "q < 256")
    case True
    then have "n = 0" using Suc.prems(2) by (simp add: lzw_string_def)
    then show ?thesis using True q assms(4) upd by (simp add: lzw_dictionary_def lzw_string_def)
  next
    case False
    let ?p = "cs ! (q - 258)"
    have j: "q - 258 < i" "256 \<le> q" "258 \<le> q" using False Suc.prems(1) by (auto simp: known_def)
    have p: "known i ?p" using phrase_code [OF assms(1), of "q - 258"] j assms(2) by (auto simp: known_def)
    have "?p < 65536" using p assms(3) by (auto simp: known_def)
    then have "unat (rd (lz_prevCodes x) q) = ?p" "rd (lz_values x) q = hd (ps ! (q - 257))"
      using assms(4) Suc.prems(1) j q by (auto simp: lzw_dictionary_def unat_of_nat)
    moreover have s: "lzw_string ps ?p = ps ! (q - 258)" "lzw_string ps q = ps ! (q - 258) @ [hd (ps ! (q - 257))]"
      using phrase_string [OF assms(1), of "q - 258"] j assms(2) False by (auto simp: lzw_string_def)
    ultimately show ?thesis using Suc.IH [OF p] Suc.prems(2,3) upd by simp
  qed
qed

section \<open>Decoding\<close>

text \<open>The state after \<open>i\<close> codes of a segment.\<close>

definition lzw_at :: "nat \<Rightarrow> nat list \<Rightarrow> bytes list \<Rightarrow> nat \<Rightarrow> lzw \<Rightarrow> bool" where
  "lzw_at ec cs ps i x \<longleftrightarrow> lzw_dictionary cs ps i x \<and> length (lz_sequence x) = 4096 \<and>
     stream_ok (lz_stream x) \<and> lz_bitsCached x < 8 \<and> lz_earlyChange x = ec \<and>
     lz_codeLength x = lzw_width ec i \<and> lz_nextCode x = 258 + (i - 1) \<and>
     (if i = 0 then lz_seqLength x = 0
      else lz_prevCode x = Some (cs ! (i - 1)) \<and> lz_seqLength x = length (ps ! (i - 1)) \<and>
        take (lz_seqLength x) (lz_sequence x) = ps ! (i - 1))"

lemma lzw_at_bits: "lzw_at ec cs ps i x \<Longrightarrow> stream_ok s \<Longrightarrow> b < 8 \<Longrightarrow>
    lzw_at ec cs ps i (x\<lparr>lz_stream := s, lz_bitsCached := b, lz_cachedData := c\<rparr>)"
  by (auto simp: lzw_at_def lzw_dictionary_def)

lemma clear_at: "lzw_at ec cs ps i x \<Longrightarrow> ec \<le> 1 \<Longrightarrow> lzw_at ec cs' ps' 0 (clear_table x)"
  by (auto simp: lzw_at_def lzw_dictionary_def clear_table_def lzw_width_def width_of_def known_def lzw_string_def)

lemma next_sequence_phrase:
  assumes ph: "lzw_phrases cs ps" and i: "i < length cs" "i < 3838" and a: "lzw_at ec cs ps i x"
  shows "lz_seqLength (next_sequence (Some (cs ! i)) x) = length (ps ! i)"
    and "take (length (ps ! i)) (lz_sequence (next_sequence (Some (cs ! i)) x)) = ps ! i"
    and "length (lz_sequence (next_sequence (Some (cs ! i)) x)) = 4096"
proof -
  let ?c = "cs ! i" and ?x = "next_sequence (Some (cs ! i)) x"
  have len: "length (lz_sequence x) = 4096" "lz_nextCode x = 258 + (i - 1)" using a by (auto simp: lzw_at_def)
  have d: "lzw_dictionary cs ps i x" using a by (simp add: lzw_at_def)
  note pl = phrase_length [OF ph i(1)]
  have "lz_seqLength ?x = length (ps ! i) \<and> take (length (ps ! i)) (lz_sequence ?x) = ps ! i \<and> length (lz_sequence ?x) = 4096"
  proof -
    consider (lit) "?c < 256" | (old) "258 \<le> ?c" "?c < 258 + (i - 1)" | (new) "0 < i" "?c = 258 + (i - 1)"
      using phrase_code [OF ph i(1)] by force
    then show ?thesis
    proof cases
      case lit
      then have "ps ! i = [of_nat ?c]" using phrase_string [OF ph i(1)] by (simp add: lzw_string_def)
      then show ?thesis using lit len by (cases "lz_sequence x") (simp_all add: next_sequence_def Let_def)
    next
      case old
      then have k: "known i ?c" by (auto simp: known_def)
      have s: "lzw_string ps ?c = ps ! i" by (rule phrase_string [OF ph i(1)])
      have "rd (lz_lengths x) ?c = of_nat (length (ps ! i))"
        using d k old i s by (auto simp: lzw_dictionary_def)
      then have n: "unat (rd (lz_lengths x) ?c) = length (ps ! i)" using pl i by (simp add: unat_of_nat)
      have w: "write_sequence (lz_values x) (lz_prevCodes x) (length (ps ! i)) ?c (lz_sequence x) = ps ! i @ drop (length (ps ! i)) (lz_sequence x)"
        using write_sequence_string [OF ph _ _ d k, of "length (ps ! i)" "lz_sequence x"] i s pl len by simp
      have "\<not> ?c < 256" "?c < lz_nextCode x" using old len(2) by simp_all
      then show ?thesis using len(1) pl i by (simp add: next_sequence_def Let_def n w)
    next
      case new
      let ?p = "ps ! (i - 1)"
      have p: "lz_seqLength x = length ?p" "take (length ?p) (lz_sequence x) = ?p" using a new by (auto simp: lzw_at_def)
      have s: "ps ! i = ?p @ [hd (ps ! i)]" using phrase_string [OF ph i(1)] new by (simp add: lzw_string_def)
      have "i - 1 < length cs" using i(1) by simp
      from phrase_length [OF ph this] have ne: "?p \<noteq> []" "length ?p < 4096" using i(2) by auto
      have h: "rd (lz_sequence x) 0 = hd ?p" using p(2) ne len(1) by (metis hd_conv_nth hd_take length_greater_0_conv rd_in zero_less_numeral)
      have "hd (ps ! i) = hd ?p" using s ne(1) by (metis hd_append2)
      then have s': "ps ! i = ?p @ [hd ?p]" using s by simp
      have "lz_sequence ?x = (lz_sequence x)[length ?p := hd ?p]" "lz_seqLength ?x = length ?p + 1"
        using new len p(1) h by (simp_all add: next_sequence_def Let_def)
      moreover have "take (Suc (length ?p)) ((lz_sequence x)[length ?p := hd ?p]) = ?p @ [hd ?p]"
        using p(2) ne(2) len(1) by (simp add: take_Suc_conv_app_nth)
      ultimately show ?thesis using len(1) unfolding s' by simp
    qed
  qed
  then show "lz_seqLength ?x = length (ps ! i)" "take (length (ps ! i)) (lz_sequence ?x) = ps ! i" "length (lz_sequence ?x) = 4096"
    by simp_all
qed

lemma next_sequence_frame:
  "lz_values (next_sequence code x) = lz_values x" "lz_lengths (next_sequence code x) = lz_lengths x"
  "lz_prevCodes (next_sequence code x) = lz_prevCodes x" "lz_stream (next_sequence code x) = lz_stream x"
  "lz_bitsCached (next_sequence code x) = lz_bitsCached x" "lz_earlyChange (next_sequence code x) = lz_earlyChange x"
  "lz_codeLength (next_sequence code x) = lz_codeLength x" "lz_nextCode (next_sequence code x) = lz_nextCode x"
  "lz_prevCode (next_sequence code x) = lz_prevCode x" "lz_cachedData (next_sequence code x) = lz_cachedData x"
  by (simp_all add: next_sequence_def Let_def)

lemma add_entry_at:
  assumes ph: "lzw_phrases cs ps" and i: "i < length cs" "i < 3838" "0 < i" and ec: "ec \<le> 1"
    and a: "lzw_at ec cs ps i x" and x1: "x1 = next_sequence (Some (cs ! i)) x"
  shows "lzw_dictionary cs ps (i + 1) (add_entry x1)" and "lz_codeLength (add_entry x1) = lzw_width ec (i + 1)"
    and "lz_nextCode (add_entry x1) = 258 + i"
proof -
  let ?p = "cs ! (i - 1)"
  have d: "lzw_dictionary cs ps i x" and nc: "lz_nextCode x1 = 257 + i" and prev: "lz_prevCode x1 = Some ?p"
    and w: "lz_codeLength x1 = lzw_width ec i" "lz_earlyChange x1 = ec"
    using a i(3) x1 by (auto simp: lzw_at_def next_sequence_frame)
  have d1: "lzw_dictionary cs ps i x1" using d x1 by (simp add: lzw_dictionary_def next_sequence_frame)
  have "i - 1 < length cs" using i(1) by simp
  from phrase_code [OF ph this] have kp: "known i ?p" using i(3) by (auto simp: known_def)
  then have p: "?p < 4096" using i(2) by (auto simp: known_def)
  have sp: "lzw_string ps ?p = ps ! (i - 1)" using phrase_string [OF ph, of "i - 1"] i by simp
  have new: "lzw_string ps (257 + i) = ps ! (i - 1) @ [hd (ps ! i)]" using i(3) by (simp add: lzw_string_def)
  have lens: "rd (lz_lengths x1) ?p + 1 = of_nat (length (lzw_string ps (257 + i)))"
    using d1 kp p sp new by (simp add: lzw_dictionary_def)
  have first: "rd (lz_sequence x1) 0 = hd (ps ! i)"
    using next_sequence_phrase(2,3) [OF ph i(1,2) a] phrase_length [OF ph i(1)] x1
    by (metis hd_conv_nth hd_take length_greater_0_conv rd_in zero_less_numeral list.size(3) zero_neq_numeral)
  have k: "known (i + 1) q \<longleftrightarrow> known i q \<or> q = 257 + i" for q using i(3) by (auto simp: known_def)
  have bound: "known i q \<Longrightarrow> q \<noteq> 257 + i" for q by (auto simp: known_def)
  show "lzw_dictionary cs ps (i + 1) (add_entry x1)"
    using d1 bound i unfolding lzw_dictionary_def k
    by (auto simp: add_entry_def Let_def nc prev first nth_list_update) (simp_all add: lens [symmetric])
  have "next_width (width_of (257 + i + ec)) (257 + i + ec + 1) = width_of (257 + i + ec + 1)" using i ec by (intro next_width_of) simp_all
  then show "lz_codeLength (add_entry x1) = lzw_width ec (i + 1)"
    using i(3) by (simp add: add_entry_def Let_def nc w lzw_width_def ac_simps)
  show "lz_nextCode (add_entry x1) = 258 + i" by (simp add: add_entry_def Let_def nc)
qed

lemma add_entry_frame:
  "lz_sequence (add_entry x) = lz_sequence x" "lz_seqLength (add_entry x) = lz_seqLength x" "lz_stream (add_entry x) = lz_stream x"
  "lz_bitsCached (add_entry x) = lz_bitsCached x" "lz_earlyChange (add_entry x) = lz_earlyChange x" "lz_cachedData (add_entry x) = lz_cachedData x"
  by (simp_all add: add_entry_def Let_def)

lemma process_code_at:
  assumes ph: "lzw_phrases cs ps" and i: "i < length cs" "i < 3838" and ec: "ec \<le> 1" and a: "lzw_at ec cs ps i x"
  defines "x' \<equiv> process_code (Some (cs ! i)) x"
  shows "lzw_at ec cs ps (i + 1) x'" and "map (rd (lz_sequence x')) [0..<lz_seqLength x'] = ps ! i" and "pending x' = pending x"
proof -
  define x1 where "x1 = next_sequence (Some (cs ! i)) x"
  note sq = next_sequence_phrase [OF ph i a, folded x1_def]
  have fr: "lz_sequence x' = lz_sequence x1" "lz_seqLength x' = lz_seqLength x1" "lz_stream x' = lz_stream x" "lz_bitsCached x' = lz_bitsCached x"
      "lz_earlyChange x' = lz_earlyChange x" "lz_cachedData x' = lz_cachedData x" "lz_prevCode x' = Some (cs ! i)"
    by (simp_all add: x'_def process_code_def Let_def add_entry_frame x1_def next_sequence_frame)
  have "lzw_dictionary cs ps (i + 1) x' \<and> lz_codeLength x' = lzw_width ec (i + 1) \<and> lz_nextCode x' = 258 + i"
  proof (cases "i = 0")
    case True
    then have "x' = x1\<lparr>lz_prevCode := Some (cs ! i)\<rparr>" using a by (simp add: x'_def process_code_def x1_def lzw_at_def)
    then show ?thesis using True a
      by (auto simp: lzw_at_def lzw_dictionary_def x1_def next_sequence_frame known_def lzw_width_def)
  next
    case False
    have "lz_seqLength x > 0" using False a phrase_length [OF ph, of "i - 1"] i by (auto simp: lzw_at_def)
    then have "x' = (add_entry x1)\<lparr>lz_prevCode := Some (cs ! i)\<rparr>" by (simp add: x'_def process_code_def x1_def)
    then show ?thesis using add_entry_at [OF ph i _ ec a x1_def] False by (simp add: lzw_dictionary_def)
  qed
  then show "lzw_at ec cs ps (i + 1) x'" using a sq fr by (simp add: lzw_at_def)
  have "length (ps ! i) \<le> 4096" using phrase_length [OF ph i(1)] i by simp
  then have "map (rd (lz_sequence x1)) [0..<length (ps ! i)] = take (length (ps ! i)) (lz_sequence x1)"
    using sq(3) by (intro nth_equalityI) simp_all
  then show "map (rd (lz_sequence x')) [0..<lz_seqLength x'] = ps ! i" using sq fr by simp
  show "pending x' = pending x" using fr by (simp add: pending_def)
qed

text \<open>The bytes that are still to be decoded.\<close>

definition segment_ok :: "nat list \<times> bytes list \<Rightarrow> bool" where
  "segment_ok seg = (lzw_phrases (fst seg) (snd seg) \<and> length (fst seg) \<le> 3838)"

definition lzw_rest :: "lzw \<Rightarrow> bytes \<Rightarrow> bool" where
  "lzw_rest x out \<longleftrightarrow> (\<exists>ec cs ps i segs pad. lzw_at ec cs ps i x \<and> ec \<le> 1 \<and> segment_ok (cs, ps) \<and> list_all segment_ok segs \<and> i \<le> length cs \<and>
     pending x = codes_bits ec i (drop i cs) @ lzw_bits ec (length cs) (map fst segs) @ pad \<and>
     out = concat (drop i ps) @ concat (map (concat \<circ> snd) segs))"

lemma lzw_width_bounds: "lzw_width ec i \<le> 12" "9 \<le> lzw_width ec i"
  by (simp_all add: lzw_width_def width_of_def)

lemma code_fits:
  assumes "lzw_phrases cs ps" and "i < length cs" and "length cs \<le> 3838"
  shows "cs ! i < 2 ^ lzw_width ec i"
  using phrase_code [OF assms(1,2)] assms(2,3) by (auto simp: lzw_width_def width_of_def)

lemma lzw_rest_step:
  assumes "lzw_rest x out"
  obtains (stop) x1 where "readBits (lz_codeLength x) x = (Some 257, x1)" "out = []"
  | (clear) x1 where "readBits (lz_codeLength x) x = (Some 256, x1)" "lzw_rest (clear_table x1) out"
  | (code) c x1 out' where "readBits (lz_codeLength x) x = (Some c, x1)" "c \<noteq> 256" "c \<noteq> 257"
      "out = map (rd (lz_sequence (process_code (Some c) x1))) [0..<lz_seqLength (process_code (Some c) x1)] @ out'"
      "lzw_rest (process_code (Some c) x1) out'"
proof -
  obtain ec cs ps i segs pad where at: "lzw_at ec cs ps i x" and ec: "ec \<le> 1" and seg: "segment_ok (cs, ps)" "list_all segment_ok segs"
    and i: "i \<le> length cs" and p: "pending x = codes_bits ec i (drop i cs) @ lzw_bits ec (length cs) (map fst segs) @ pad"
    and out: "out = concat (drop i ps) @ concat (map (concat \<circ> snd) segs)"
    using assms by (auto simp: lzw_rest_def)
  let ?w = "lzw_width ec i"
  have st: "stream_ok (lz_stream x)" "lz_bitsCached x < 8" "lz_codeLength x = ?w" using at by (auto simp: lzw_at_def)
  have ph: "lzw_phrases cs ps" "length cs \<le> 3838" "length ps = length cs" using seg(1) by (auto simp: segment_ok_def lzw_phrases_def)
  have read: "\<exists>x1. readBits (lz_codeLength x) x = (Some v, x1) \<and> lzw_at ec cs ps i x1 \<and> pending x1 = r"
    if "pending x = msb_bits ?w v @ r" "v < 2 ^ ?w" for v r
  proof -
    note rd = readBits_spec [OF st(1,2) lzw_width_bounds(1) that]
    obtain c b s where "readBits ?w x = (Some v, x\<lparr>lz_stream := s, lz_bitsCached := b, lz_cachedData := c\<rparr>)"
        "stream_ok s" "b < 8" "msb_bits b c @ byte_bits (rest s) = r"
      using rd .
    with lzw_at_bits [OF at, of s b c] st(3) show ?thesis by (simp add: pending_def)
  qed
  have big: "(257::nat) < 2 ^ ?w" using power_increasing [OF lzw_width_bounds(2) [of ec i], of "2::nat"] by simp
  show ?thesis
  proof (cases "i < length cs")
    case True
    then have "pending x = msb_bits ?w (cs ! i) @ codes_bits ec (i + 1) (drop (i + 1) cs) @ lzw_bits ec (length cs) (map fst segs) @ pad"
      using p by (simp add: Cons_nth_drop_Suc [symmetric])
    from read [OF this code_fits [OF ph(1) True ph(2)]] obtain x1 where
      x1: "readBits (lz_codeLength x) x = (Some (cs ! i), x1)" "lzw_at ec cs ps i x1"
        "pending x1 = codes_bits ec (i + 1) (drop (i + 1) cs) @ lzw_bits ec (length cs) (map fst segs) @ pad" by blast
    have i': "i < 3838" using True ph(2) by simp
    note pc = process_code_at [OF ph(1) True i' ec x1(2)]
    let ?out = "concat (drop (i + 1) ps) @ concat (map (concat \<circ> snd) segs)"
    have "lzw_rest (process_code (Some (cs ! i)) x1) ?out"
      unfolding lzw_rest_def using pc(1,3) x1(3) ec seg True
      by (intro exI [of _ ec] exI [of _ cs] exI [of _ ps] exI [of _ "i + 1"] exI [of _ segs] exI [of _ pad]) simp
    moreover have "out = ps ! i @ ?out" using out True ph(3) by (simp add: Cons_nth_drop_Suc [symmetric])
    moreover have "cs ! i \<noteq> 256 \<and> cs ! i \<noteq> 257" using phrase_code [OF ph(1) True] by auto
    ultimately show ?thesis using code [OF x1(1)] pc(2) by simp
  next
    case False
    with i have i: "i = length cs" by simp
    show ?thesis
    proof (cases segs)
      case Nil
      then have "pending x = msb_bits ?w (257::nat) @ pad" using p i by simp
      from read [OF this big] stop out i ph(3) Nil show ?thesis by auto
    next
      case (Cons seg1 segs')
      obtain cs' ps' where s1: "seg1 = (cs', ps')" by fastforce
      have "pending x = msb_bits ?w (256::nat) @ codes_bits ec 0 cs' @ lzw_bits ec (length cs') (map fst segs') @ pad" using p i Cons s1 by simp
      from read [OF this] big obtain x1 where x1: "readBits (lz_codeLength x) x = (Some 256, x1)" "lzw_at ec cs ps i x1"
          "pending x1 = codes_bits ec 0 cs' @ lzw_bits ec (length cs') (map fst segs') @ pad" by auto
      have "lzw_rest (clear_table x1) out"
        unfolding lzw_rest_def using clear_at [OF x1(2) ec, of cs' ps'] x1(3) ec seg(2) Cons s1 out i ph(3)
        by (intro exI [of _ ec] exI [of _ cs'] exI [of _ ps'] exI [of _ 0] exI [of _ segs'] exI [of _ pad])
          (simp add: pending_def clear_table_def)
      then show ?thesis using clear x1(1) by blast
    qed
  qed
qed

lemma lzw_codes_rest:
  assumes "lzw_rest x out" and "lzw_codes k x = (out1, fin, x')"
  shows "if fin then out1 = out else \<exists>out2. out = out1 @ out2 \<and> lzw_rest x' out2"
  using assms
proof (induction k arbitrary: x out out1 fin)
  case (Suc k)
  from Suc.prems(1) show ?case
  proof (cases rule: lzw_rest_step)
    case (code c x1 out')
    then show ?thesis using Suc.prems(2) Suc.IH [OF code(5)] by (auto simp: Let_def split: prod.splits if_splits)
  qed (use Suc in auto)
qed auto

lemma lzw_rest_decodes:
  assumes "lzw_inv c x" and "lzw_rest x out"
  shows "decode_all lzw_block c x = Some (Inr (c @ out))"
  using assms
proof (induction "lzw_left x" arbitrary: c x out rule: less_induct)
  case less
  obtain out1 fin x' where b: "lzw_codes 512 x = (out1, fin, x')" by (metis prod_cases3)
  then have blk: "lzw_block c x = Inr (out1, fin, x')" by (simp add: lzw_block_def)
  note r = lzw_codes_rest [OF less.prems(2) b]
  show ?case
  proof (cases fin)
    case True
    then show ?thesis using r blk by simp
  next
    case False
    then obtain out2 where out2: "out = out1 @ out2" "lzw_rest x' out2" using r by auto
    have blk': "lzw_block c x = Inr (out1, False, x')" using blk False by simp
    show ?thesis
      using less.hyps [OF lzw.block_todo [OF less.prems(1) blk'] lzw.block_inv [OF less.prems(1) blk'] out2(2)] out2(1)
        decode_all_more [of lzw_block c x out1 x', OF blk'] by simp
  qed
qed

lemma lzw_init_at: "ec \<le> 1 \<Longrightarrow> stream_ok str \<Longrightarrow> lzw_at ec [] [] 0 (sub (mk_lzw str maybeLength ec))"
  by (auto simp: lzw_at_def lzw_dictionary_def mk_lzw_def known_def lzw_string_def lzw_width_def width_of_def nth_append zeros_def)

text \<open>
  C35: LZWStream decodes every LZW encoding.  Take data in segments of up to 3838 codes, where
  every code stands for a byte or for an earlier phrase extended by the first byte of the
  next one (the phrase under construction included), written at the widths of the format
  (with or without early change), each segment after a code that clears the table and the
  last one before the code that ends the data.  Then the stream reads, in chunks of any
  positive sizes, as the phrases one after the other.
\<close>

theorem lzw_decodes:
  assumes "stream_ok str" and "earlyChange \<le> 1" and "list_all segment_ok segs"
    and "byte_bits (rest str) = lzw_bits earlyChange 0 (map fst segs) @ pad" and "\<forall>n \<in> set ns. 0 < n"
  shows "\<exists>d. read_chunks lzw_readBlock ns (mk_lzw str maybeLength earlyChange)
    = Some (Inr (take (sum_list ns) (concat (map (concat \<circ> snd) segs)), d))"
proof -
  let ?d = "mk_lzw str maybeLength earlyChange" and ?out = "concat (map (concat \<circ> snd) segs)"
  have x: "?d = mk_dstream maybeLength (sub ?d)" by (simp add: mk_lzw_def)
  have inv: "lzw_inv [] (sub ?d)" by (simp add: lzw_inv_def mk_lzw_def)
  have "pending (sub ?d) = byte_bits (rest str)" by (simp add: pending_def mk_lzw_def msb_bits_def)
  then have "lzw_rest (sub ?d) ?out"
    unfolding lzw_rest_def using lzw_init_at [OF assms(2,1)] assms(2-4)
    by (intro exI [of _ earlyChange] exI [of _ "[]"] exI [of _ 0] exI [of _ segs] exI [of _ pad]) (simp add: segment_ok_def lzw_phrases_def)
  from lzw.read_chunks_represents [OF lzw.fresh_represents [OF inv lzw_rest_decodes [OF inv this, simplified]] assms(5), of maybeLength]
  show ?thesis unfolding x [symmetric] by (simp add: mk_lzw_def)
qed

lemma segment_ok_code:
  "segment_ok (cs, ps) \<longleftrightarrow> length cs \<le> 3838 \<and> length ps = length cs \<and>
     list_all (\<lambda>i. cs ! i < 256 \<and> ps ! i = [of_nat (cs ! i)] \<or>
        258 \<le> cs ! i \<and> cs ! i < 258 + i \<and> ps ! i = ps ! (cs ! i - 258) @ [hd (ps ! (cs ! i - 257))]) [0..<length cs]"
  by (auto simp: segment_ok_def lzw_phrases_def list_all_iff)

lemma msb_bits_eval:
  "msb_bits 8 w = [bit w 7, bit w 6, bit w 5, bit w 4, bit w 3, bit w 2, bit w 1, bit w 0]"
  "msb_bits 9 w = [bit w 8, bit w 7, bit w 6, bit w 5, bit w 4, bit w 3, bit w 2, bit w 1, bit w 0]"
  by (simp_all add: msb_bits_def upt_rec eval_nat_numeral)

theorem lzw_decodes_witness:
  "\<exists>d. read_chunks lzw_readBlock [4, 20] (mk_lzw (mk_stream [0x80, 0x0B, 0x60, 0x50, 0x22, 0x0C, 0x0C, 0x85, 0x01] None None) 0 1)
    = Some (Inr (take (sum_list [4, 20]) (concat (map (concat \<circ> snd)
        [([45, 258, 258, 65, 259, 66] :: nat list, [[45], [45, 45], [45, 45], [65], [45, 45, 45], [66]])])), d))"
  by (rule lzw_decodes [where pad = "[]"])
    (simp_all add: segment_ok_code, simp add: byte_bits_def msb_bits_eval lzw_width_def width_of_def bit_numeral_rec bit_0)

subsection \<open>Data that ends early\<close>





end
