(* ===== verification/Lexer.thy ===== *)
theory Lexer
  imports Primitives Ascii_Filters
begin

text \<open>
  The lexer of the worker (\<open>class Lexer\<close> in \<open>core/parser.js\<close>): numbers, literal and
  hexadecimal strings, names, commands, comments.  Every loop of the source is a recursive
  function on the lexer; they terminate because every turn reads a character.
\<close>

section \<open>The lexer\<close>

text \<open>
  A character is its code, and \<open>None\<close> stands for -1 at the end of the data.  \<open>knownCommands\<close>
  gives, for the commands that are known, the number of arguments and whether fewer are
  accepted.  \<open>strBuf\<close> and the counter of the warnings about hexadecimal strings are local to
  the calls that use them.
\<close>

type_synonym known_commands = "jsstr \<Rightarrow> (nat \<times> bool) option"

record lexer =
  lx_stream :: stream
  lx_char :: "nat option"
  lx_known :: "known_commands option"
  lx_beginPos :: "nat option"

definition nextChar :: "lexer \<Rightarrow> lexer" where
  "nextChar lx = (let (b, s) = getByte (lx_stream lx) in lx\<lparr>lx_stream := s, lx_char := map_option unat b\<rparr>)"

definition peekChar :: "lexer \<Rightarrow> nat option" where
  "peekChar lx = map_option unat (fst (peekByte (lx_stream lx)))"

definition mk_lexer :: "stream \<Rightarrow> known_commands option \<Rightarrow> lexer" where
  "mk_lexer s knownCommands =
     nextChar \<lparr>lx_stream = s, lx_char = None, lx_known = knownCommands, lx_beginPos = None\<rparr>"

text \<open>The measure of the loops: every character that is read decreases it.\<close>

definition lx_left :: "lexer \<Rightarrow> nat" where
  "lx_left lx = 2 * (s_end (lx_stream lx) - s_pos (lx_stream lx)) + (if lx_char lx = None then 0 else 1)"

lemma nextChar_left: "lx_left (nextChar lx) \<le> lx_left lx"
  by (auto simp: lx_left_def nextChar_def getByte_def)

lemma nextChar_less: "lx_char lx \<noteq> None \<or> lx_char (nextChar lx) \<noteq> None \<Longrightarrow> lx_left (nextChar lx) < lx_left lx"
  by (auto simp: lx_left_def nextChar_def getByte_def split: if_splits)

lemma nextChar_less_Some [termination_simp]:
  "lx_char lx = Some c \<Longrightarrow> lx_left (nextChar lx) < lx_left lx"
  "lx_char (nextChar lx) = Some c \<Longrightarrow> lx_left (nextChar lx) < lx_left lx"
  using nextChar_less [of lx] by auto

definition specialChars :: "nat list" where
  "specialChars =
    [1, 0, 0, 0, 0, 0, 0, 0, 0, 1, 1, 0, 1, 1, 0, 0, 0, 0, 0, 0, 0, 0, 0, 0, 0, 0, 0, 0, 0, 0, 0, 0,
     1, 0, 0, 0, 0, 2, 0, 0, 2, 2, 0, 0, 0, 0, 0, 2, 0, 0, 0, 0, 0, 0, 0, 0, 0, 0, 0, 0, 2, 0, 2, 0,
     0, 0, 0, 0, 0, 0, 0, 0, 0, 0, 0, 0, 0, 0, 0, 0, 0, 0, 0, 0, 0, 0, 0, 0, 0, 0, 0, 2, 0, 2, 0, 0,
     0, 0, 0, 0, 0, 0, 0, 0, 0, 0, 0, 0, 0, 0, 0, 0, 0, 0, 0, 0, 0, 0, 0, 0, 0, 0, 0, 2, 0, 2, 0, 0,
     0, 0, 0, 0, 0, 0, 0, 0, 0, 0, 0, 0, 0, 0, 0, 0, 0, 0, 0, 0, 0, 0, 0, 0, 0, 0, 0, 0, 0, 0, 0, 0,
     0, 0, 0, 0, 0, 0, 0, 0, 0, 0, 0, 0, 0, 0, 0, 0, 0, 0, 0, 0, 0, 0, 0, 0, 0, 0, 0, 0, 0, 0, 0, 0,
     0, 0, 0, 0, 0, 0, 0, 0, 0, 0, 0, 0, 0, 0, 0, 0, 0, 0, 0, 0, 0, 0, 0, 0, 0, 0, 0, 0, 0, 0, 0, 0,
     0, 0, 0, 0, 0, 0, 0, 0, 0, 0, 0, 0, 0, 0, 0, 0, 0, 0, 0, 0, 0, 0, 0, 0, 0, 0, 0, 0, 0, 0, 0, 0]"

text \<open>\<open>specialChars[ch]\<close>, where the missing entry of -1 is falsy.\<close>

definition special :: "nat option \<Rightarrow> nat" where
  "special ch = (case ch of None \<Rightarrow> 0 | Some c \<Rightarrow> specialChars ! c)"

definition toHexDigit :: "nat option \<Rightarrow> nat option" where
  "toHexDigit ch =
     (case ch of
        None \<Rightarrow> None
      | Some c \<Rightarrow>
          if 0x30 \<le> c \<and> c \<le> 0x39 then Some (c AND 0x0f)
          else if 0x41 \<le> c \<and> c \<le> 0x46 \<or> 0x61 \<le> c \<and> c \<le> 0x66 then Some ((c AND 0x0f) + 9)
          else None)"

text \<open>\<open>String.fromCharCode(ch)\<close>; -1 becomes the code unit \<open>0xffff\<close>.\<close>

definition fromCharCode :: "nat option \<Rightarrow> nat" where
  "fromCharCode ch = (case ch of None \<Rightarrow> 0xffff | Some c \<Rightarrow> c)"

definition white :: "nat option \<Rightarrow> bool" where
  "white ch \<longleftrightarrow> (case ch of None \<Rightarrow> False | Some c \<Rightarrow> isWhiteSpace (of_nat c))"

definition is_digit :: "nat option \<Rightarrow> bool" where
  "is_digit ch \<longleftrightarrow> (case ch of None \<Rightarrow> False | Some c \<Rightarrow> 0x30 \<le> c \<and> c \<le> 0x39)"

definition is_octal :: "nat option \<Rightarrow> bool" where
  "is_octal ch \<longleftrightarrow> (case ch of None \<Rightarrow> False | Some c \<Rightarrow> 0x30 \<le> c \<and> c \<le> 0x37)"

section \<open>Numbers\<close>

function skip_newlines :: "lexer \<Rightarrow> lexer" where
  "skip_newlines lx = (if lx_char lx = Some 0x0a \<or> lx_char lx = Some 0x0d then skip_newlines (nextChar lx) else lx)"
  by pat_completeness auto
termination by (relation "measure lx_left") (auto simp: nextChar_less_Some)

declare skip_newlines.simps [simp del]

text \<open>The loop over the digits after the first one; the current character is the one read last.\<close>

function digits_loop :: "rounding \<Rightarrow> js_num \<Rightarrow> js_num \<Rightarrow> lexer \<Rightarrow> js_num \<times> js_num \<times> lexer" where
  "digits_loop fl baseValue divideBy lx =
     (let lx' = nextChar lx
      in case lx_char lx' of
           None \<Rightarrow> (baseValue, divideBy, lx')
         | Some ch \<Rightarrow>
             if 0x30 \<le> ch \<and> ch \<le> 0x39 then
               digits_loop fl (num_add fl (num_mul fl baseValue (Num 10)) (Num (of_nat (ch - 0x30))))
                 (if divideBy \<noteq> Num 0 then num_mul fl divideBy (Num 10) else divideBy) lx'
             else if ch = 0x2e then
               if divideBy = Num 0 then digits_loop fl baseValue (Num 1) lx' else (baseValue, divideBy, lx')
             else if ch = 0x2d then digits_loop fl baseValue divideBy lx'
             else (baseValue, divideBy, lx'))"
  by pat_completeness auto
termination by (relation "measure (\<lambda>(fl, b, d, lx). lx_left lx)") (auto simp: nextChar_less_Some)

declare digits_loop.simps [simp del]

definition number_sign :: "lexer \<Rightarrow> rat \<times> lexer" where
  "number_sign lx =
     (if lx_char lx = Some 0x2d then
        let lx1 = nextChar lx in (-1, if lx_char lx1 = Some 0x2d then nextChar lx1 else lx1)
      else if lx_char lx = Some 0x2b then (1, nextChar lx)
      else (1, lx))"

text \<open>The number after its sign and a leading point.\<close>

definition number_value :: "rounding \<Rightarrow> rat \<Rightarrow> js_num \<Rightarrow> lexer \<Rightarrow> (js_num \<times> lexer) res" where
  "number_value fl sign divideBy lx =
     (if \<not> is_digit (lx_char lx) then
        if white (lx_char lx) \<or> lx_char lx = Some 0x28 \<or> lx_char lx = Some 0x3c \<or> lx_char lx = None then Inr (Num 0, lx)
        else Inl (FormatError ''Invalid number'')
      else
        let (baseValue, divideBy, lx') = digits_loop fl (Num (of_nat (the (lx_char lx) - 0x30))) divideBy lx;
            baseValue = (if divideBy \<noteq> Num 0 then num_div fl baseValue divideBy else baseValue)
        in Inr (num_mul fl (Num sign) baseValue, lx'))"

definition getNumber :: "rounding \<Rightarrow> lexer \<Rightarrow> (js_num \<times> lexer) res" where
  "getNumber fl lx =
     (let (sign, lx1) = number_sign lx;
          lx2 = skip_newlines lx1
      in if lx_char lx2 = Some 0x2e then number_value fl sign (Num 10) (nextChar lx2)
         else number_value fl sign (Num 0) lx2)"

section \<open>Strings\<close>

text \<open>The escapes of one character; \<open>None\<close> for those that are treated on their own.\<close>

definition simple_escape :: "nat \<Rightarrow> jsstr" where
  "simple_escape c =
     (if c = 0x6e then [0x0a] else if c = 0x72 then [0x0d] else if c = 0x74 then [0x09]
      else if c = 0x62 then [0x08] else if c = 0x66 then [0x0c] else if c = 0x0a then [] else [c])"

text \<open>Up to three octal digits; the flag tells that the current character is still to be treated.\<close>

definition octal_escape :: "lexer \<Rightarrow> nat \<times> bool \<times> lexer" where
  "octal_escape lx =
     (let x = the (lx_char lx) AND 0x0f;
          lx1 = nextChar lx
      in if is_octal (lx_char lx1) then
           let x1 = push_bit 3 x + (the (lx_char lx1) AND 0x0f);
               lx2 = nextChar lx1
           in if is_octal (lx_char lx2) then (push_bit 3 x1 + (the (lx_char lx2) AND 0x0f), False, lx2)
              else (x1, True, lx2)
         else (x, True, lx1))"

lemma octal_escape_left: "octal_escape lx = (x, b, lx') \<Longrightarrow> lx_left lx' \<le> lx_left lx"
  using nextChar_left [of lx] nextChar_left [of "nextChar lx"] by (auto simp: octal_escape_def Let_def split: if_splits)

text \<open>Reading more than one character, from one that exists.\<close>

lemma nextChar_more:
  assumes "lx_char (nextChar lx) = Some c"
  shows "lx_left (nextChar (nextChar lx)) < lx_left lx" "lx_left (nextChar (nextChar (nextChar lx))) < lx_left lx"
  using assms nextChar_less [of lx] nextChar_left [of "nextChar lx"] nextChar_left [of "nextChar (nextChar lx)"] by auto

lemma octal_escape_less:
  assumes "(x, b, lx2) = octal_escape (nextChar lx)" and "lx_char lx = Some c"
  shows "lx_left lx2 < lx_left lx" "lx_left (nextChar lx2) < lx_left lx"
  using octal_escape_left [OF assms(1) [symmetric]] nextChar_less [of lx] nextChar_left [of lx2] assms(2) by auto

function string_loop :: "nat \<Rightarrow> jsstr \<Rightarrow> lexer \<Rightarrow> jsstr \<times> lexer" where
  "string_loop numParen strBuf lx =
     (case lx_char lx of
        None \<Rightarrow> (strBuf, lx)
      | Some ch \<Rightarrow>
          if ch = 0x28 then string_loop (numParen + 1) (strBuf @ [0x28]) (nextChar lx)
          else if ch = 0x29 then
            if numParen - 1 = 0 then (strBuf, nextChar lx)
            else string_loop (numParen - 1) (strBuf @ [0x29]) (nextChar lx)
          else if ch = 0x5c then
            let lx1 = nextChar lx
            in (case lx_char lx1 of
                 None \<Rightarrow> (strBuf, lx1)
               | Some c \<Rightarrow>
                   if is_octal (Some c) then
                     let (x, charBuffered, lx2) = octal_escape lx1
                     in string_loop numParen (strBuf @ [x]) (if charBuffered then lx2 else nextChar lx2)
                   else if c = 0x0d then
                     string_loop numParen strBuf
                       (nextChar (if peekChar lx1 = Some 0x0a then nextChar lx1 else lx1))
                   else string_loop numParen (strBuf @ simple_escape c) (nextChar lx1))
          else string_loop numParen (strBuf @ [ch]) (nextChar lx))"
  by pat_completeness auto
termination by (relation "measure (\<lambda>(n, b, lx). lx_left lx)") (auto simp: nextChar_less_Some nextChar_more octal_escape_less)

declare string_loop.simps [simp del]

definition lexer_getString :: "lexer \<Rightarrow> jsstr \<times> lexer" where
  "lexer_getString lx = string_loop 1 [] (nextChar lx)"

function hex_string_loop :: "nat option \<Rightarrow> jsstr \<Rightarrow> lexer \<Rightarrow> nat option \<times> jsstr \<times> lexer" where
  "hex_string_loop dig1 strBuf lx =
     (case lx_char lx of
        None \<Rightarrow> (dig1, strBuf, lx)
      | Some ch \<Rightarrow>
          if ch = 0x3e then (dig1, strBuf, nextChar lx)
          else if specialChars ! ch = 1 then hex_string_loop dig1 strBuf (nextChar lx)
          else
            (case toHexDigit (Some ch) of
               None \<Rightarrow> hex_string_loop dig1 strBuf (nextChar lx)
             | Some digit \<Rightarrow>
                 (case dig1 of
                    None \<Rightarrow> hex_string_loop (Some digit) strBuf (nextChar lx)
                  | Some d \<Rightarrow> hex_string_loop None (strBuf @ [push_bit 4 d OR digit]) (nextChar lx))))"
  by pat_completeness auto
termination by (relation "measure (\<lambda>(d, b, lx). lx_left lx)") (auto simp: nextChar_less_Some)

declare hex_string_loop.simps [simp del]

definition getHexString :: "lexer \<Rightarrow> jsstr \<times> lexer" where
  "getHexString lx =
     (let (dig1, strBuf, lx') = hex_string_loop None [] lx
      in (case dig1 of None \<Rightarrow> strBuf | Some d \<Rightarrow> strBuf @ [push_bit 4 d], lx'))"

section \<open>Names\<close>

function name_loop :: "jsstr \<Rightarrow> lexer \<Rightarrow> jsstr \<times> lexer" where
  "name_loop strBuf lx =
     (let lx1 = nextChar lx
      in case lx_char lx1 of
           None \<Rightarrow> (strBuf, lx1)
         | Some ch \<Rightarrow>
             if specialChars ! ch \<noteq> 0 then (strBuf, lx1)
             else if ch = 0x23 then
               let lx2 = nextChar lx1; ch2 = lx_char lx2
               in if special ch2 \<noteq> 0 then (strBuf @ [0x23], lx2)
                  else
                    (case toHexDigit ch2 of
                       None \<Rightarrow> name_loop (strBuf @ [0x23, fromCharCode ch2]) lx2
                     | Some x \<Rightarrow>
                         let lx3 = nextChar lx2; ch3 = lx_char lx3
                         in (case toHexDigit ch3 of
                               None \<Rightarrow>
                                 if special ch3 \<noteq> 0 then (strBuf @ [0x23, fromCharCode ch2], lx3)
                                 else name_loop (strBuf @ [0x23, fromCharCode ch2, fromCharCode ch3]) lx3
                             | Some x2 \<Rightarrow> name_loop (strBuf @ [push_bit 4 x OR x2]) lx3))
             else name_loop (strBuf @ [ch]) lx1)"
  by pat_completeness auto
termination by (relation "measure (\<lambda>(b, lx). lx_left lx)") (auto simp: nextChar_less_Some nextChar_more)

declare name_loop.simps [simp del]

definition getName :: "lexer \<Rightarrow> jsstr \<times> lexer" where
  "getName lx = name_loop [] lx"

section \<open>Objects\<close>

text \<open>White space and comments before a token.\<close>

function skip_space :: "bool \<Rightarrow> lexer \<Rightarrow> lexer" where
  "skip_space comment lx =
     (case lx_char lx of
        None \<Rightarrow> lx
      | Some ch \<Rightarrow>
          if comment then skip_space (\<not> (ch = 0x0a \<or> ch = 0x0d)) (nextChar lx)
          else if ch = 0x25 then skip_space True (nextChar lx)
          else if specialChars ! ch \<noteq> 1 then lx
          else skip_space False (nextChar lx))"
  by pat_completeness auto
termination by (relation "measure (\<lambda>(c, lx). lx_left lx)") (auto simp: nextChar_less_Some)

declare skip_space.simps [simp del]

definition known_command :: "lexer \<Rightarrow> jsstr \<Rightarrow> bool" where
  "known_command lx str = (case lx_known lx of None \<Rightarrow> False | Some known \<Rightarrow> known str \<noteq> None)"

function command_loop :: "jsstr \<Rightarrow> bool \<Rightarrow> lexer \<Rightarrow> (jsstr \<times> lexer) res" where
  "command_loop str knownCommandFound lx =
     (let lx1 = nextChar lx
      in case lx_char lx1 of
           None \<Rightarrow> Inr (str, lx1)
         | Some ch \<Rightarrow>
             if specialChars ! ch \<noteq> 0 then Inr (str, lx1)
             else
               let possibleCommand = str @ [ch]
               in if knownCommandFound \<and> \<not> known_command lx possibleCommand then Inr (str, lx1)
                  else if length str = 128 then Inl (FormatError ''Command token too long'')
                  else command_loop possibleCommand (known_command lx possibleCommand) lx1)"
  by pat_completeness auto
termination by (relation "measure (\<lambda>(s, k, lx). lx_left lx)") (auto simp: nextChar_less_Some)

declare command_loop.simps [simp del]

text \<open>What a finished word stands for.\<close>

definition word_object :: "jsstr \<Rightarrow> lexer \<Rightarrow> pobj \<times> lexer" where
  "word_object str lx =
     (if str = js ''true'' then (PBool True, lx)
      else if str = js ''false'' then (PBool False, lx)
      else if str = js ''null'' then (PNull, lx)
      else if str = js ''BI'' then (PCmd str, lx\<lparr>lx_beginPos := Some (s_pos (lx_stream lx))\<rparr>)
      else (PCmd str, lx))"

definition getCommand :: "nat \<Rightarrow> lexer \<Rightarrow> (pobj \<times> lexer) res" where
  "getCommand ch lx =
     (if (ch < 0x20 \<or> 0x7f < ch) \<and> (case peekChar lx of None \<Rightarrow> False | Some n \<Rightarrow> 0x20 \<le> n \<and> n \<le> 0x7f)
      then Inr (PCmd [ch], nextChar lx)
      else rbind (command_loop [ch] (known_command lx [ch]) lx) (\<lambda>(str, lx'). Inr (word_object str lx')))"

definition lexer_getObj :: "rounding \<Rightarrow> lexer \<Rightarrow> (pobj \<times> lexer) res" where
  "lexer_getObj fl lx0 =
     (let lx = skip_space False lx0
      in case lx_char lx of
           None \<Rightarrow> Inr (PEOF, lx)
         | Some ch \<Rightarrow>
             if 0x30 \<le> ch \<and> ch \<le> 0x39 \<or> ch = 0x2b \<or> ch = 0x2d \<or> ch = 0x2e then
               rbind (getNumber fl lx) (\<lambda>(n, lx'). Inr (PNum n, lx'))
             else if ch = 0x28 then let (s, lx') = lexer_getString lx in Inr (PStr s, lx')
             else if ch = 0x2f then let (s, lx') = getName lx in Inr (PName s, lx')
             else if ch = 0x5b then Inr (PCmd (js ''[''), nextChar lx)
             else if ch = 0x5d then Inr (PCmd (js '']''), nextChar lx)
             else if ch = 0x3c then
               let lx1 = nextChar lx
               in if lx_char lx1 = Some 0x3c then Inr (PCmd (js ''<<''), nextChar lx1)
                  else let (s, lx') = getHexString lx1 in Inr (PStr s, lx')
             else if ch = 0x3e then
               let lx1 = nextChar lx
               in if lx_char lx1 = Some 0x3e then Inr (PCmd (js ''>>''), nextChar lx1)
                  else Inr (PCmd (js ''>''), lx1)
             else if ch = 0x7b then Inr (PCmd (js ''{''), nextChar lx)
             else if ch = 0x7d then Inr (PCmd (js ''}''), nextChar lx)
             else if ch = 0x29 then Inl (FormatError ''Illegal character'')
             else getCommand ch lx)"

function skipToNextLine :: "lexer \<Rightarrow> lexer" where
  "skipToNextLine lx =
     (case lx_char lx of
        None \<Rightarrow> lx
      | Some ch \<Rightarrow>
          if ch = 0x0d then
            let lx1 = nextChar lx in if lx_char lx1 = Some 0x0a then nextChar lx1 else lx1
          else if ch = 0x0a then nextChar lx
          else skipToNextLine (nextChar lx))"
  by pat_completeness auto
termination by (relation "measure lx_left") (auto simp: nextChar_less_Some)

declare skipToNextLine.simps [simp del]

section \<open>Progress\<close>

text \<open>No operation moves back, and a token takes at least one character.\<close>

lemma skip_newlines_left: "lx_left (skip_newlines lx) \<le> lx_left lx"
proof (induction lx rule: skip_newlines.induct)
  case (1 lx)
  then show ?case using nextChar_left [of lx] by (subst skip_newlines.simps) auto
qed

lemma digits_loop_left: "digits_loop fl b d lx = (b', d', lx') \<Longrightarrow> lx_left lx' \<le> lx_left (nextChar lx)"
proof (induction "lx_left lx" arbitrary: b d lx rule: less_induct)
  case less
  have IH: "lx_left lx' \<le> lx_left (nextChar lx)"
    if "digits_loop fl b1 d1 (nextChar lx) = (b', d', lx')" "lx_char (nextChar lx) = Some c" for b1 d1 c
    using less.hyps [OF _ that(1)] nextChar_less_Some(2) [OF that(2)] nextChar_left [of "nextChar lx"] by simp
  from less.prems show ?case
    by (subst (asm) digits_loop.simps) (auto simp: Let_def split: option.splits if_splits dest: IH)
qed

lemma string_loop_left: "string_loop n b lx = (b', lx') \<Longrightarrow> lx_left lx' \<le> lx_left lx"
proof (induction "lx_left lx" arbitrary: n b lx rule: less_induct)
  case less
  have IH: "lx_left lx' \<le> lx_left lx" if "string_loop n1 b1 lx1 = (b', lx')" "lx_left lx1 < lx_left lx" for n1 b1 lx1
    using less.hyps [OF that(2,1)] that(2) by simp
  from less.prems show ?case
    using nextChar_left [of lx] nextChar_left [of "nextChar lx"]
    by (subst (asm) string_loop.simps)
      (auto simp: Let_def nextChar_less_Some nextChar_more split: option.splits if_splits prod.splits
        dest!: IH dest: octal_escape_less [OF sym])
qed

lemma hex_string_loop_left: "hex_string_loop f b lx = (f', b', lx') \<Longrightarrow> lx_left lx' \<le> lx_left lx"
proof (induction "lx_left lx" arbitrary: f b lx rule: less_induct)
  case less
  have IH: "lx_left lx' \<le> lx_left lx" if "hex_string_loop f1 b1 lx1 = (f', b', lx')" "lx_left lx1 < lx_left lx" for f1 b1 lx1
    using less.hyps [OF that(2,1)] that(2) by simp
  from less.prems show ?case
    using nextChar_left [of lx]
    by (subst (asm) hex_string_loop.simps) (auto simp: nextChar_less_Some split: option.splits if_splits dest!: IH)
qed

lemma name_loop_left: "name_loop b lx = (b', lx') \<Longrightarrow> lx_left lx' \<le> lx_left (nextChar lx)"
proof (induction "lx_left lx" arbitrary: b lx rule: less_induct)
  case less
  note n = nextChar_left [of lx] nextChar_left [of "nextChar lx"] nextChar_left [of "nextChar (nextChar lx)"]
    nextChar_left [of "nextChar (nextChar (nextChar lx))"]
  have IH: "lx_left lx' \<le> lx_left (nextChar lx1)" if "name_loop b1 lx1 = (b', lx')" "lx_left lx1 < lx_left lx" for b1 lx1
    using less.hyps [OF that(2,1)] .
  from less.prems show ?case using n
    by (subst (asm) name_loop.simps)
      (auto simp: Let_def nextChar_less_Some nextChar_more split: option.splits if_splits dest!: IH)
qed

lemma command_loop_left: "command_loop str k lx = Inr (str', lx') \<Longrightarrow> lx_left lx' \<le> lx_left (nextChar lx)"
proof (induction "lx_left lx" arbitrary: str k lx rule: less_induct)
  case less
  have IH: "lx_left lx' \<le> lx_left (nextChar lx)" if "command_loop s1 k1 (nextChar lx) = Inr (str', lx')" "lx_char (nextChar lx) = Some c" for s1 k1 c
    using less.hyps [OF _ that(1)] nextChar_less_Some(2) [OF that(2)] nextChar_left [of "nextChar lx"] by simp
  from less.prems show ?case
    by (subst (asm) command_loop.simps) (auto simp: Let_def split: option.splits if_splits dest: IH)
qed

lemma skip_space_left: "lx_left (skip_space c lx) \<le> lx_left lx"
proof (induction "lx_left lx" arbitrary: c lx rule: less_induct)
  case less
  have "lx_left (skip_space c1 (nextChar lx)) \<le> lx_left lx" if "lx_char lx = Some ch" for c1 ch
    using less.hyps [of "nextChar lx" c1] nextChar_less_Some(1) [OF that] by simp
  then show ?case by (subst skip_space.simps) (auto split: option.splits)
qed

lemma number_value_left:
  assumes "number_value fl sg d lx = Inr (x, lx')"
  shows "lx_left lx' \<le> lx_left lx" and "is_digit (lx_char lx) \<Longrightarrow> lx_left lx' < lx_left lx"
proof -
  have "lx' = lx" if "\<not> is_digit (lx_char lx)"
    using assms that by (auto simp: number_value_def split: if_splits)
  moreover have "lx_left lx' < lx_left lx" if digit: "is_digit (lx_char lx)"
  proof -
    obtain b d1 lx1 where l: "digits_loop fl (Num (of_nat (the (lx_char lx) - 0x30))) d lx = (b, d1, lx1)" by (metis prod_cases3)
    then have "lx' = lx1" using assms digit by (auto simp: number_value_def Let_def)
    with digits_loop_left [OF l] digit nextChar_less [of lx] show ?thesis by (cases "lx_char lx") (auto simp: is_digit_def)
  qed
  ultimately show "lx_left lx' \<le> lx_left lx" "is_digit (lx_char lx) \<Longrightarrow> lx_left lx' < lx_left lx" by fastforce+
qed

lemma getNumber_left:
  assumes n: "getNumber fl lx = Inr (x, lx')" and c: "lx_char lx = Some c" "0x30 \<le> c \<and> c \<le> 0x39 \<or> c = 0x2b \<or> c = 0x2d \<or> c = 0x2e"
  shows "lx_left lx' < lx_left lx"
proof -
  obtain sg lx1 where sg: "number_sign lx = (sg, lx1)" by fastforce
  have eq: "(if lx_char (skip_newlines lx1) = Some 0x2e then number_value fl sg (Num 10) (nextChar (skip_newlines lx1))
      else number_value fl sg (Num 0) (skip_newlines lx1)) = Inr (x, lx')"
    using n sg by (simp add: getNumber_def Let_def)
  then have le: "lx_left lx' \<le> lx_left lx1"
    using number_value_left(1) nextChar_left [of "skip_newlines lx1"] skip_newlines_left [of lx1]
    by (auto split: if_splits dest!: number_value_left(1))
  show ?thesis
  proof (cases "c = 0x2b \<or> c = 0x2d")
    case True
    then have "lx_left lx1 < lx_left lx"
      using sg c nextChar_left [of "nextChar lx"] nextChar_less_Some(1) [OF c(1)]
      by (auto simp: number_sign_def Let_def split: if_splits)
    with le show ?thesis by simp
  next
    case False
    then have "lx1 = lx" using sg c by (auto simp: number_sign_def)
    moreover from this have "skip_newlines lx1 = lx" using c by (auto simp: skip_newlines.simps [of lx])
    ultimately show ?thesis
      using eq c False nextChar_less_Some(1) [OF c(1)]
      by (auto simp: is_digit_def split: if_splits dest: number_value_left)
  qed
qed

lemma token_left:
  assumes "lx_char lx = Some c"
  shows "lexer_getString lx = (s, lx') \<Longrightarrow> lx_left lx' < lx_left lx"
    and "getName lx = (s, lx') \<Longrightarrow> lx_left lx' < lx_left lx"
    and "getHexString (nextChar lx) = (s, lx') \<Longrightarrow> lx_left lx' < lx_left lx"
    and "getCommand ch lx = Inr (t, lx') \<Longrightarrow> lx_left lx' < lx_left lx"
    and "lx_left (nextChar (nextChar lx)) < lx_left lx"
proof -
  have n: "lx_left (nextChar lx) < lx_left lx" using nextChar_less_Some(1) [OF assms] .
  show "lexer_getString lx = (s, lx') \<Longrightarrow> lx_left lx' < lx_left lx"
    using n string_loop_left by (fastforce simp: lexer_getString_def)
  show "getName lx = (s, lx') \<Longrightarrow> lx_left lx' < lx_left lx"
    using n name_loop_left by (fastforce simp: getName_def)
  show "getHexString (nextChar lx) = (s, lx') \<Longrightarrow> lx_left lx' < lx_left lx"
    using n by (auto simp: getHexString_def split: prod.splits dest!: hex_string_loop_left)
  have w: "lx_left lx2 = lx_left lx1" if "word_object str lx1 = (t, lx2)" for str lx1 lx2
    using that by (auto simp: word_object_def lx_left_def split: if_splits)
  show "getCommand ch lx = Inr (t, lx') \<Longrightarrow> lx_left lx' < lx_left lx"
    using n by (auto simp: getCommand_def rbind_eq_Inr split: if_splits prod.splits dest!: w command_loop_left)
  show "lx_left (nextChar (nextChar lx)) < lx_left lx" using n nextChar_left [of "nextChar lx"] by simp
qed

lemma lexer_getObj_left:
  assumes "lexer_getObj fl lx = Inr (t, lx')"
  shows "lx_left lx' \<le> lx_left lx" and "t \<noteq> PEOF \<Longrightarrow> lx_left lx' < lx_left lx"
proof -
  let ?lx = "skip_space False lx"
  have "lx_left lx' \<le> lx_left ?lx \<and> (t \<noteq> PEOF \<longrightarrow> lx_left lx' < lx_left ?lx)"
  proof (cases "lx_char ?lx")
    case None
    then show ?thesis using assms by (auto simp: lexer_getObj_def)
  next
    case (Some ch)
    have "lx_left lx' < lx_left ?lx"
    proof (cases "0x30 \<le> ch \<and> ch \<le> 0x39 \<or> ch = 0x2b \<or> ch = 0x2d \<or> ch = 0x2e")
      case True
      then show ?thesis using assms Some getNumber_left [OF _ Some True] by (auto simp: lexer_getObj_def Let_def rbind_eq_Inr)
    next
      case False
      note tok = nextChar_less_Some(1) [OF Some] token_left [OF Some]
      from assms False Some show ?thesis
        by (simp add: lexer_getObj_def Let_def split: if_splits prod.splits) (auto simp: tok)
    qed
    then show ?thesis by simp
  qed
  then show "lx_left lx' \<le> lx_left lx" "t \<noteq> PEOF \<Longrightarrow> lx_left lx' < lx_left lx"
    using skip_space_left [of False lx] by auto
qed

end
