(* ===== verification/Writer.thy ===== *)
theory Writer
  imports Lexer Security_Handler
begin

text \<open>
  Writing objects (\<open>core/writer.js\<close>, with the escapes of \<open>core_utils.js\<close>): the text that an
  object becomes in an updated document, strings and streams encrypted if the document is.
\<close>

section \<open>Escapes\<close>

fun nat_hex :: "nat \<Rightarrow> jsstr" where
  "nat_hex n = (let d = n mod 16; c = (if d < 10 then 48 + d else 87 + d)
     in if n < 16 then [c] else nat_hex (n div 16) @ [c])"

declare nat_hex.simps [simp del]

definition padStart :: "nat \<Rightarrow> nat \<Rightarrow> jsstr \<Rightarrow> jsstr" where
  "padStart n c s = replicate (n - length s) c @ s"

definition name_char_escaped :: "nat \<Rightarrow> bool" where
  "name_char_escaped c \<longleftrightarrow> c < 0x21 \<or> 0x7e < c \<or> c \<in> {0x23, 0x28, 0x29, 0x3c, 0x3e, 0x5b, 0x5d, 0x7b, 0x7d, 0x2f, 0x25}"

text \<open>One turn of the loop: the pieces collected so far and the start of the piece that is open.\<close>

definition escape_step :: "jsstr \<Rightarrow> jsstr list \<times> nat \<Rightarrow> nat \<Rightarrow> jsstr list \<times> nat" where
  "escape_step str bs i =
     (let (buf, start) = bs; c = str ! i
      in if name_char_escaped c then
           ((if start < i then buf @ [take (i - start) (drop start str)] else buf) @ [0x23 # padStart 2 48 (nat_hex c)], i + 1)
         else bs)"

definition escapePDFName :: "jsstr \<Rightarrow> jsstr" where
  "escapePDFName str =
     (let (buf, start) = foldl (escape_step str) ([], 0) [0..<length str]
      in if buf = [] then str
         else concat (if start < length str then buf @ [drop start str] else buf))"

definition escapeString :: "jsstr \<Rightarrow> jsstr" where
  "escapeString str =
     concat (map (\<lambda>c. if c = 0x0a then [0x5c, 0x6e] else if c = 0x0d then [0x5c, 0x72]
       else if c = 0x28 \<or> c = 0x29 \<or> c = 0x5c then [0x5c, c] else [c]) str)"

section \<open>Numbers\<close>

text \<open>\<open>value.toFixed(10)\<close>, for numbers below \<open>10 ^ 21\<close>.\<close>

definition toFixed10 :: "js_num \<Rightarrow> jsstr" where
  "toFixed10 v =
     (case v of
        Num x \<Rightarrow>
          let n = nat \<lfloor>\<bar>x\<bar> * 10 ^ 10 + 1 / 2\<rfloor>
          in (if x < 0 then [45] else []) @ nat_dec (n div 10 ^ 10) @ 46 # padStart 10 48 (nat_dec (n mod 10 ^ 10))
      | NaN \<Rightarrow> js ''NaN''
      | PInf \<Rightarrow> js ''Infinity''
      | NInf \<Rightarrow> js ''-Infinity'')"

definition strip_zeros :: "jsstr \<Rightarrow> jsstr" where
  "strip_zeros str =
     (let t = rev (dropWhile (\<lambda>c. c = 48) (rev str))
      in if t \<noteq> [] \<and> last t = 46 then butlast t else t)"

definition num_isInteger :: "js_num \<Rightarrow> bool" where
  "num_isInteger v = (case v of Num x \<Rightarrow> of_int \<lfloor>x\<rfloor> = x | _ \<Rightarrow> False)"

definition numberToPDFString :: "js_num \<Rightarrow> jsstr" where
  "numberToPDFString v =
     (case v of
        Num x \<Rightarrow> if num_isInteger v \<and> 10 ^ 21 \<le> \<bar>x\<bar> then int_dec \<lfloor>x\<rfloor> else strip_zeros (toFixed10 v)
      | _ \<Rightarrow> strip_zeros (toFixed10 v))"

section \<open>Objects\<close>

text \<open>
  The buffer of strings, the cipher transform if there is one, and the number of random
  initialisation vectors that have been drawn: \<open>ivs\<close> is the random source, of which the
  \<open>k\<close>-th call of \<open>encryptString\<close> takes the \<open>k\<close>-th vector.
\<close>

record writer =
  wr_buffer :: "jsstr list"
  wr_cipher :: "transform option"
  wr_drawn :: nat

definition push_text :: "jsstr \<Rightarrow> writer \<Rightarrow> writer" where
  "push_text s w = w\<lparr>wr_buffer := wr_buffer w @ [s]\<rparr>"

definition encrypt_text :: "(nat \<Rightarrow> bytes) \<Rightarrow> jsstr \<Rightarrow> writer \<Rightarrow> (jsstr \<times> writer) res" where
  "encrypt_text ivs s w =
     (case wr_cipher w of
        None \<Rightarrow> Inr (s, w)
      | Some t \<Rightarrow> rbind (encryptString (ivs (wr_drawn w)) s t) (\<lambda>(e, t').
          Inr (e, w\<lparr>wr_cipher := Some t', wr_drawn := wr_drawn w + 1\<rparr>)))"

text \<open>
  The dictionary of a stream and its bytes after \<open>writeStream\<close> has compressed what is worth
  it.  \<open>deflate\<close> is the compression stream of the platform, \<open>None\<close> where it fails.
\<close>

definition stream_compressed :: "(bytes \<Rightarrow> bytes option) \<Rightarrow> fetch \<Rightarrow> entries \<Rightarrow> bytes \<Rightarrow> entries \<times> bytes" where
  "stream_compressed deflate fetch m bs =
     (let filt = dict_get fetch False m (js ''Filter'');
          params = dict_get fetch False m (js ''DecodeParms'');
          filterZero = (case filt of PArr (f # _) \<Rightarrow> resolve fetch False f | PArr [] \<Rightarrow> PUndef | _ \<Rightarrow> filt);
          isZero = (\<lambda>n. isName filterZero (Some (js n)));
          isCompressed = isZero ''FlateDecode'' \<or> isZero ''DCTDecode'' \<or> isZero ''JPXDecode'' \<or> isZero ''JBIG2Decode'' \<or>
            isZero ''CCITTFaxDecode'' \<or> isZero ''LZWDecode'' \<or> isZero ''BrotliDecode''
      in if \<not> isCompressed \<and> 256 \<le> length bs then
           (case deflate bs of
              None \<Rightarrow> (m, bs)
            | Some bs' \<Rightarrow>
                if \<not> obj_truthy filt then (dict_set (js ''Filter'') (PName (js ''FlateDecode'')) m, bs')
                else
                  let newFilter = PArr (PName (js ''FlateDecode'') # (case filt of PArr fs \<Rightarrow> fs | f \<Rightarrow> [f]));
                      m1 = dict_set (js ''Filter'') newFilter m
                  in if obj_truthy params
                     then (dict_set (js ''DecodeParms'') (PArr (PNull # (case params of PArr ps \<Rightarrow> ps | p \<Rightarrow> [p]))) m1, bs')
                     else (m1, bs'))
         else (m, bs))"

text \<open>
  \<open>writeValue\<close> with \<open>writeArray\<close>, \<open>writeDict\<close> and \<open>writeStream\<close>; the fuel bounds the depth to
  which values are nested.  A value of another kind, a command or \<open>undefined\<close>, is reported
  and not written.
\<close>

fun writeValue :: "(bytes \<Rightarrow> bytes option) \<Rightarrow> fetch \<Rightarrow> (nat \<Rightarrow> bytes) \<Rightarrow> nat \<Rightarrow> pobj \<Rightarrow> writer \<Rightarrow> writer res option"
  and write_elements :: "(bytes \<Rightarrow> bytes option) \<Rightarrow> fetch \<Rightarrow> (nat \<Rightarrow> bytes) \<Rightarrow> nat \<Rightarrow> pobj list \<Rightarrow> writer \<Rightarrow> writer res option"
  and write_entries :: "(bytes \<Rightarrow> bytes option) \<Rightarrow> fetch \<Rightarrow> (nat \<Rightarrow> bytes) \<Rightarrow> nat \<Rightarrow> entries \<Rightarrow> writer \<Rightarrow> writer res option" where
  "writeValue deflate fetch ivs 0 v w = None"
| "writeValue deflate fetch ivs (Suc n) v w =
     (case v of
        PName name \<Rightarrow> Some (Inr (push_text (0x2f # escapePDFName name) w))
      | PRef r \<Rightarrow> Some (Inr (push_text (int_dec (r_num r) @ 32 # int_dec (r_gen r) @ js '' R'') w))
      | PArr vs \<Rightarrow>
          fbind (write_elements deflate fetch ivs n vs (push_text (js ''['') w)) (\<lambda>w. Some (Inr (push_text (js '']'') w)))
      | PStr s \<Rightarrow>
          fbind (Some (encrypt_text ivs s w)) (\<lambda>(e, w). Some (Inr (push_text (0x28 # escapeString e @ [0x29]) w)))
      | PNum x \<Rightarrow> Some (Inr (push_text (numberToPDFString x) w))
      | PBool b \<Rightarrow> Some (Inr (push_text (if b then js ''true'' else js ''false'') w))
      | PDict m _ \<Rightarrow>
          fbind (write_entries deflate fetch ivs n m (push_text (js ''<<'') w)) (\<lambda>w. Some (Inr (push_text (js ''>>'') w)))
      | PStream m bs \<Rightarrow>
          let (m, bs) = stream_compressed deflate fetch m bs
          in fbind (Some (encrypt_text ivs (bytesToString bs) w)) (\<lambda>(str, w).
             fbind (write_entries deflate fetch ivs n (dict_set (js ''Length'') (PNum (Num (of_nat (length str)))) m)
                 (push_text (js ''<<'') w)) (\<lambda>w.
               Some (Inr (push_text (0x0a # js ''endstream'') (push_text str (push_text (js '' stream'' @ [0x0a]) (push_text (js ''>>'') w)))))))
      | PNull \<Rightarrow> Some (Inr (push_text (js ''null'') w))
      | _ \<Rightarrow> Some (Inr w))"
| "write_elements deflate fetch ivs n [] w = Some (Inr w)"
| "write_elements deflate fetch ivs n (v # vs) w =
     fbind (writeValue deflate fetch ivs n v w) (\<lambda>w.
       write_elements deflate fetch ivs n vs (if vs = [] then w else push_text (js '' '') w))"
| "write_entries deflate fetch ivs n [] w = Some (Inr w)"
| "write_entries deflate fetch ivs n ((key, v) # m) w =
     fbind (writeValue deflate fetch ivs n v (push_text (js '' /'' @ escapePDFName key @ js '' '') w)) (\<lambda>w.
       write_entries deflate fetch ivs n m w)"

text \<open>\<open>writeObject\<close>; the transform is the one of the object, or none for the encryption dictionary itself.\<close>

definition writeObject :: "(bytes \<Rightarrow> bytes option) \<Rightarrow> fetch \<Rightarrow> (nat \<Rightarrow> bytes) \<Rightarrow> nat \<Rightarrow> ref \<Rightarrow> pobj \<Rightarrow> writer \<Rightarrow> writer res option" where
  "writeObject deflate fetch ivs n r v w =
     fbind (writeValue deflate fetch ivs n v (push_text (int_dec (r_num r) @ 32 # int_dec (r_gen r) @ js '' obj'' @ [0x0a]) w)) (\<lambda>w.
       Some (Inr (push_text (0x0a # js ''endobj'' @ [0x0a]) w)))"

end
