(* ===== verification/Incremental_Update.thy ===== *)
theory Incremental_Update
  imports Writer Digests
begin

text \<open>
  Saving a document (\<open>incrementalUpdate\<close> of \<open>core/writer.js\<close>): the changed objects, a
  cross-reference table or stream for them and a trailer, appended to the bytes of the
  original document.

  The time of day is a parameter of the document id, and the text that the XML parser of the
  form data gives is an argument (\<open>xfaData\<close>).
\<close>

section \<open>Changes\<close>

text \<open>
  The values that callers put into \<open>changes\<close>: no data (a deleted object), text that is
  already written, an object to write, or a place in an object stream.
\<close>

datatype change = Deleted | Text jsstr | Object pobj | InObjStm ref int

type_synonym changes = "(ref \<times> change) list"

record new_ref =
  nr_ref :: ref
  nr_data :: "jsstr option"
  nr_objStream :: "(ref \<times> int) option"

record xref_info =
  xi_startXRef :: pobj
  xi_newRef :: ref
  xi_rootRef :: pobj
  xi_infoRef :: pobj
  xi_encryptRef :: pobj
  xi_fileIds :: "jsstr option list option"
  xi_filename :: jsstr
  xi_infoValues :: "jsstr list"

record crypt_info =
  ci_encrypt :: "(int \<Rightarrow> int \<Rightarrow> transform) option"
  ci_encryptRef :: "ref option"

definition object_transform :: "crypt_info \<Rightarrow> ref \<Rightarrow> transform option" where
  "object_transform ci r =
     (if ci_encryptRef ci \<noteq> Some r then map_option (\<lambda>t. t (r_num r) (r_gen r)) (ci_encrypt ci) else None)"

section \<open>Bytes\<close>

text \<open>\<open>writeInt\<close>: the bytes of a 32-bit integer from the last to the first; the new offset.\<close>

fun write_int_loop :: "nat \<Rightarrow> nat \<Rightarrow> u32 \<Rightarrow> bytes \<Rightarrow> bytes" where
  "write_int_loop 0 offset number buf = buf"
| "write_int_loop (Suc i) offset number buf =
     write_int_loop i offset (signed_drop_bit 8 number) (buf[i + offset := ucast number])"

definition writeInt :: "int \<Rightarrow> nat \<Rightarrow> nat \<Rightarrow> bytes \<Rightarrow> nat \<times> bytes" where
  "writeInt number sz offset buf = (offset + sz, write_int_loop sz offset (of_int number) buf)"

fun write_string_loop :: "jsstr \<Rightarrow> nat \<Rightarrow> bytes \<Rightarrow> bytes" where
  "write_string_loop [] offset buf = buf"
| "write_string_loop (c # s) offset buf = write_string_loop s (offset + 1) (buf[offset := of_nat c])"

definition writeString :: "jsstr \<Rightarrow> nat \<Rightarrow> bytes \<Rightarrow> nat \<times> bytes" where
  "writeString s offset buf = (offset + length s, write_string_loop s offset buf)"

definition write_strings :: "jsstr list \<Rightarrow> nat \<times> bytes \<Rightarrow> nat \<times> bytes" where
  "write_strings ss st = foldl (\<lambda>(offset, buf) s. writeString s offset buf) st ss"

text \<open>
  \<open>getSizeInBytes\<close>; \<open>Math.ceil(Math.log2(1 + x))\<close> is the number of bits of \<open>x\<close>, where the
  logarithm of the successor of a power of two does not round down to that power: for \<open>x\<close> below
  \<open>2^47\<close>, far above the length of an array of bytes.
\<close>

fun bit_count :: "nat \<Rightarrow> nat" where
  "bit_count x = (if x = 0 then 0 else Suc (bit_count (x div 2)))"

declare bit_count.simps [simp del]

definition getSizeInBytes :: "nat \<Rightarrow> nat" where
  "getSizeInBytes x = (bit_count x + 7) div 8"

section \<open>The document id\<close>

definition computeMD5 :: "nat \<Rightarrow> nat \<Rightarrow> xref_info \<Rightarrow> jsstr" where
  "computeMD5 time filesize xi =
     (let md5Buffer = [nat_dec time, xi_filename xi, nat_dec filesize] @ xi_infoValues xi;
          arr = snd (write_strings md5Buffer (0, zeros (sum_list (map length md5Buffer))))
      in map unat (calculateMD5 arr 0 (length arr)))"

definition computeIDs :: "nat \<Rightarrow> nat \<Rightarrow> xref_info \<Rightarrow> entries \<Rightarrow> entries" where
  "computeIDs time baseOffset xi newXref =
     (case xi_fileIds xi of
        Some (fid # _) \<Rightarrow>
          let md5 = computeMD5 time baseOffset xi
          in dict_set (js ''ID'') (PArr [PStr (case fid of Some s \<Rightarrow> if s = [] then md5 else s | None \<Rightarrow> md5), PStr md5]) newXref
      | _ \<Rightarrow> newXref)"

section \<open>Sections\<close>

definition index_step :: "int list \<Rightarrow> int \<Rightarrow> int list" where
  "index_step ix num =
     (if 2 \<le> length ix \<and> num = ix ! (length ix - 2) + ix ! (length ix - 1)
      then ix[length ix - 1 := ix ! (length ix - 1) + 1] else ix @ [num, 1])"

definition getIndexes :: "new_ref list \<Rightarrow> int list" where
  "getIndexes newRefs = foldl index_step [] (map (r_num \<circ> nr_ref) newRefs)"

definition table_line :: "nat \<Rightarrow> new_ref \<Rightarrow> jsstr" where
  "table_line baseOffset x =
     (case nr_data x of
        Some _ \<Rightarrow> padStart 10 48 (nat_dec baseOffset) @ 32 # padStart 5 48 (int_dec (min (r_gen (nr_ref x)) 0xffff)) @ js '' n'' @ [13, 10]
      | None \<Rightarrow> js ''0000000000 '' @ padStart 5 48 (int_dec (min (r_gen (nr_ref x) + 1) 0xffff)) @ js '' f'' @ [13, 10])"

definition data_length :: "new_ref \<Rightarrow> nat" where
  "data_length x = (case nr_data x of Some s \<Rightarrow> length s | None \<Rightarrow> 0)"

fun table_lines :: "int list \<Rightarrow> nat \<Rightarrow> nat \<Rightarrow> new_ref list \<Rightarrow> jsstr list \<times> nat" where
  "table_lines indexes ip baseOffset [] = ([], baseOffset)"
| "table_lines indexes ip baseOffset (x # xs) =
     (let header = ip < length indexes \<and> r_num (nr_ref x) = indexes ! ip;
          (ls, fin) = table_lines indexes (if header then ip + 2 else ip) (baseOffset + data_length x) xs
      in ((if header then [int_dec (indexes ! ip) @ 32 # int_dec (indexes ! (ip + 1)) @ [10]] else []) @ table_line baseOffset x # ls, fin))"

text \<open>\<open>getXRefTable\<close>; \<open>writeDict\<close> without a transform is \<open>writeValue\<close> of the dictionary.\<close>

definition getXRefTable ::
    "(bytes \<Rightarrow> bytes option) \<Rightarrow> fetch \<Rightarrow> (nat \<Rightarrow> bytes) \<Rightarrow> nat \<Rightarrow> nat \<Rightarrow> xref_info \<Rightarrow> nat \<Rightarrow> new_ref list \<Rightarrow> entries \<Rightarrow> jsstr list \<Rightarrow> (jsstr list) res option" where
  "getXRefTable deflate fetch ivs n time xi baseOffset newRefs newXref buf =
     (let (ls, fin) = table_lines (getIndexes newRefs) 0 baseOffset newRefs;
          trailer = computeIDs time fin xi newXref
      in fbind (writeValue deflate fetch ivs n (PDict trailer False)
             \<lparr>wr_buffer = buf @ [js ''xref'' @ [10]] @ ls @ [js ''trailer'' @ [10]], wr_cipher = None, wr_drawn = 0\<rparr>) (\<lambda>w.
           Some (Inr (wr_buffer w @ [10 # js ''startxref'' @ [10], nat_dec fin, 10 # js ''%%EOF'' @ [10]]))))"

fun stream_rows :: "nat \<Rightarrow> new_ref list \<Rightarrow> (int \<times> int \<times> int) list \<times> nat \<times> nat" where
  "stream_rows baseOffset [] = ([], baseOffset, 0)"
| "stream_rows baseOffset (x # xs) =
     (let row = (case nr_objStream x of
                   Some (r, index) \<Rightarrow> (2, r_num r, index)
                 | None \<Rightarrow> if nr_data x \<noteq> None then (1, int baseOffset, min (r_gen (nr_ref x)) 0xffff)
                           else (0, 0, min (r_gen (nr_ref x) + 1) 0xffff));
          (rows, fin, maxOffset) = stream_rows (if nr_objStream x = None then baseOffset + data_length x else baseOffset) xs
      in (row # rows, fin, max baseOffset maxOffset))"

definition write_row :: "nat \<times> nat \<Rightarrow> nat \<times> bytes \<Rightarrow> int \<times> int \<times> int \<Rightarrow> nat \<times> bytes" where
  "write_row sizes st row =
     (let (offsetSize, genSize) = sizes; (type, objOffset, gen) = row; (offset, data) = st;
          (offset, data) = writeInt type 1 offset data;
          (offset, data) = writeInt objOffset offsetSize offset data
      in writeInt gen genSize offset data)"

definition getXRefStreamTable ::
    "(bytes \<Rightarrow> bytes option) \<Rightarrow> fetch \<Rightarrow> (nat \<Rightarrow> bytes) \<Rightarrow> nat \<Rightarrow> nat \<Rightarrow> xref_info \<Rightarrow> nat \<Rightarrow> new_ref list \<Rightarrow> entries \<Rightarrow> jsstr list \<Rightarrow> (jsstr list) res option" where
  "getXRefStreamTable deflate fetch ivs n time xi baseOffset newRefs newXref buf =
     (let (rows, fin, maxOffset) = stream_rows baseOffset newRefs;
          maxGen = foldl max 0 (map (\<lambda>(_, _, gen). gen) rows);
          m1 = dict_set (js ''Index'') (PArr (map (\<lambda>i. PNum (Num (of_int i))) (getIndexes newRefs))) newXref;
          offsetSize = getSizeInBytes maxOffset;
          genSize = getSizeInBytes (nat maxGen);
          m2 = dict_set (js ''W'') (PArr (map (\<lambda>k. PNum (Num (of_nat k))) [1, offsetSize, genSize])) m1;
          m3 = computeIDs time fin xi m2;
          data = snd (foldl (write_row (offsetSize, genSize)) (0, zeros ((1 + offsetSize + genSize) * length rows)) rows)
      in fbind (writeObject deflate fetch ivs n (xi_newRef xi) (PStream m3 data) \<lparr>wr_buffer = buf, wr_cipher = None, wr_drawn = 0\<rparr>) (\<lambda>w.
           Some (Inr (wr_buffer w @ [js ''startxref'' @ [10], nat_dec fin, 10 # js ''%%EOF'' @ [10]]))))"

definition getTrailerDict :: "xref_info \<Rightarrow> changes \<Rightarrow> bool \<Rightarrow> entries \<times> changes" where
  "getTrailerDict xi changes useXrefStream =
     (let m1 = setIfDefined (js ''Prev'') (xi_startXRef xi) [];
          m2 = (if useXrefStream
                then setIfName (js ''Type'') (PStr (js ''XRef'')) (dict_set (js ''Size'') (PNum (Num (of_int (r_num (xi_newRef xi) + 1)))) m1)
                else dict_set (js ''Size'') (PNum (Num (of_int (r_num (xi_newRef xi))))) m1);
          m3 = setIfDefined (js ''Root'') (xi_rootRef xi) m2;
          m4 = setIfDefined (js ''Info'') (xi_infoRef xi) m3;
          m5 = setIfDefined (js ''Encrypt'') (xi_encryptRef xi) m4
      in (m5, if useXrefStream then AList.update (xi_newRef xi) (Text []) changes else changes))"

section \<open>The update\<close>

text \<open>\<open>writeChanges\<close> before the sorting; the number of initialisation vectors drawn is passed on.\<close>

fun write_changes_loop ::
    "(bytes \<Rightarrow> bytes option) \<Rightarrow> fetch \<Rightarrow> (nat \<Rightarrow> bytes) \<Rightarrow> nat \<Rightarrow> crypt_info \<Rightarrow> nat \<Rightarrow> changes \<Rightarrow> (new_ref list) res option" where
  "write_changes_loop deflate fetch ivs n ci drawn [] = Some (Inr [])"
| "write_changes_loop deflate fetch ivs n ci drawn ((r, c) # cs) =
     (case c of
        Object v \<Rightarrow>
          fbind (writeObject deflate fetch ivs n r v \<lparr>wr_buffer = [], wr_cipher = object_transform ci r, wr_drawn = drawn\<rparr>) (\<lambda>w.
          fbind (write_changes_loop deflate fetch ivs n ci (wr_drawn w) cs) (\<lambda>xs.
            Some (Inr (\<lparr>nr_ref = r, nr_data = Some (concat (wr_buffer w)), nr_objStream = None\<rparr> # xs))))
      | InObjStm sr index \<Rightarrow>
          fbind (write_changes_loop deflate fetch ivs n ci drawn cs) (\<lambda>xs.
            Some (Inr (\<lparr>nr_ref = r, nr_data = None, nr_objStream = Some (sr, index)\<rparr> # xs)))
      | Deleted \<Rightarrow>
          fbind (write_changes_loop deflate fetch ivs n ci drawn cs) (\<lambda>xs.
            Some (Inr (\<lparr>nr_ref = r, nr_data = None, nr_objStream = None\<rparr> # xs)))
      | Text s \<Rightarrow>
          fbind (write_changes_loop deflate fetch ivs n ci drawn cs) (\<lambda>xs.
            Some (Inr (\<lparr>nr_ref = r, nr_data = Some s, nr_objStream = None\<rparr> # xs))))"

definition writeChanges ::
    "(bytes \<Rightarrow> bytes option) \<Rightarrow> fetch \<Rightarrow> (nat \<Rightarrow> bytes) \<Rightarrow> nat \<Rightarrow> crypt_info \<Rightarrow> changes \<Rightarrow> (new_ref list) res option" where
  "writeChanges deflate fetch ivs n ci changes =
     fbind (write_changes_loop deflate fetch ivs n ci 0 changes) (\<lambda>xs. Some (Inr (sort_key (r_num \<circ> nr_ref) xs)))"

text \<open>The bytes of the update behind the bytes of the original document.\<close>

definition append_update ::
    "(bytes \<Rightarrow> bytes option) \<Rightarrow> fetch \<Rightarrow> (nat \<Rightarrow> bytes) \<Rightarrow> nat \<Rightarrow> nat \<Rightarrow> bytes \<Rightarrow> xref_info \<Rightarrow> crypt_info \<Rightarrow> changes \<Rightarrow> bool \<Rightarrow> bytes res option" where
  "append_update deflate fetch ivs n time originalData xi ci changes useXrefStream =
     (let (newXref, changes) = getTrailerDict xi changes useXrefStream
      in fbind (writeChanges deflate fetch ivs n ci changes) (\<lambda>newRefs.
           let newline = originalData = [] \<or> last originalData \<noteq> 0x0a \<and> last originalData \<noteq> 0x0d;
               baseOffset = length originalData + (if newline then 1 else 0);
               buf = (if newline then [[10]] else []) @ concat (map (\<lambda>x. case nr_data x of Some s \<Rightarrow> [s] | None \<Rightarrow> []) newRefs)
           in fbind ((if useXrefStream then getXRefStreamTable else getXRefTable) deflate fetch ivs n time xi baseOffset newRefs newXref buf) (\<lambda>buf.
                let totalLength = length originalData + sum_list (map length buf)
                in Some (Inr (snd (write_strings buf (length originalData, blit (zeros totalLength) originalData 0)))))))"

subsection \<open>Forms\<close>

record form_info =
  fi_acroForm :: entries
  fi_acroFormRef :: "ref option"
  fi_hasXfa :: bool
  fi_hasXfaDatasetsEntry :: bool
  fi_xfaDatasetsRef :: "ref option"
  fi_needAppearances :: bool
  fi_xfaData :: jsstr

definition ref_obj :: "ref option \<Rightarrow> pobj" where
  "ref_obj r = (case r of Some r \<Rightarrow> PRef r | None \<Rightarrow> PNull)"

definition splice_in :: "nat \<Rightarrow> 'a \<Rightarrow> 'a list \<Rightarrow> 'a list" where
  "splice_in i x xs = take i xs @ x # drop i xs"

definition put_change :: "ref option \<Rightarrow> change \<Rightarrow> changes \<Rightarrow> changes res" where
  "put_change r c changes = (case r of None \<Rightarrow> Inl TypeError | Some r \<Rightarrow> Inr (AList.update r c changes))"

definition updateAcroform :: "fetch \<Rightarrow> form_info \<Rightarrow> changes \<Rightarrow> changes res" where
  "updateAcroform fetch fi changes =
     (if \<not> fi_needAppearances fi \<and> (\<not> fi_hasXfa fi \<or> fi_xfaDatasetsRef fi = None \<or> fi_hasXfaDatasetsEntry fi) then Inr changes
      else
        rbind (if fi_hasXfa fi \<and> \<not> fi_hasXfaDatasetsEntry fi then
                 (case dict_get fetch False (fi_acroForm fi) (js ''XFA'') of
                    PArr vs \<Rightarrow> Inr (dict_set (js ''XFA'')
                      (PArr (splice_in 3 (ref_obj (fi_xfaDatasetsRef fi)) (splice_in 2 (PStr (js ''datasets'')) vs))) (fi_acroForm fi))
                  | _ \<Rightarrow> Inl TypeError)
               else Inr (fi_acroForm fi)) (\<lambda>m.
        put_change (fi_acroFormRef fi)
          (Object (PDict (if fi_needAppearances fi then dict_set (js ''NeedAppearances'') (PBool True) m else m) False)) changes))"

definition updateXFA :: "form_info \<Rightarrow> changes \<Rightarrow> changes res" where
  "updateXFA fi changes =
     put_change (fi_xfaDatasetsRef fi)
       (Object (PStream (setIfName (js ''Type'') (PStr (js ''EmbeddedFile'')) []) (stringToBytes (fi_xfaData fi)))) changes"

definition incrementalUpdate ::
    "(bytes \<Rightarrow> bytes option) \<Rightarrow> fetch \<Rightarrow> (nat \<Rightarrow> bytes) \<Rightarrow> nat \<Rightarrow> nat \<Rightarrow> bytes \<Rightarrow> xref_info \<Rightarrow> crypt_info \<Rightarrow> form_info \<Rightarrow> changes \<Rightarrow> bool \<Rightarrow> bytes res option" where
  "incrementalUpdate deflate fetch ivs n time originalData xi ci fi changes useXrefStream =
     fbind (Some (updateAcroform fetch fi changes)) (\<lambda>changes.
     fbind (Some (if fi_hasXfa fi then updateXFA fi changes else Inr changes)) (\<lambda>changes.
     append_update deflate fetch ivs n time originalData xi ci changes useXrefStream))"

end
