(* ===== verification/Inline_Images.thy ===== *)
theory Inline_Images
  imports Lexer
begin

text \<open>
  Where the data of an inline image ends: the scans of the parser for the filters that mark
  their end (\<open>findDCTDecodeInlineStreamEnd\<close>, \<open>findASCII85DecodeInlineStreamEnd\<close>,
  \<open>findASCIIHexDecodeInlineStreamEnd\<close>) and for the operator \<open>EI\<close>
  (\<open>findDefaultInlineStreamEnd\<close>).  Lengths are integers, as they may come out negative; the
  positions stay natural numbers, since the text of the operator \<open>BI\<close> precedes them.
\<close>

section \<open>Scanning for EI\<close>

definition stream_skip :: "int \<Rightarrow> stream \<Rightarrow> stream" where
  "stream_skip n s = s\<lparr>s_pos := nat (int (s_pos s) + (if n = 0 then 1 else n))\<rparr>"

abbreviation stream_left :: "stream \<Rightarrow> nat" where
  "stream_left s \<equiv> s_end s - s_pos s"

lemma getByte_left [termination_simp]: "(Some b, s') = getByte s \<Longrightarrow> stream_left s' < stream_left s"
  by (auto simp: getByte_def split: if_splits)

lemma getByte_left' [termination_simp]: "getByte s = (Some b, s') \<Longrightarrow> stream_left s' < stream_left s"
  by (auto simp: getByte_def split: if_splits)

function inlineStreamSkipEI :: "nat \<Rightarrow> stream \<Rightarrow> stream" where
  "inlineStreamSkipEI state s =
     (case getByte s of
        (None, s') \<Rightarrow> s'
      | (Some ch, s') \<Rightarrow>
          if state = 0 then inlineStreamSkipEI (if ch = 0x45 then 1 else 0) s'
          else if state = 1 then inlineStreamSkipEI (if ch = 0x49 then 2 else 0) s'
          else s')"
  by pat_completeness auto
termination by (relation "measure (\<lambda>(st, s). stream_left s)") (auto simp: getByte_left)

declare inlineStreamSkipEI.simps [simp del]

text \<open>The bytes that may follow the operator: text, line ends, single zero bytes.\<close>

fun following_ok :: "bytes \<Rightarrow> bool" where
  "following_ok [] = True"
| "following_ok (c # cs) =
     (if c = 0 \<and> (cs = [] \<or> hd cs \<noteq> 0) then following_ok cs
      else if c \<noteq> 0x0a \<and> c \<noteq> 0x0d \<and> (c < 0x20 \<or> 0x7f < c) then False
      else following_ok cs)"

text \<open>Whether a known command with a fitting number of arguments follows.\<close>

function command_follows :: "rounding \<Rightarrow> known_commands \<Rightarrow> nat \<Rightarrow> lexer \<Rightarrow> bool res" where
  "command_follows fl known numArgs lx =
     (case lexer_getObj fl lx of
        Inl e \<Rightarrow> Inl e
      | Inr (obj, lx') \<Rightarrow>
          if obj = PEOF then Inr False
          else case obj of
            PCmd c \<Rightarrow>
              (case known c of
                 None \<Rightarrow> Inr False
               | Some (n, variableArgs) \<Rightarrow>
                   if (if variableArgs then numArgs \<le> n else numArgs = n) then Inr True
                   else command_follows fl known 0 lx')
          | _ \<Rightarrow> command_follows fl known (numArgs + 1) lx')"
  by pat_completeness auto
termination by (relation "measure (\<lambda>(fl, k, n, lx). lx_left lx)") (auto dest: lexer_getObj_left(2))

declare command_follows.simps [simp del]

text \<open>
  The main loop: whether it ended at an operator (rather than at the end of the data), the
  last position that might follow one, and the stream.
\<close>

function find_EI :: "rounding \<Rightarrow> known_commands option \<Rightarrow> nat \<Rightarrow> nat option \<Rightarrow> stream \<Rightarrow> (bool \<times> nat option \<times> stream) res" where
  "find_EI fl known state maybeEIPos s =
     (case getByte s of
        (None, s') \<Rightarrow> Inr (False, maybeEIPos, s')
      | (Some ch, s') \<Rightarrow>
          if state = 0 then find_EI fl known (if ch = 0x45 then 1 else 0) maybeEIPos s'
          else if state = 1 then find_EI fl known (if ch = 0x49 then 2 else 0) maybeEIPos s'
          else if ch = 0x20 \<or> ch = 0x0a \<or> ch = 0x0d then
            let followingBytes = fst (peekBytes 15 s')
            in if followingBytes = [] then Inr (True, Some (s_pos s'), s')
               else if \<not> following_ok followingBytes then find_EI fl known 0 (Some (s_pos s')) s'
               else (case known of
                 None \<Rightarrow> find_EI fl known state (Some (s_pos s')) s'
               | Some k \<Rightarrow>
                   (case command_follows fl k 0 (mk_lexer (mk_stream (fst (peekBytes 75 s')) None None) known) of
                      Inl e \<Rightarrow> Inl e
                    | Inr True \<Rightarrow> Inr (True, Some (s_pos s'), s')
                    | Inr False \<Rightarrow> find_EI fl known 0 (Some (s_pos s')) s'))
          else find_EI fl known 0 maybeEIPos s')"
  by pat_completeness auto
termination by (relation "measure (\<lambda>(fl, k, st, m, s). stream_left s)") (auto simp: getByte_left)

declare find_EI.simps [simp del]

definition findDefaultInlineStreamEnd :: "rounding \<Rightarrow> known_commands option \<Rightarrow> stream \<Rightarrow> (int \<times> stream) res" where
  "findDefaultInlineStreamEnd fl known s =
     rbind (find_EI fl known 0 None s) (\<lambda>(found, maybeEIPos, s1).
       let s2 = (case maybeEIPos of
              Some p \<Rightarrow> if \<not> found \<and> p \<noteq> 0 then stream_skip (- (int (s_pos s1) - int p)) s1 else s1
            | None \<Rightarrow> s1);
           ch = fst (peekByte (stream_skip (- 4) s2));
           endOffset = (if (case ch of None \<Rightarrow> False | Some c \<Rightarrow> isWhiteSpace c) then 4 else 3)
       in Inr (int (s_pos s2) - endOffset - int (s_pos s), s2))"

section \<open>Filters that mark their end\<close>

definition hasLength :: "u8 \<Rightarrow> bool" where
  "hasLength m \<longleftrightarrow> 0xc0 \<le> m \<and> m \<le> 0xc7 \<or> 0xc9 \<le> m \<and> m \<le> 0xcf \<or> 0xda \<le> m \<and> m \<le> 0xef \<or> m = 0xfe"

text \<open>
  The loop over the markers of a JPEG image; \<open>None\<close> as a result means that it does not end.
  The flag tells whether the end marker was found.
\<close>

partial_function (option) find_EOI :: "stream \<Rightarrow> (bool \<times> stream) option" where
  "find_EOI s =
     (case getByte s of
        (None, s1) \<Rightarrow> Some (False, s1)
      | (Some b, s1) \<Rightarrow>
          if b \<noteq> 0xff then find_EOI s1
          else
            (case getByte s1 of
               (None, s2) \<Rightarrow> find_EOI s2
             | (Some m, s2) \<Rightarrow>
                 if m = 0xff then find_EOI (stream_skip (- 1) s2)
                 else if m = 0xd9 then Some (True, s2)
                 else if hasLength m then
                   let (markerLength, s3) = getUint16 s2
                   in if 2 < markerLength then find_EOI (stream_skip (markerLength - 2) s3)
                      else find_EOI (stream_skip (- 2) s3)
                 else find_EOI s2))"

definition findDCTDecodeInlineStreamEnd :: "rounding \<Rightarrow> known_commands option \<Rightarrow> stream \<Rightarrow> (int \<times> stream) res option" where
  "findDCTDecodeInlineStreamEnd fl known s =
     map_option (\<lambda>(foundEOI, s1).
       let len = int (s_pos s1) - int (s_pos s)
       in if \<not> foundEOI then findDefaultInlineStreamEnd fl known (stream_skip (- len) s1)
          else Inr (len, inlineStreamSkipEI 0 s1)) (find_EOI s)"

function skip_white :: "stream \<Rightarrow> u8 option \<times> stream" where
  "skip_white s =
     (case peekByte s of
        (Some ch, _) \<Rightarrow> if isWhiteSpace ch then skip_white (stream_skip 0 s) else (Some ch, s)
      | (None, _) \<Rightarrow> (None, s))"
  by pat_completeness auto
termination
  by (relation "measure stream_left") (auto simp: stream_skip_def peekByte_def getByte_def split: if_splits)

declare skip_white.simps [simp del]

lemma skip_white_left: "stream_left (snd (skip_white s)) \<le> stream_left s"
proof (induction s rule: skip_white.induct)
  case (1 s)
  then show ?case
    by (auto split: prod.splits option.splits simp: skip_white.simps [of s] stream_skip_def)
qed

text \<open>The loop of the base-85 scan: whether the end was found, and the stream.\<close>

function find_tilde :: "stream \<Rightarrow> bool \<times> stream" where
  "find_tilde s =
     (case getByte s of
        (None, s1) \<Rightarrow> (False, s1)
      | (Some ch, s1) \<Rightarrow>
          if ch = 0x7e then
            let (ch2, s2) = skip_white s1
            in if ch2 = Some 0x3e then (True, stream_skip 0 s2)
               else if s_pos s1 < s_pos s2 \<and> fst (peekBytes 2 s2) = [0x45, 0x49] then (True, s2)
               else find_tilde s2
          else find_tilde s1)"
  by pat_completeness auto
termination
proof (relation "measure stream_left", goal_cases)
  case (2 s x s1 ch y ch2 s2)
  then have "stream_left s2 \<le> stream_left s1" using skip_white_left [of s1] by (metis snd_conv)
  with 2 getByte_left [of ch s1 s] show ?case by auto
qed (auto simp: getByte_left)

declare find_tilde.simps [simp del]

definition findASCII85DecodeInlineStreamEnd :: "rounding \<Rightarrow> known_commands option \<Rightarrow> stream \<Rightarrow> (int \<times> stream) res" where
  "findASCII85DecodeInlineStreamEnd fl known s =
     (let (found, s1) = find_tilde s;
          len = int (s_pos s1) - int (s_pos s)
      in if \<not> found then findDefaultInlineStreamEnd fl known (stream_skip (- len) s1)
         else Inr (len, inlineStreamSkipEI 0 s1))"

function find_GT :: "stream \<Rightarrow> bool \<times> stream" where
  "find_GT s =
     (case getByte s of
        (None, s1) \<Rightarrow> (False, s1)
      | (Some ch, s1) \<Rightarrow> if ch = 0x3e then (True, s1) else find_GT s1)"
  by pat_completeness auto
termination by (relation "measure stream_left") (auto simp: getByte_left)

declare find_GT.simps [simp del]

definition findASCIIHexDecodeInlineStreamEnd :: "rounding \<Rightarrow> known_commands option \<Rightarrow> stream \<Rightarrow> (int \<times> stream) res" where
  "findASCIIHexDecodeInlineStreamEnd fl known s =
     (let (found, s1) = find_GT s;
          len = int (s_pos s1) - int (s_pos s)
      in if \<not> found then findDefaultInlineStreamEnd fl known (stream_skip (- len) s1)
         else Inr (len, inlineStreamSkipEI 0 s1))"

section \<open>A scan that does not end\<close>

lemma find_EOI_truncated:
  assumes "find_EOI s = Some r"
  shows "\<not> (s_bytes s = pre @ [0xff, m] \<and> s_pos s = length pre \<and> s_end s = length pre + 2 \<and> hasLength m)"
proof (rule find_EOI.raw_induct [OF _ assms, of "\<lambda>s r. \<not> (s_bytes s = pre @ [0xff, m] \<and> s_pos s = length pre \<and> s_end s = length pre + 2 \<and> hasLength m)"],
    goal_cases)
  case (1 f s r)
  show ?case
  proof
    assume s: "s_bytes s = pre @ [0xff, m] \<and> s_pos s = length pre \<and> s_end s = length pre + 2 \<and> hasLength m"
    let ?s1 = "s\<lparr>s_pos := length pre + 1\<rparr>" and ?s2 = "s\<lparr>s_pos := length pre + 2\<rparr>"
    have "getByte s = (Some 0xff, ?s1)" "getByte ?s1 = (Some m, ?s2)" "getUint16 ?s2 = (-1, ?s2)"
      using s by (simp_all add: getByte_def getUint16_def rd_def nth_append)
    moreover have "m \<noteq> 0xff" "m \<noteq> 0xd9" using s by (auto simp: hasLength_def)
    moreover have "stream_skip (- 2) ?s2 = s" using s by (simp add: stream_skip_def)
    ultimately have "f s = Some r" using 1(2) s by simp
    with 1(1) s show False by blast
  qed
qed

text \<open>
  C40: a JPEG image inside a content stream that is cut off right after a marker with a length
  is scanned forever: the missing length sends the scan back to the marker.
\<close>

theorem dct_scan_diverges:
  assumes "s_bytes s = pre @ [0xff, m]" and "s_pos s = length pre" and "s_end s = length pre + 2" and "hasLength m"
  shows "findDCTDecodeInlineStreamEnd fl known s = None"
  using find_EOI_truncated [of s _ pre m] assms by (cases "find_EOI s") (auto simp: findDCTDecodeInlineStreamEnd_def)

theorem dct_scan_diverges_witness:
  "findDCTDecodeInlineStreamEnd fl64 None (mk_stream [0xff, 0xe0] None None) = None"
  using dct_scan_diverges [of "mk_stream [0xff, 0xe0] None None" "[]" "0xe0" fl64 None]
  by (simp add: mk_stream_def hasLength_def Let_def)

end
