(* ===== verification/Parser.thy ===== *)
theory Parser
  imports Inline_Images Writer
begin

text \<open>
  The parser of the worker (\<open>class Parser\<close>): objects from tokens with two tokens of
  look-ahead, streams with and without a usable length, inline images with their cache.

  A stream object is its dictionary and its raw bytes: the streams that decrypt and decode
  these bytes when they are read (\<open>cipherTransform.createStream\<close>, \<open>makeFilter\<close>) are not part
  of the object here, but the check of the filter names, which raises an error, is.
\<close>

section \<open>The parser\<close>

record parser =
  ps_lexer :: lexer
  ps_buf1 :: pobj
  ps_buf2 :: pobj
  ps_fetch :: fetch
  ps_allowStreams :: bool
  ps_recoveryMode :: bool
  ps_cipher :: "transform option"
  ps_imageCache :: "(jsstr \<times> pobj) list"
  ps_imageId :: nat

definition parser_refill :: "rounding \<Rightarrow> parser \<Rightarrow> parser res" where
  "parser_refill fl ps =
     rbind (lexer_getObj fl (ps_lexer ps)) (\<lambda>(b1, lx).
     rbind (lexer_getObj fl lx) (\<lambda>(b2, lx).
     Inr (ps\<lparr>ps_buf1 := b1, ps_buf2 := b2, ps_lexer := lx\<rparr>)))"

definition mk_parser :: "rounding \<Rightarrow> lexer \<Rightarrow> fetch \<Rightarrow> bool \<Rightarrow> bool \<Rightarrow> transform option \<Rightarrow> parser res" where
  "mk_parser fl lx fetch allowStreams recoveryMode cipher =
     parser_refill fl \<lparr>ps_lexer = lx, ps_buf1 = PUndef, ps_buf2 = PUndef, ps_fetch = fetch, ps_allowStreams = allowStreams,
       ps_recoveryMode = recoveryMode, ps_cipher = cipher, ps_imageCache = [], ps_imageId = 0\<rparr>"

definition parser_shift :: "rounding \<Rightarrow> parser \<Rightarrow> parser res" where
  "parser_shift fl ps =
     (if isCmd (ps_buf2 ps) (Some (js ''ID'')) then Inr (ps\<lparr>ps_buf1 := ps_buf2 ps, ps_buf2 := PNull\<rparr>)
      else rbind (lexer_getObj fl (ps_lexer ps)) (\<lambda>(b, lx).
        Inr (ps\<lparr>ps_buf1 := ps_buf2 ps, ps_buf2 := b, ps_lexer := lx\<rparr>)))"

text \<open>
  \<open>tryShift\<close>; a failed shift has moved the second token and leaves a lexer whose position the
  only caller sets anew.
\<close>

definition parser_tryShift :: "rounding \<Rightarrow> parser \<Rightarrow> bool \<times> parser" where
  "parser_tryShift fl ps =
     (case parser_shift fl ps of
        Inr ps' \<Rightarrow> (True, ps')
      | Inl _ \<Rightarrow> (False, ps\<lparr>ps_buf1 := ps_buf2 ps\<rparr>))"

definition set_pos :: "nat \<Rightarrow> parser \<Rightarrow> parser" where
  "set_pos p ps = ps\<lparr>ps_lexer := (ps_lexer ps)\<lparr>lx_stream := (lx_stream (ps_lexer ps))\<lparr>s_pos := p\<rparr>\<rparr>\<rparr>"

definition set_stream :: "stream \<Rightarrow> parser \<Rightarrow> parser" where
  "set_stream s ps = ps\<lparr>ps_lexer := (ps_lexer ps)\<lparr>lx_stream := s\<rparr>\<rparr>"

abbreviation parser_stream :: "parser \<Rightarrow> stream" where
  "parser_stream ps \<equiv> lx_stream (ps_lexer ps)"

definition obj_int :: "pobj \<Rightarrow> int option" where
  "obj_int v = (case v of PNum (Num x) \<Rightarrow> if num_isInteger (Num x) then Some \<lfloor>x\<rfloor> else None | _ \<Rightarrow> None)"

section \<open>Streams\<close>

definition END_SIGNATURE :: bytes where
  "END_SIGNATURE = [0x65, 0x6e, 0x64]"

definition PARTIAL_SIGNATURE :: "bytes list" where
  "PARTIAL_SIGNATURE = [[0x73, 0x74, 0x72, 0x65, 0x61, 0x6d], [0x73, 0x74, 0x65, 0x61, 0x6d], [0x73, 0x74, 0x72, 0x65, 0x61]]"

text \<open>\<open>k\<close> after \<open>while (k < partLen && scanBytes[pos + j + k] === part[k]) k++\<close>.\<close>

fun matched :: "bytes \<Rightarrow> bytes \<Rightarrow> nat" where
  "matched (b # bs) (p # ps) = (if b = p then Suc (matched bs ps) else 0)"
| "matched _ _ = 0"

fun signature_follows :: "bytes \<Rightarrow> bytes list \<Rightarrow> bool" where
  "signature_follows bs [] = False"
| "signature_follows bs (part # parts) =
     (let k = matched bs part
      in if 6 \<le> k then True
         else if length part \<le> k then k < length bs \<and> isWhiteSpace (bs ! k)
         else signature_follows bs parts)"

definition signature_at :: "bytes \<Rightarrow> bool" where
  "signature_at bs \<longleftrightarrow> matched bs END_SIGNATURE = 3 \<and> signature_follows (drop 3 bs) PARTIAL_SIGNATURE"

function scan_block :: "bytes \<Rightarrow> nat \<Rightarrow> nat \<Rightarrow> nat option" where
  "scan_block scanBytes p scanLength =
     (if p < scanLength then
        if signature_at (drop p scanBytes) then Some p else scan_block scanBytes (p + 1) scanLength
      else None)"
  by pat_completeness auto
termination by (relation "measure (\<lambda>(b, p, n). n - p)") auto

declare scan_block.simps [simp del]

function scan_blocks :: "stream \<Rightarrow> nat option" where
  "scan_blocks s =
     (if s_pos s < s_end s then
        let scanBytes = fst (peekBytes 2048 s)
        in if length scanBytes \<le> 9 then None
           else (case scan_block scanBytes 0 (length scanBytes - 9) of
                   Some p \<Rightarrow> Some (s_pos s + p)
                 | None \<Rightarrow> scan_blocks (s\<lparr>s_pos := s_pos s + (length scanBytes - 9)\<rparr>))
      else None)"
  by pat_completeness auto
termination by (relation "measure stream_left") auto

declare scan_blocks.simps [simp del]

text \<open>\<open>#findStreamLength\<close>: the length and the position at which the stream is left.\<close>

definition findStreamLength :: "nat \<Rightarrow> stream \<Rightarrow> (nat \<times> nat) option" where
  "findStreamLength startPos s =
     (case scan_blocks (s\<lparr>s_pos := startPos\<rparr>) of None \<Rightarrow> None | Some p \<Rightarrow> Some (p - startPos, p))"

definition check_filters :: "fetch \<Rightarrow> entries \<Rightarrow> unit res" where
  "check_filters fetch m =
     (case dict_getValue fetch False m (js ''F'') (Some (js ''Filter'')) of
        PArr fs \<Rightarrow>
          if list_all (\<lambda>f. isName (resolve fetch False f) None) fs then Inr ()
          else Inl (FormatError ''Bad filter name'')
      | _ \<Rightarrow> Inr ())"

definition sub_bytes_at :: "stream \<Rightarrow> nat \<Rightarrow> nat \<Rightarrow> bytes" where
  "sub_bytes_at s start len = rest (makeSubStream (Some start) (Some len) s)"

text \<open>
  \<open>makeStream\<close>: at the token \<open>stream\<close>.  The length of the dictionary is tried first; where no
  \<open>endstream\<close> follows it, the data is searched for one.
\<close>

definition makeStream :: "rounding \<Rightarrow> entries \<Rightarrow> parser \<Rightarrow> (pobj \<times> parser) res" where
  "makeStream fl m ps0 =
     (let ps = ps0\<lparr>ps_lexer := skipToNextLine (ps_lexer ps0)\<rparr>;
          startPos = s_pos (parser_stream ps) - 1;
          len = (case obj_int (dict_get (ps_fetch ps) False m (js ''Length'')) of Some n \<Rightarrow> n | None \<Rightarrow> 0);
          ps1 = set_pos (nat (int startPos + len)) ps;
          (ok, ps2) = parser_tryShift fl (ps1\<lparr>ps_lexer := nextChar (ps_lexer ps1)\<rparr>)
      in rbind
           (if ok \<and> isCmd (ps_buf2 ps2) (Some (js ''endstream'')) then
              rbind (parser_shift fl ps2) (\<lambda>ps3. Inr (nat len, ps3))
            else
              (case findStreamLength startPos (parser_stream ps2) of
                 None \<Rightarrow> Inl (FormatError ''Missing endstream command.'')
               | Some (n, p) \<Rightarrow>
                   let ps3 = set_pos p ps2
                   in rbind (parser_shift fl (ps3\<lparr>ps_lexer := nextChar (ps_lexer ps3)\<rparr>)) (\<lambda>ps4.
                      rbind (parser_shift fl ps4) (\<lambda>ps5. Inr (n, ps5)))))
           (\<lambda>(n, ps6). rbind (parser_shift fl ps6) (\<lambda>ps7.
              rbind (check_filters (ps_fetch ps7) m) (\<lambda>_.
                Inr (PStream m (sub_bytes_at (parser_stream ps7) startPos n), ps7)))))"

section \<open>Inline images\<close>

fun cache_pairs :: "bytes \<Rightarrow> jsstr" where
  "cache_pairs (a # b # bs) = (unat a * 256 + unat b) # cache_pairs bs"
| "cache_pairs [a] = [unat a]"
| "cache_pairs [] = []"

definition getInlineImageCacheKey :: "bytes \<Rightarrow> jsstr" where
  "getInlineImageCacheKey bs = nat_dec (length bs) @ 95 # cache_pairs bs"

definition image_filter :: "fetch \<Rightarrow> entries \<Rightarrow> jsstr" where
  "image_filter fetch m =
     (case dict_getValue fetch False m (js ''F'') (Some (js ''Filter'')) of
        PName n \<Rightarrow> n
      | PArr (f # _) \<Rightarrow> (case resolve fetch False f of PName n \<Rightarrow> n | _ \<Rightarrow> [])
      | _ \<Rightarrow> [])"

definition image_end :: "rounding \<Rightarrow> jsstr \<Rightarrow> known_commands option \<Rightarrow> stream \<Rightarrow> (int \<times> stream) res option" where
  "image_end fl filterName known s =
     (if filterName = js ''DCT'' \<or> filterName = js ''DCTDecode'' then findDCTDecodeInlineStreamEnd fl known s
      else if filterName = js ''A85'' \<or> filterName = js ''ASCII85Decode'' then Some (findASCII85DecodeInlineStreamEnd fl known s)
      else if filterName = js ''AHx'' \<or> filterName = js ''ASCIIHexDecode'' then Some (findASCIIHexDecodeInlineStreamEnd fl known s)
      else Some (findDefaultInlineStreamEnd fl known s))"

text \<open>The part of \<open>makeInlineImage\<close> after the dictionary has been read.\<close>

definition finishInlineImage :: "rounding \<Rightarrow> entries \<Rightarrow> parser \<Rightarrow> (pobj \<times> parser) res option" where
  "finishInlineImage fl m ps =
     (let s = parser_stream ps;
          startPos = s_pos s;
          dictLength = (case lx_beginPos (ps_lexer ps) of None \<Rightarrow> 0 | Some b \<Rightarrow> int startPos - int b)
      in fbind (image_end fl (image_filter (ps_fetch ps) m) (lx_known (ps_lexer ps)) s) (\<lambda>(len, s1).
         let ps1 = set_stream s1 ps;
             cacheKey =
               (if len < 1000 \<and> 0 < dictLength
                then Some (getInlineImageCacheKey (fst (getBytes (nat (dictLength + len)) (s1\<lparr>s_pos := the (lx_beginPos (ps_lexer ps))\<rparr>))))
                else None);
             ps2 = ps1\<lparr>ps_buf2 := PCmd (js ''EI'')\<rparr>
         in case Option.bind cacheKey (map_get (ps_imageCache ps)) of
              Some img \<Rightarrow> fbind (Some (parser_shift fl ps2)) (\<lambda>ps3. Some (Inr (img, ps3)))
            | None \<Rightarrow>
                fbind (Some (check_filters (ps_fetch ps) m)) (\<lambda>_.
                  let img = PStream m (sub_bytes_at s startPos (nat len));
                      ps3 = (case cacheKey of
                        None \<Rightarrow> ps2
                      | Some k \<Rightarrow> ps2\<lparr>ps_imageId := ps_imageId ps2 + 1, ps_imageCache := AList.update k img (ps_imageCache ps2)\<rparr>)
                  in fbind (Some (parser_shift fl ps3)) (\<lambda>ps4. Some (Inr (img, ps4))))))"

section \<open>Objects\<close>

definition name_of :: "pobj \<Rightarrow> jsstr option" where
  "name_of v = (case v of PName s \<Rightarrow> Some s | _ \<Rightarrow> None)"

lemma name_of_PName [simp]: "name_of (PName s) = Some s"
  by (simp add: name_of_def)

text \<open>
  \<open>getObj\<close> with its loops over the elements of an array, the entries of a dictionary and the
  entries of an inline image.  The fuel bounds the depth of the calls; \<open>None\<close> means that it
  was not enough, or that the scan for the end of an image does not end.
\<close>

fun parser_getObj :: "rounding \<Rightarrow> nat \<Rightarrow> parser \<Rightarrow> (pobj \<times> parser) res option"
  and array_loop :: "rounding \<Rightarrow> nat \<Rightarrow> pobj list \<Rightarrow> parser \<Rightarrow> (pobj \<times> parser) res option"
  and dict_loop :: "rounding \<Rightarrow> nat \<Rightarrow> entries \<Rightarrow> parser \<Rightarrow> (pobj \<times> parser) res option"
  and image_loop :: "rounding \<Rightarrow> nat \<Rightarrow> entries \<Rightarrow> parser \<Rightarrow> (pobj \<times> parser) res option" where
  "parser_getObj fl 0 ps = None"
| "parser_getObj fl (Suc n) ps =
     fbind (Some (parser_shift fl ps)) (\<lambda>ps1.
       case ps_buf1 ps of
         PCmd c \<Rightarrow>
           if c = js ''BI'' then image_loop fl n [] ps1
           else if c = js ''['' then array_loop fl n [] ps1
           else if c = js ''<<'' then dict_loop fl n [] ps1
           else Some (Inr (PCmd c, ps1))
       | PNum x \<Rightarrow>
           (case (obj_int (PNum x), obj_int (ps_buf1 ps1)) of
              (Some num, Some gen) \<Rightarrow>
                if isCmd (ps_buf2 ps1) (Some (js ''R'')) then
                  fbind (Some (parser_shift fl ps1)) (\<lambda>ps2.
                  fbind (Some (parser_shift fl ps2)) (\<lambda>ps3.
                    Some (Inr (PRef \<lparr>r_num = num, r_gen = gen\<rparr>, ps3))))
                else Some (Inr (PNum x, ps1))
            | _ \<Rightarrow> Some (Inr (PNum x, ps1)))
       | PStr s \<Rightarrow>
           (case ps_cipher ps1 of
              None \<Rightarrow> Some (Inr (PStr s, ps1))
            | Some t \<Rightarrow> fbind (Some (decryptString s t)) (\<lambda>(s', t'). Some (Inr (PStr s', ps1\<lparr>ps_cipher := Some t'\<rparr>))))
       | b \<Rightarrow> Some (Inr (b, ps1)))"
| "array_loop fl 0 vs ps = None"
| "array_loop fl (Suc n) vs ps =
     (if isCmd (ps_buf1 ps) (Some (js '']'')) then fbind (Some (parser_shift fl ps)) (\<lambda>ps1. Some (Inr (PArr vs, ps1)))
      else if ps_buf1 ps = PEOF then
        Some (if ps_recoveryMode ps then Inr (PArr vs, ps) else Inl (JsError ''ParserEOFException''))
      else fbind (parser_getObj fl n ps) (\<lambda>(v, ps1). array_loop fl n (vs @ [v]) ps1))"
| "dict_loop fl 0 m ps = None"
| "dict_loop fl (Suc n) m ps =
     (if isCmd (ps_buf1 ps) (Some (js ''>>'')) then
        if isCmd (ps_buf2 ps) (Some (js ''stream'')) then
          Some (if ps_allowStreams ps then makeStream fl m ps else Inr (PDict m False, ps))
        else fbind (Some (parser_shift fl ps)) (\<lambda>ps1. Some (Inr (PDict m False, ps1)))
      else if ps_buf1 ps = PEOF then
        Some (if ps_recoveryMode ps then Inr (PDict m False, ps) else Inl (JsError ''ParserEOFException''))
      else (case name_of (ps_buf1 ps) of
        Some key \<Rightarrow>
          fbind (Some (parser_shift fl ps)) (\<lambda>ps1.
            if ps_buf1 ps1 = PEOF then dict_loop fl n m ps1
            else fbind (parser_getObj fl n ps1) (\<lambda>(v, ps2). dict_loop fl n (dict_set key v m) ps2))
      | None \<Rightarrow> fbind (Some (parser_shift fl ps)) (\<lambda>ps1. dict_loop fl n m ps1)))"
| "image_loop fl 0 m ps = None"
| "image_loop fl (Suc n) m ps =
     (if isCmd (ps_buf1 ps) (Some (js ''ID'')) \<or> ps_buf1 ps = PEOF then finishInlineImage fl m ps
      else (case name_of (ps_buf1 ps) of
        Some key \<Rightarrow>
          fbind (Some (parser_shift fl ps)) (\<lambda>ps1.
            if ps_buf1 ps1 = PEOF then finishInlineImage fl m ps1
            else fbind (parser_getObj fl n ps1) (\<lambda>(v, ps2). image_loop fl n (dict_set key v m) ps2))
      | None \<Rightarrow> Some (Inl (FormatError ''Dictionary key must be a name object''))))"

end
