(* ===== verification/Xref.thy ===== *)
theory Xref
  imports Parser
begin

text \<open>
  The cross-reference table (\<open>class XRef\<close>): the entries from tables and streams, the queue of
  sections, and fetching an object through its entry, from the file or from an object stream.

  Parameters: \<open>look\<close> is what a reference inside a dictionary resolves to while a section or an
  object is parsed, \<open>opened\<close> the stream of decoded bytes of a stream object (the filters that the
  parser puts around it).  The property \<open>objId\<close> of dictionaries is not modelled.  A file
  position below 0, which the code reads as undefined bytes, has no result here.
\<close>

section \<open>State\<close>

record xref_entry =
  xe_offset :: int
  xe_gen :: int
  xe_free :: bool
  xe_uncompressed :: bool

text \<open>Where the reading of a table or a stream is, kept in the object to resume after missing data.\<close>

record table_state =
  ts_entryNum :: int
  ts_first :: "pobj option"
  ts_count :: "pobj option"
  ts_streamPos :: nat
  ts_buf1 :: pobj
  ts_buf2 :: pobj

record stream_state =
  ss_ranges :: "pobj list"
  ss_widths :: "pobj list option"
  ss_entryNum :: int
  ss_streamPos :: nat

record xref =
  xr_stream :: stream
  xr_entries :: "(int \<times> xref_entry) list"
  xr_cache :: "(int \<times> pobj) list"
  xr_newPersistent :: "int option"
  xr_newTemporary :: "int option"
  xr_persistentCache :: "(int \<times> pobj) list option"
  xr_pending :: ref_set
  xr_encrypt :: "(int \<Rightarrow> int \<Rightarrow> transform) option"
  xr_generationFallback :: bool
  xr_queue :: "int list"
  xr_topDict :: "entries option"
  xr_sectionOffsets :: "int list"
  xr_complete :: bool
  xr_xrefStms :: "int list"
  xr_recovery :: bool
  xr_tableState :: "table_state option"
  xr_streamState :: "stream_state option"

definition mk_xref :: "stream \<Rightarrow> xref" where
  "mk_xref s = \<lparr>xr_stream = s, xr_entries = [], xr_cache = [], xr_newPersistent = None, xr_newTemporary = None,
     xr_persistentCache = None, xr_pending = [], xr_encrypt = None, xr_generationFallback = False, xr_queue = [],
     xr_topDict = None, xr_sectionOffsets = [], xr_complete = True, xr_xrefStms = [], xr_recovery = False,
     xr_tableState = None, xr_streamState = None\<rparr>"

subsection \<open>Operations that may throw\<close>

text \<open>An exception keeps what has happened to the object before; \<open>None\<close> is not enough fuel.\<close>

type_synonym 'a xm = "xref \<Rightarrow> ('a res \<times> xref) option"

definition xret :: "'a \<Rightarrow> 'a xm" where
  "xret x xr = Some (Inr x, xr)"

definition xfail :: "js_error \<Rightarrow> 'a xm" where
  "xfail e xr = Some (Inl e, xr)"

definition xlift :: "'a res option \<Rightarrow> 'a xm" where
  "xlift r xr = map_option (\<lambda>y. (y, xr)) r"

definition xmod :: "(xref \<Rightarrow> xref) \<Rightarrow> unit xm" where
  "xmod f xr = Some (Inr (), f xr)"

definition xget :: "(xref \<Rightarrow> 'a) \<Rightarrow> 'a xm" where
  "xget f xr = Some (Inr (f xr), xr)"

definition xbind :: "'a xm \<Rightarrow> ('a \<Rightarrow> 'b xm) \<Rightarrow> 'b xm" where
  "xbind m f xr = (case m xr of None \<Rightarrow> None | Some (Inl e, xr1) \<Rightarrow> Some (Inl e, xr1) | Some (Inr x, xr1) \<Rightarrow> f x xr1)"

lemma xm_simps [simp]:
  "xbind (xret x) f = f x" "xbind (xfail e) f = xfail e" "xbind (xmod g) h xr = h () (g xr)" "xbind (xget k) f xr = f (k xr) xr"
  "xbind (xlift (Some (Inr x))) f = f x" "xbind (xlift (Some (Inl e))) f = xfail e"
  by (auto simp: xbind_def xret_def xfail_def xmod_def xget_def xlift_def fun_eq_iff)

lemma xbind_cong [fundef_cong]:
  "m xr = m' xr' \<Longrightarrow> xr = xr' \<Longrightarrow> (\<And>x xr1. m' xr' = Some (Inr x, xr1) \<Longrightarrow> f x xr1 = f' x xr1) \<Longrightarrow> xbind m f xr = xbind m' f' xr'"
  by (auto simp: xbind_def split: option.split sum.split)

section \<open>Entries and new references\<close>

definition entry_at :: "xref \<Rightarrow> int \<Rightarrow> xref_entry option" where
  "entry_at xr i = map_of (xr_entries xr) i"

text \<open>\<open>entries[i] ??= entry\<close>\<close>

definition add_entry_at :: "int \<Rightarrow> xref_entry \<Rightarrow> xref \<Rightarrow> xref" where
  "add_entry_at i e xr = (case entry_at xr i of None \<Rightarrow> xr\<lparr>xr_entries := xr_entries xr @ [(i, e)]\<rparr> | Some _ \<Rightarrow> xr)"

text \<open>The \<open>length\<close> of the array: one more than the largest array index.\<close>

definition entries_length :: "xref \<Rightarrow> int" where
  "entries_length xr = foldl max 0 (map (\<lambda>(i, _). i + 1) (filter (\<lambda>(i, _). 0 \<le> i \<and> i < 2 ^ 32 - 1) (xr_entries xr)))"

definition getEntry :: "int \<Rightarrow> xref \<Rightarrow> xref_entry option" where
  "getEntry i xr = (case entry_at xr i of
     Some e \<Rightarrow> if \<not> xe_free e \<and> xe_offset e \<noteq> 0 then Some e else None
   | None \<Rightarrow> None)"

definition first_new :: "xref \<Rightarrow> int" where
  "first_new xr = (if entries_length xr \<noteq> 0 then entries_length xr else 1)"

definition cache_set :: "int \<Rightarrow> pobj \<Rightarrow> xref \<Rightarrow> xref" where
  "cache_set num v xr = xr\<lparr>xr_cache := AList.update num v (xr_cache xr)\<rparr>"

definition getNewPersistentRef :: "pobj \<Rightarrow> xref \<Rightarrow> ref \<times> xref" where
  "getNewPersistentRef v xr =
     (let num = (case xr_newPersistent xr of None \<Rightarrow> first_new xr | Some k \<Rightarrow> k)
      in (\<lparr>r_num = num, r_gen = 0\<rparr>, (cache_set num v xr)\<lparr>xr_newPersistent := Some (num + 1)\<rparr>))"

text \<open>
  The objects with persistent references leave the cache while temporary references are
  handed out, as these use the same numbers.  What \<open>Map.get\<close> does not find is \<open>undefined\<close>.
\<close>

definition hide_persistent :: "int \<Rightarrow> int \<Rightarrow> xref \<Rightarrow> xref" where
  "hide_persistent t p xr =
     xr\<lparr>xr_persistentCache := Some (map (\<lambda>i. (i, case map_of (xr_cache xr) i of Some v \<Rightarrow> v | None \<Rightarrow> PUndef)) [t..p - 1]),
        xr_cache := filter (\<lambda>(i, _). \<not> (t \<le> i \<and> i < p)) (xr_cache xr)\<rparr>"

definition getNewTemporaryRef :: "xref \<Rightarrow> ref \<times> xref" where
  "getNewTemporaryRef xr =
     (case xr_newTemporary xr of
        Some k \<Rightarrow> (\<lparr>r_num = k, r_gen = 0\<rparr>, xr\<lparr>xr_newTemporary := Some (k + 1)\<rparr>)
      | None \<Rightarrow>
          let t = first_new xr;
              xr1 = (case xr_newPersistent xr of Some p \<Rightarrow> if p \<noteq> 0 then hide_persistent t p xr else xr | None \<Rightarrow> xr)
          in (\<lparr>r_num = t, r_gen = 0\<rparr>, xr1\<lparr>xr_newTemporary := Some (t + 1)\<rparr>))"

definition resetNewTemporaryRef :: "xref \<Rightarrow> xref" where
  "resetNewTemporaryRef xr =
     (let xr1 = xr\<lparr>xr_newTemporary := None\<rparr>
      in (case xr_persistentCache xr of
            Some c \<Rightarrow> (foldl (\<lambda>x (num, v). cache_set num v x) xr1 c)\<lparr>xr_persistentCache := None\<rparr>
          | None \<Rightarrow> xr1))"

definition setStartXRef :: "int \<Rightarrow> xref \<Rightarrow> xref" where
  "setStartXRef startXRef xr = xr\<lparr>xr_queue := [startXRef]\<rparr>"

section \<open>Tables\<close>

definition set_table :: "(table_state \<Rightarrow> table_state) \<Rightarrow> xref \<Rightarrow> xref" where
  "set_table f xr = xr\<lparr>xr_tableState := map_option f (xr_tableState xr)\<rparr>"

text \<open>The position that is kept at the start of every entry and after a subsection.\<close>

definition mark_table :: "int \<Rightarrow> parser \<Rightarrow> table_state \<Rightarrow> table_state" where
  "mark_table i ps ts = ts\<lparr>ts_entryNum := i, ts_streamPos := s_pos (parser_stream ps), ts_buf1 := ps_buf1 ps, ts_buf2 := ps_buf2 ps\<rparr>"

definition entry_of :: "pobj \<Rightarrow> pobj \<Rightarrow> pobj \<Rightarrow> xref_entry res" where
  "entry_of offset gen type =
     (let free = isCmd type (Some (js ''f'')); unc = isCmd type (Some (js ''n''))
      in case (obj_int offset, obj_int gen) of
           (Some p, Some g) \<Rightarrow>
             if free \<or> unc then Inr \<lparr>xe_offset = p, xe_gen = g, xe_free = free, xe_uncompressed = unc\<rparr>
             else Inl (FormatError ''Invalid entry in XRef subsection'')
         | _ \<Rightarrow> Inl (FormatError ''Invalid entry in XRef subsection''))"

definition table_entry :: "rounding \<Rightarrow> nat \<Rightarrow> parser \<Rightarrow> (xref_entry \<times> parser) res option" where
  "table_entry fl n ps =
     fbind (parser_getObj fl n ps) (\<lambda>(offset, ps).
     fbind (parser_getObj fl n ps) (\<lambda>(gen, ps).
     fbind (parser_getObj fl n ps) (\<lambda>(type, ps).
     fbind (Some (entry_of offset gen type)) (\<lambda>e. Some (Inr (e, ps))))))"

text \<open>A table whose first section wrongly starts at 1 is shifted to start at 0.\<close>

function table_entries :: "rounding \<Rightarrow> nat \<Rightarrow> int \<Rightarrow> int \<Rightarrow> int \<Rightarrow> parser \<Rightarrow> parser xm" where
  "table_entries fl n first count i ps xr =
     (if i < count then
        (xbind (xmod (set_table (mark_table i ps))) (\<lambda>_.
         xbind (xlift (table_entry fl n ps)) (\<lambda>(e, ps).
           let first = (if i = 0 \<and> xe_free e \<and> first = 1 then 0 else first)
           in xbind (xmod (add_entry_at (first + i) e)) (\<lambda>_.
              table_entries fl n first count (i + 1) ps)))) xr
      else xret ps xr)"
  by pat_completeness auto

termination
  by (relation "measure (\<lambda>(fl, n, first, count, i, ps, xr). nat (count - i))") auto

declare table_entries.simps [simp del]

text \<open>The header of a subsection, unless it is in the state already; \<open>None\<close> at the trailer.\<close>

definition table_header :: "rounding \<Rightarrow> nat \<Rightarrow> parser \<Rightarrow> ((pobj \<times> pobj) option \<times> pobj \<times> parser) xm" where
  "table_header fl n ps xr =
     (case (Option.bind (xr_tableState xr) ts_first, Option.bind (xr_tableState xr) ts_count) of
        (Some f, Some c) \<Rightarrow> xret (Some (f, c), PUndef, ps) xr
      | _ \<Rightarrow>
          (xbind (xlift (parser_getObj fl n ps)) (\<lambda>(obj, ps).
             if isCmd obj (Some (js ''trailer'')) then xret (None, obj, ps)
             else
               xbind (xmod (set_table (\<lambda>ts. ts\<lparr>ts_first := Some obj\<rparr>))) (\<lambda>_.
               xbind (xlift (parser_getObj fl n ps)) (\<lambda>(c, ps).
               xbind (xmod (set_table (\<lambda>ts. ts\<lparr>ts_count := Some c\<rparr>))) (\<lambda>_.
               xret (Some (obj, c), obj, ps)))))) xr)"

fun table_loop :: "rounding \<Rightarrow> nat \<Rightarrow> nat \<Rightarrow> parser \<Rightarrow> (pobj \<times> parser) xm" where
  "table_loop fl n 0 ps xr = None"
| "table_loop fl n (Suc k) ps xr =
     (xbind (table_header fl n ps) (\<lambda>(hdr, obj, ps).
        case hdr of
          None \<Rightarrow> xret (obj, ps)
        | Some (f, c) \<Rightarrow>
            (case (obj_int f, obj_int c) of
               (Some first, Some count) \<Rightarrow>
                 xbind (xget (\<lambda>xr. case xr_tableState xr of Some ts \<Rightarrow> ts_entryNum ts | None \<Rightarrow> 0)) (\<lambda>i.
                 xbind (table_entries fl n first count i ps) (\<lambda>ps.
                 xbind (xmod (set_table (\<lambda>ts. (mark_table 0 ps ts)\<lparr>ts_first := None, ts_count := None\<rparr>))) (\<lambda>_.
                 table_loop fl n k ps)))
             | _ \<Rightarrow> xfail (FormatError ''Invalid XRef table: wrong types in subsection header'')))) xr"

definition readXRefTable :: "rounding \<Rightarrow> nat \<Rightarrow> parser \<Rightarrow> (pobj \<times> parser) xm" where
  "readXRefTable fl n ps =
     xbind (xget (\<lambda>xr. case xr_tableState xr of
         Some ts \<Rightarrow> (set_pos (ts_streamPos ts) ps)\<lparr>ps_buf1 := ts_buf1 ts, ps_buf2 := ts_buf2 ts\<rparr>
       | None \<Rightarrow> ps)) (\<lambda>ps.
     xbind (table_loop fl n n ps) (\<lambda>r.
     xbind (xget (\<lambda>xr. entry_at xr 0)) (\<lambda>e0.
       case e0 of
         Some e \<Rightarrow> if \<not> xe_free e then xfail (FormatError ''Invalid XRef table: unexpected first object'') else xret r
       | None \<Rightarrow> xret r)))"

definition processXRefTable :: "rounding \<Rightarrow> nat \<Rightarrow> parser \<Rightarrow> entries xm" where
  "processXRefTable fl n ps =
     xbind (xmod (\<lambda>xr. case xr_tableState xr of
         None \<Rightarrow> xr\<lparr>xr_tableState := Some \<lparr>ts_entryNum = 0, ts_first = None, ts_count = None,
             ts_streamPos = s_pos (parser_stream ps), ts_buf1 = ps_buf1 ps, ts_buf2 = ps_buf2 ps\<rparr>\<rparr>
       | Some _ \<Rightarrow> xr)) (\<lambda>_.
     xbind (readXRefTable fl n ps) (\<lambda>(obj, ps).
       if \<not> isCmd obj (Some (js ''trailer'')) then xfail (FormatError ''Invalid XRef table: could not find trailer dictionary'')
       else
         xbind (xlift (parser_getObj fl n ps)) (\<lambda>(d, ps).
           let dict = (case d of PDict m _ \<Rightarrow> Some m | PStream m _ \<Rightarrow> Some m | _ \<Rightarrow> None)
           in case dict of
                None \<Rightarrow> xfail (FormatError ''Invalid XRef table: could not parse trailer dictionary'')
              | Some m \<Rightarrow> xbind (xmod (\<lambda>xr. xr\<lparr>xr_tableState := None\<rparr>)) (\<lambda>_. xret m))))"

section \<open>Streams\<close>

text \<open>A field of \<open>w\<close> bytes; the shifts are those of 32-bit integers.\<close>

fun read_field :: "nat \<Rightarrow> u32 \<Rightarrow> bytes \<Rightarrow> nat \<Rightarrow> (u32 \<times> nat) option" where
  "read_field 0 acc bs p = Some (acc, p)"
| "read_field (Suc w) acc bs p =
     (if p < length bs then read_field w (push_bit 8 acc OR ucast (bs ! p)) bs (p + 1) else None)"

definition stream_entry :: "int \<Rightarrow> int \<Rightarrow> int \<Rightarrow> bytes \<Rightarrow> nat \<Rightarrow> (xref_entry \<times> nat) res" where
  "stream_entry w1 w2 w3 bs p =
     (case read_field (nat w1) 0 bs p of
        None \<Rightarrow> Inl (FormatError ''Invalid XRef byteWidths 'type'.'')
      | Some (t, p) \<Rightarrow>
     (case read_field (nat w2) 0 bs p of
        None \<Rightarrow> Inl (FormatError ''Invalid XRef byteWidths 'offset'.'')
      | Some (offset, p) \<Rightarrow>
     (case read_field (nat w3) 0 bs p of
        None \<Rightarrow> Inl (FormatError ''Invalid XRef byteWidths 'generation'.'')
      | Some (gen, p) \<Rightarrow>
          let type = (if w1 = 0 then 1 else sint t)
          in if type = 0 \<or> type = 1 \<or> type = 2
             then Inr (\<lparr>xe_offset = sint offset, xe_gen = sint gen, xe_free = (type = 0), xe_uncompressed = (type = 1)\<rparr>, p)
             else Inl (FormatError ''Invalid XRef entry type''))))"

definition set_sstate :: "(stream_state \<Rightarrow> stream_state) \<Rightarrow> xref \<Rightarrow> xref" where
  "set_sstate f xr = xr\<lparr>xr_streamState := map_option f (xr_streamState xr)\<rparr>"

function stream_entries :: "int \<times> int \<times> int \<Rightarrow> int \<Rightarrow> int \<Rightarrow> int \<Rightarrow> bytes \<Rightarrow> nat \<Rightarrow> nat xm" where
  "stream_entries w first n i bs p xr =
     (if i < n then
        (xbind (xmod (set_sstate (\<lambda>ss. ss\<lparr>ss_entryNum := i, ss_streamPos := p\<rparr>))) (\<lambda>_.
         xbind (xlift (Some (case w of (w1, w2, w3) \<Rightarrow> stream_entry w1 w2 w3 bs p))) (\<lambda>(e, p).
         xbind (xmod (add_entry_at (first + i) e)) (\<lambda>_.
         stream_entries w first n (i + 1) bs p)))) xr
      else xret p xr)"
  by pat_completeness auto

termination
  by (relation "measure (\<lambda>(w, first, n, i, bs, p, xr). nat (n - i))") auto

declare stream_entries.simps [simp del]

definition field_widths :: "pobj list \<Rightarrow> (int \<times> int \<times> int) option" where
  "field_widths ws = (case ws of
     a # b # c # _ \<Rightarrow> (case (obj_int a, obj_int b, obj_int c) of (Some x, Some y, Some z) \<Rightarrow> Some (x, y, z) | _ \<Rightarrow> None)
   | _ \<Rightarrow> None)"

fun stream_ranges :: "pobj list \<Rightarrow> pobj list \<Rightarrow> bytes \<Rightarrow> nat \<Rightarrow> unit xm" where
  "stream_ranges ws [] bs p xr = xret () xr"
| "stream_ranges ws (r # rs) bs p xr =
     (case (obj_int r, case rs of [] \<Rightarrow> None | c # _ \<Rightarrow> obj_int c) of
        (Some first, Some n) \<Rightarrow>
          (case field_widths ws of
             None \<Rightarrow> xfail (FormatError ''Invalid XRef entry fields length'') xr
           | Some w \<Rightarrow>
               (xbind (xget (\<lambda>xr. case xr_streamState xr of Some ss \<Rightarrow> ss_entryNum ss | None \<Rightarrow> 0)) (\<lambda>i.
                xbind (stream_entries w first n i bs p) (\<lambda>p.
                xbind (xmod (set_sstate (\<lambda>ss. ss\<lparr>ss_entryNum := 0, ss_streamPos := p, ss_ranges := tl rs\<rparr>))) (\<lambda>_.
                stream_ranges ws (tl rs) bs p)))) xr)
      | _ \<Rightarrow> xfail (FormatError ''Invalid XRef range fields'') xr)"

definition readXRefStream :: "bytes \<Rightarrow> unit xm" where
  "readXRefStream bs xr =
     (case xr_streamState xr of
        None \<Rightarrow> xfail TypeError xr
      | Some ss \<Rightarrow>
          (case ss_widths ss of
             None \<Rightarrow> xfail TypeError xr
           | Some ws \<Rightarrow> stream_ranges ws (ss_ranges ss) bs (ss_streamPos ss) xr))"

text \<open>The elements that destructuring an array or a string gives; other values are not iterable.\<close>

definition elements_of :: "pobj \<Rightarrow> pobj list option" where
  "elements_of v = (case v of PArr vs \<Rightarrow> Some vs | PStr s \<Rightarrow> Some (map (\<lambda>c. PStr [c]) s) | _ \<Rightarrow> None)"

text \<open>
  Reading consumes the array of ranges, which is the one in the dictionary if it is there
  directly; a range that is not an array or a string has no \<open>length\<close> and is read as none.
\<close>

definition processXRefStream :: "fetch \<Rightarrow> entries \<Rightarrow> stream \<Rightarrow> entries xm" where
  "processXRefStream look m s =
     xbind (xget (\<lambda>xr. xr_streamState xr = None)) (\<lambda>fresh.
     xbind (xmod (\<lambda>xr. case xr_streamState xr of
         None \<Rightarrow>
           let index = dict_get look False m (js ''Index'');
               range = (if obj_truthy index then index else PArr [PNum (Num 0), dict_get look False m (js ''Size'')])
           in xr\<lparr>xr_streamState := Some \<lparr>ss_ranges = (case elements_of range of Some rs \<Rightarrow> rs | None \<Rightarrow> []),
                ss_widths = elements_of (dict_get look False m (js ''W'')), ss_entryNum = 0, ss_streamPos = s_pos s\<rparr>\<rparr>
       | Some _ \<Rightarrow> xr)) (\<lambda>_.
     xbind (readXRefStream (take (s_end s) (s_bytes s))) (\<lambda>_.
     xbind (xmod (\<lambda>xr. xr\<lparr>xr_streamState := None\<rparr>)) (\<lambda>_.
     xret (if fresh then (case getRaw m (js ''Index'') of PArr _ \<Rightarrow> dict_set (js ''Index'') (PArr []) m | _ \<Rightarrow> m) else m)))))"

section \<open>The sections of a file\<close>

definition push_queue :: "int \<Rightarrow> xref \<Rightarrow> xref" where
  "push_queue p xr = xr\<lparr>xr_queue := xr_queue xr @ [p]\<rparr>"

definition set_topDict :: "entries \<Rightarrow> xref \<Rightarrow> xref" where
  "set_topDict m xr = (case xr_topDict xr of None \<Rightarrow> xr\<lparr>xr_topDict := Some m\<rparr> | Some _ \<Rightarrow> xr)"

definition add_stm :: "pobj \<Rightarrow> xref \<Rightarrow> xref" where
  "add_stm v xr = (case obj_int v of
     Some p \<Rightarrow> if p \<in> set (xr_xrefStms xr) then xr else push_queue p (xr\<lparr>xr_xrefStms := xr_xrefStms xr @ [p]\<rparr>)
   | None \<Rightarrow> xr)"

definition push_prev :: "pobj \<Rightarrow> xref \<Rightarrow> xref" where
  "push_prev v xr = (case v of PRef r \<Rightarrow> push_queue (r_num r) xr
     | _ \<Rightarrow> (case obj_int v of Some p \<Rightarrow> push_queue p xr | None \<Rightarrow> xr))"

definition read_dict :: "rounding \<Rightarrow> nat \<Rightarrow> fetch \<Rightarrow> (entries \<Rightarrow> bytes \<Rightarrow> stream) \<Rightarrow> parser \<Rightarrow> entries xm" where
  "read_dict fl n look opened ps =
     xbind (xlift (parser_getObj fl n ps)) (\<lambda>(obj, ps).
       if isCmd obj (Some (js ''xref'')) then
         xbind (processXRefTable fl n ps) (\<lambda>m.
         xbind (xmod (set_topDict m)) (\<lambda>_.
         xbind (xmod (add_stm (dict_get look False m (js ''XRefStm'')))) (\<lambda>_. xret m)))
       else if obj_int obj \<noteq> None then
         xbind (xlift (parser_getObj fl n ps)) (\<lambda>(gen, ps).
           if obj_int gen = None then xfail (FormatError ''Invalid XRef stream'')
           else
             xbind (xlift (parser_getObj fl n ps)) (\<lambda>(cmd, ps).
               if \<not> isCmd cmd (Some (js ''obj'')) then xfail (FormatError ''Invalid XRef stream'')
               else
                 xbind (xlift (parser_getObj fl n ps)) (\<lambda>(v, ps).
                   case v of
                     PStream m bs \<Rightarrow>
                       xbind (processXRefStream look m (opened m bs)) (\<lambda>m.
                       xbind (xmod (set_topDict m)) (\<lambda>_. xret m))
                   | _ \<Rightarrow> xfail (FormatError ''Invalid XRef stream''))))
       else xfail (FormatError ''Invalid XRef stream header''))"

definition read_section :: "rounding \<Rightarrow> nat \<Rightarrow> fetch \<Rightarrow> (entries \<Rightarrow> bytes \<Rightarrow> stream) \<Rightarrow> int \<Rightarrow> unit xm" where
  "read_section fl n look opened startXRef xr =
     (let p = startXRef + int (s_start (xr_stream xr))
      in if p < 0 then None
         else
           (xbind (xlift (Some (mk_parser fl (mk_lexer ((xr_stream xr)\<lparr>s_pos := nat p\<rparr>) None) look True False None))) (\<lambda>ps.
            xbind (read_dict fl n look opened ps) (\<lambda>m.
            xbind (xmod (\<lambda>xr. xr\<lparr>xr_sectionOffsets := List.insert startXRef (xr_sectionOffsets xr)\<rparr>)) (\<lambda>_.
            xmod (push_prev (dict_get look False m (js ''Prev''))))))) xr)"

definition shift_queue :: "xref \<Rightarrow> xref" where
  "shift_queue xr = xr\<lparr>xr_queue := tl (xr_queue xr)\<rparr>"

fun readXRef_loop :: "rounding \<Rightarrow> nat \<Rightarrow> fetch \<Rightarrow> (entries \<Rightarrow> bytes \<Rightarrow> stream) \<Rightarrow> nat \<Rightarrow> int list \<Rightarrow> xref \<Rightarrow> xref option" where
  "readXRef_loop fl n look opened 0 parsed xr = None"
| "readXRef_loop fl n look opened (Suc k) parsed xr =
     (case xr_queue xr of
        [] \<Rightarrow> Some xr
      | startXRef # _ \<Rightarrow>
          if startXRef \<in> set parsed then readXRef_loop fl n look opened k parsed (shift_queue xr)
          else
            (case read_section fl n look opened startXRef xr of
               None \<Rightarrow> None
             | Some (r, xr1) \<Rightarrow>
                 readXRef_loop fl n look opened k (startXRef # parsed)
                   (shift_queue (case r of Inl _ \<Rightarrow> xr1\<lparr>xr_complete := False\<rparr> | Inr _ \<Rightarrow> xr1))))"

text \<open>The trailer dictionary, or in recovery mode \<open>undefined\<close> (\<open>None\<close>) if there is none.\<close>

definition readXRef :: "rounding \<Rightarrow> nat \<Rightarrow> fetch \<Rightarrow> (entries \<Rightarrow> bytes \<Rightarrow> stream) \<Rightarrow> bool \<Rightarrow> (entries option) xm" where
  "readXRef fl n look opened recoveryMode xr =
     (case readXRef_loop fl n look opened n [] xr of
        None \<Rightarrow> None
      | Some xr1 \<Rightarrow>
          (case xr_topDict xr1 of
             Some m \<Rightarrow> xret (Some m) xr1
           | None \<Rightarrow> if recoveryMode then xret None xr1 else xfail (JsError ''XRefParseException'') xr1))"

definition countUpdatesAfter :: "int \<Rightarrow> xref \<Rightarrow> nat option" where
  "countUpdatesAfter offset xr =
     (if xr_recovery xr \<or> \<not> xr_complete xr then None
      else Some (length (filter (\<lambda>p. offset - int (s_start (xr_stream xr)) \<le> p \<and> p \<notin> set (xr_xrefStms xr)) (xr_sectionOffsets xr))))"

section \<open>Fetching objects\<close>

text \<open>\<open>CIRCULAR_REF\<close> is a value of its own.\<close>

datatype fetched = Fetched pobj | CircularRef

definition int_obj :: "int \<Rightarrow> pobj" where
  "int_obj i = PNum (Num (of_int i))"

text \<open>What follows \<open>obj\<close> without white space is an integer object.\<close>

definition header_cmd :: "rounding \<Rightarrow> jsstr \<Rightarrow> pobj option res" where
  "header_cmd fl cmd =
     (if cmd = js ''obj'' then Inr None
      else if take 3 cmd = js ''obj'' \<and> parseInt10 fl (drop 3 cmd) \<noteq> NaN then Inr (Some (PNum (parseInt10 fl (drop 3 cmd))))
      else Inl (JsError ''XRefEntryException''))"

definition is_stream :: "pobj \<Rightarrow> bool" where
  "is_stream v = (case v of PStream _ _ \<Rightarrow> True | _ \<Rightarrow> False)"

definition read_object :: "rounding \<Rightarrow> nat \<Rightarrow> fetch \<Rightarrow> bool \<Rightarrow> int \<Rightarrow> int \<Rightarrow> stream \<Rightarrow> pobj xm" where
  "read_object fl n look suppressEncryption num gen s xr =
     (xbind (xlift (Some (mk_parser fl (mk_lexer s None) look True False None))) (\<lambda>ps.
      xbind (xlift (parser_getObj fl n ps)) (\<lambda>(obj1, ps).
      xbind (xlift (parser_getObj fl n ps)) (\<lambda>(obj2, ps).
      xbind (xlift (parser_getObj fl n ps)) (\<lambda>(obj3, ps).
        case obj3 of
          PCmd cmd \<Rightarrow>
            if obj1 \<noteq> int_obj num \<or> obj2 \<noteq> int_obj gen then xfail (JsError ''XRefEntryException'')
            else
              xbind (xlift (Some (header_cmd fl cmd))) (\<lambda>r.
                case r of
                  Some v \<Rightarrow> xret v
                | None \<Rightarrow>
                    xbind (xget (\<lambda>xr. if suppressEncryption then None else map_option (\<lambda>t. t num gen) (xr_encrypt xr))) (\<lambda>c.
                    xbind (xlift (parser_getObj fl n (ps\<lparr>ps_cipher := c\<rparr>))) (\<lambda>(v, _).
                      if is_stream v then xret v
                      else xbind (xmod (cache_set num v)) (\<lambda>_. xret v))))
        | _ \<Rightarrow> xfail (JsError ''XRefEntryException'')))))) xr"

definition fetchUncompressed :: "rounding \<Rightarrow> nat \<Rightarrow> fetch \<Rightarrow> ref \<Rightarrow> xref_entry \<Rightarrow> bool \<Rightarrow> pobj xm" where
  "fetchUncompressed fl n look r e suppressEncryption xr =
     (let p = xe_offset e + int (s_start (xr_stream xr))
      in if xe_gen e \<noteq> r_gen r \<and> \<not> (xr_generationFallback xr \<and> xe_gen e < r_gen r)
         then xfail (JsError ''XRefEntryException'') xr
         else if p < 0 then None
         else read_object fl n look suppressEncryption (r_num r) (xe_gen e) (makeSubStream (Some (nat p)) None (xr_stream xr)) xr)"

subsection \<open>Object streams\<close>

text \<open>
  The numbers and offsets at the start of an object stream.  An entry of the table that
  points into the stream is set right if it has another index.
\<close>

definition fix_gen :: "int \<Rightarrow> int \<Rightarrow> int \<Rightarrow> xref \<Rightarrow> xref" where
  "fix_gen tableOffset num i xr =
     (case getEntry num xr of
        Some e \<Rightarrow>
          if xe_offset e = tableOffset \<and> xe_gen e \<noteq> i
          then xr\<lparr>xr_entries := AList.update num (e\<lparr>xe_gen := i\<rparr>) (xr_entries xr)\<rparr>
          else xr
      | None \<Rightarrow> xr)"

function objstm_header :: "rounding \<Rightarrow> nat \<Rightarrow> int \<Rightarrow> int \<Rightarrow> int \<Rightarrow> (int \<times> int) list \<Rightarrow> parser \<Rightarrow> ((int \<times> int) list) xm" where
  "objstm_header fl k tableOffset n i acc ps xr =
     (if i < n then
        (xbind (xlift (parser_getObj fl k ps)) (\<lambda>(num, ps).
           case obj_int num of
             None \<Rightarrow> xfail (FormatError ''invalid object number in the ObjStm stream'')
           | Some num \<Rightarrow>
               xbind (xlift (parser_getObj fl k ps)) (\<lambda>(offset, ps).
                 case obj_int offset of
                   None \<Rightarrow> xfail (FormatError ''invalid object offset in the ObjStm stream'')
                 | Some offset \<Rightarrow>
                     xbind (xmod (fix_gen tableOffset num i)) (\<lambda>_.
                     objstm_header fl k tableOffset n (i + 1) (acc @ [(num, offset)]) ps)))) xr
      else xret acc xr)"
  by pat_completeness auto

termination
  by (relation "measure (\<lambda>(fl, k, tableOffset, n, i, acc, ps, xr). nat (n - i))") auto

declare objstm_header.simps [simp del]

definition cache_member :: "int \<Rightarrow> int \<Rightarrow> int \<Rightarrow> pobj \<Rightarrow> xref \<Rightarrow> xref" where
  "cache_member tableOffset num i v xr =
     (case entry_at xr num of
        Some e \<Rightarrow> if xe_offset e = tableOffset \<and> xe_gen e = i \<and> \<not> is_stream v then cache_set num v xr else xr
      | None \<Rightarrow> xr)"

fun objstm_members :: "rounding \<Rightarrow> nat \<Rightarrow> fetch \<Rightarrow> stream \<Rightarrow> int \<Rightarrow> int \<Rightarrow> int \<Rightarrow> (int \<times> int) list \<Rightarrow> (pobj list) xm" where
  "objstm_members fl k look s tableOffset start i [] xr = xret [] xr"
| "objstm_members fl k look s tableOffset start i ((num, offset) # rs) xr =
     (let len = (case rs of [] \<Rightarrow> None | (_, next) # _ \<Rightarrow> Some (next - offset))
      in if (\<exists>l \<in> set_option len. l < 0) then xfail (FormatError ''Invalid offset in the ObjStm stream.'') xr
         else if start + offset < 0 then None
         else
           (xbind (xlift (Some (mk_parser fl (mk_lexer (makeSubStream (Some (nat (start + offset))) (map_option nat len) s) None)
               look True False None))) (\<lambda>ps.
            xbind (xlift (parser_getObj fl k ps)) (\<lambda>(v, _).
            xbind (xmod (cache_member tableOffset num i v)) (\<lambda>_.
            xbind (objstm_members fl k look s tableOffset start (i + 1) rs) (\<lambda>vs.
            xret (v # vs)))))) xr)"

definition read_objstm :: "rounding \<Rightarrow> nat \<Rightarrow> fetch \<Rightarrow> (entries \<Rightarrow> bytes \<Rightarrow> stream) \<Rightarrow> ref \<Rightarrow> int \<Rightarrow> fetched \<Rightarrow> pobj xm" where
  "read_objstm fl k look opened r tableOffset v =
     (case v of
        Fetched (PStream m bs) \<Rightarrow>
          (case (obj_int (dict_get look False m (js ''First'')), obj_int (dict_get look False m (js ''N''))) of
             (Some first, Some n) \<Rightarrow>
               xbind (xlift (Some (mk_parser fl (mk_lexer (opened m bs) None) look True False None))) (\<lambda>ps.
                 if n < 0 \<or> 2 ^ 32 \<le> n then xfail RangeError
                 else
                   xbind (objstm_header fl k tableOffset n 0 [] ps) (\<lambda>rs.
                   xbind (objstm_members fl k look (opened m bs) tableOffset (int (s_start (opened m bs)) + first) 0 rs) (\<lambda>vs.
                   xbind (xget (\<lambda>xr. case entry_at xr (r_num r) of Some e \<Rightarrow> xe_gen e | None \<Rightarrow> -1)) (\<lambda>i.
                     if 0 \<le> i \<and> i < int (length vs) then xret (vs ! nat i) else xfail (JsError ''XRefEntryException'')))))
           | _ \<Rightarrow> xfail (FormatError ''invalid first and n parameters for ObjStm stream''))
      | _ \<Rightarrow> xfail (FormatError ''bad ObjStm stream''))"

subsection \<open>fetch\<close>

definition set_pending :: "(ref_set \<Rightarrow> ref_set) \<Rightarrow> xref \<Rightarrow> xref" where
  "set_pending f xr = xr\<lparr>xr_pending := f (xr_pending xr)\<rparr>"

text \<open>\<open>try ... catch (ex) { remove; throw }\<close> around the reading of an object\<close>

definition end_pending :: "ref \<Rightarrow> 'a xm \<Rightarrow> 'a xm" where
  "end_pending r m xr = map_option (\<lambda>(y, xr1). (y, set_pending (refset_remove r) xr1)) (m xr)"

lemma end_pending_cong [fundef_cong]: "m xr = m' xr' \<Longrightarrow> xr = xr' \<Longrightarrow> r = r' \<Longrightarrow> end_pending r m xr = end_pending r' m' xr'"
  by (simp add: end_pending_def)

definition cached :: "xref \<Rightarrow> int \<Rightarrow> pobj option" where
  "cached xr num = (case map_of (xr_cache xr) num of Some v \<Rightarrow> if v = PUndef then None else Some v | None \<Rightarrow> None)"

fun xref_fetch :: "rounding \<Rightarrow> nat \<Rightarrow> fetch \<Rightarrow> (entries \<Rightarrow> bytes \<Rightarrow> stream) \<Rightarrow> nat \<Rightarrow> ref \<Rightarrow> bool \<Rightarrow> fetched xm" where
  "xref_fetch fl n look opened 0 r suppressEncryption xr = None"
| "xref_fetch fl n look opened (Suc k) r suppressEncryption xr =
     (case cached xr (r_num r) of
        Some v \<Rightarrow> xret (Fetched v) xr
      | None \<Rightarrow>
          (case getEntry (r_num r) xr of
             None \<Rightarrow> xret (Fetched PNull) xr
           | Some e \<Rightarrow>
               if refset_has (xr_pending xr) r then xret CircularRef (set_pending (refset_remove r) xr)
               else
                 (xbind (xmod (set_pending (refset_put r))) (\<lambda>_.
                  xbind (end_pending r
                    (if xe_uncompressed e then fetchUncompressed fl n look r e suppressEncryption
                     else (\<lambda>xr. (xbind (xref_fetch fl n look opened k \<lparr>r_num = xe_offset e, r_gen = 0\<rparr> False)
                       (read_objstm fl n look opened r (xe_offset e))) xr))) (\<lambda>v.
                  xret (Fetched v)))) xr))"

end
