(* ===== verification/Tokens.thy ===== *)
theory Tokens
  imports Writer
begin

text \<open>
  The lexer reads back what the writer puts out: names, strings, integers and keywords, each
  up to the delimiter that follows it.  The lemmas that involve numbers are proved for every
  rounding that is exact on the integers below \<open>2 ^ 53\<close>.
\<close>

section \<open>The text ahead of a lexer\<close>

definition lexer_on :: "lexer \<Rightarrow> jsstr \<Rightarrow> bool" where
  "lexer_on lx t \<longleftrightarrow> stream_ok (lx_stream lx) \<and> lx_known lx = None \<and>
     (case lx_char lx of None \<Rightarrow> t = [] \<and> rest (lx_stream lx) = [] | Some c \<Rightarrow> t = c # map unat (rest (lx_stream lx)))"

lemma lexer_on_Nil: "lexer_on lx [] \<Longrightarrow> lx_char lx = None"
  by (auto simp: lexer_on_def split: option.splits)

lemma nextChar_rest:
  assumes "stream_ok (lx_stream lx)" and "lx_known lx = None"
  shows "lexer_on (nextChar lx) (map unat (rest (lx_stream lx)))"
proof (cases "rest (lx_stream lx)")
  case Nil
  then show ?thesis using assms getByte_Nil [OF assms(1) Nil] by (simp add: nextChar_def lexer_on_def)
next
  case (Cons y ys)
  obtain s' where "getByte (lx_stream lx) = (Some y, s')" "rest s' = ys" "stream_ok s'"
    using getByte_Cons [OF assms(1) Cons] .
  then show ?thesis using assms(2) Cons by (simp add: nextChar_def lexer_on_def)
qed

lemma lexer_on_Cons:
  assumes "lexer_on lx (c # t)"
  shows "lx_char lx = Some c" and "lexer_on (nextChar lx) t"
  using assms nextChar_rest [of lx] by (auto simp: lexer_on_def split: option.splits)

lemma mk_lexer_on: "lexer_on (mk_lexer (mk_stream bs None None) None) (map unat bs)"
  using nextChar_rest [of "\<lparr>lx_stream = mk_stream bs None None, lx_char = None, lx_known = None, lx_beginPos = None\<rparr>"]
  by (simp add: mk_lexer_def)

lemma peekChar_on:
  assumes "lexer_on lx (c # t)"
  shows "peekChar lx = (case t of [] \<Rightarrow> None | d # _ \<Rightarrow> Some d)"
proof -
  have "stream_ok (lx_stream lx)" "t = map unat (rest (lx_stream lx))" using assms by (auto simp: lexer_on_def split: option.splits)
  then show ?thesis by (simp add: peekChar_def peekByte_spec split: list.split)
qed

subsection \<open>Special characters\<close>

lemma specialChars_eq:
  "specialChars = map (\<lambda>c. if c \<in> {0, 9, 10, 12, 13, 32} then 1 else if c \<in> {37, 40, 41, 47, 60, 62, 91, 93, 123, 125} then 2 else 0) [0..<256]"
  unfolding specialChars_def by (simp add: upt_rec)

lemma special_char:
  "c < 256 \<Longrightarrow> specialChars ! c =
     (if c \<in> {0, 9, 10, 12, 13, 32} then 1 else if c \<in> {37, 40, 41, 47, 60, 62, 91, 93, 123, 125} then 2 else 0)"
  unfolding specialChars_eq by simp

text \<open>The end of a token: the end of the data, white space or a delimiter.\<close>

definition delim :: "jsstr \<Rightarrow> bool" where
  "delim t \<longleftrightarrow> t = [] \<or> hd t \<in> {0, 9, 10, 12, 13, 32, 37, 40, 41, 47, 60, 62, 91, 93, 123, 125}"

lemma delim_Cons [simp]: "delim (c # t) \<longleftrightarrow> c \<in> {0, 9, 10, 12, 13, 32, 37, 40, 41, 47, 60, 62, 91, 93, 123, 125}"
  by (simp add: delim_def)

section \<open>Names\<close>

definition esc_name :: "nat \<Rightarrow> jsstr" where
  "esc_name c = (if name_char_escaped c then 0x23 # padStart 2 48 (nat_hex c) else [c])"

lemma escape_steps:
  assumes "n \<le> length str"
  shows "\<exists>buf start. foldl (escape_step str) ([], 0) [0..<n] = (buf, start) \<and> start \<le> n \<and>
    concat buf @ take (n - start) (drop start str) = concat (map esc_name (take n str)) \<and> (buf = [] \<longrightarrow> start = 0)"
  using assms
proof (induction n)
  case (Suc n)
  then obtain buf start where b: "foldl (escape_step str) ([], 0) [0..<n] = (buf, start)" "start \<le> n"
      "concat buf @ take (n - start) (drop start str) = concat (map esc_name (take n str))" "buf = [] \<longrightarrow> start = 0" by auto
  have t: "take (Suc n) str = take n str @ [str ! n]" using Suc.prems by (simp add: take_Suc_conv_app_nth)
  have step: "foldl (escape_step str) ([], 0) [0..<Suc n] = escape_step str (buf, start) n" using b(1) by simp
  show ?case
  proof (cases "name_char_escaped (str ! n)")
    case True
    then have "esc_name (str ! n) = 0x23 # padStart 2 48 (nat_hex (str ! n))" by (simp add: esc_name_def)
    then show ?thesis using True b t by (auto simp: step escape_step_def [of str "(buf, start)" n])
  next
    case False
    then have "esc_name (str ! n) = [str ! n]" by (simp add: esc_name_def)
    moreover have "take (Suc n - start) (drop start str) = take (n - start) (drop start str) @ [str ! n]"
      using b(2) Suc.prems by (simp add: Suc_diff_le take_Suc_conv_app_nth)
    ultimately show ?thesis using False b t by (auto simp: step escape_step_def [of str "(buf, start)" n] simp flip: append_assoc)
  qed
qed simp

lemma escapePDFName_eq: "escapePDFName str = concat (map esc_name str)"
proof -
  obtain buf start where b: "foldl (escape_step str) ([], 0) [0..<length str] = (buf, start)" "start \<le> length str"
      "concat buf @ take (length str - start) (drop start str) = concat (map esc_name str)" "buf = [] \<longrightarrow> start = 0"
    using escape_steps [of "length str" str] by auto
  then show ?thesis by (auto simp: escapePDFName_def Let_def)
qed

definition hexd :: "nat \<Rightarrow> nat" where
  "hexd d = (if d < 10 then 48 + d else 87 + d)"

lemma hexd_digit:
  assumes "d < 16"
  shows "toHexDigit (Some (hexd d)) = Some d" and "hexd d < 256" and "specialChars ! hexd d = 0"
proof -
  have "d = 0 \<or> d = 1 \<or> d = 2 \<or> d = 3 \<or> d = 4 \<or> d = 5 \<or> d = 6 \<or> d = 7 \<or>
      d = 8 \<or> d = 9 \<or> d = 10 \<or> d = 11 \<or> d = 12 \<or> d = 13 \<or> d = 14 \<or> d = 15" using assms by presburger
  then show "toHexDigit (Some (hexd d)) = Some d" "hexd d < 256" "specialChars ! hexd d = 0"
    by (auto simp: toHexDigit_def hexd_def special_char)
qed

lemma nat_hex_pair:
  assumes "c < 256"
  shows "padStart 2 48 (nat_hex c) = [hexd (c div 16), hexd (c mod 16)]"
proof (cases "c < 16")
  case True
  then show ?thesis by (simp add: nat_hex.simps padStart_def hexd_def Let_def)
next
  case False
  have "c div 16 < 16" using assms by auto
  then have "nat_hex (c div 16) = [hexd (c div 16)]" by (simp add: nat_hex.simps [of "c div 16"] hexd_def Let_def)
  then show ?thesis using False by (simp add: nat_hex.simps [of c] padStart_def hexd_def Let_def)
qed

lemma hex_pair_value: "y < 16 \<Longrightarrow> push_bit 4 x OR y = 16 * x + (y :: nat)"
  using or_push_bit [of y 4 x] by (simp add: or.commute)

lemma name_loop_on:
  assumes "lexer_on lx (c0 # concat (map esc_name s) @ t)" and "list_all (\<lambda>c. c < 256) s" and "delim t"
  shows "\<exists>lx'. name_loop buf lx = (buf @ s, lx') \<and> lexer_on lx' t"
  using assms
proof (induction s arbitrary: lx c0 buf)
  case Nil
  then have on: "lexer_on (nextChar lx) t" using lexer_on_Cons(2) by fastforce
  show ?case
  proof (cases t)
    case Nil
    with on show ?thesis by (subst name_loop.simps) (simp add: lexer_on_Nil)
  next
    case (Cons d u)
    then have "specialChars ! d \<noteq> 0" using Nil.prems(3) by (auto simp: special_char)
    with on Cons show ?thesis using lexer_on_Cons(1) [of "nextChar lx" d u] by (subst name_loop.simps) simp
  qed
next
  case (Cons c s)
  have c: "c < 256" using Cons.prems(2) by simp
  let ?u = "concat (map esc_name s) @ t"
  have on: "lexer_on (nextChar lx) (esc_name c @ ?u)" using lexer_on_Cons(2) [OF Cons.prems(1)] by simp
  show ?case
  proof (cases "name_char_escaped c")
    case True
    let ?h = "hexd (c div 16)" and ?l = "hexd (c mod 16)"
    have d: "c div 16 < 16" "c mod 16 < 16" using c by auto
    have on: "lexer_on (nextChar lx) (0x23 # ?h # ?l # ?u)" using on True nat_hex_pair [OF c] by (simp add: esc_name_def [of c])
    note n1 = lexer_on_Cons [OF on]
    note n2 = lexer_on_Cons [OF n1(2)]
    note n3 = lexer_on_Cons(1) [OF n2(2)]
    have "name_loop buf lx = name_loop (buf @ [c]) (nextChar (nextChar (nextChar lx)))"
      using n1(1) n2(1) n3 hexd_digit [OF d(1)] hexd_digit [OF d(2)] hex_pair_value [OF d(2), of "c div 16"]
      by (subst name_loop.simps) (simp add: Let_def special_def special_char)
    then show ?thesis using Cons.IH [OF n2(2), of "buf @ [c]"] Cons.prems by simp
  next
    case False
    have on: "lexer_on (nextChar lx) (c # ?u)" using on False by (simp add: esc_name_def [of c])
    have "specialChars ! c = 0" "c \<noteq> 0x23" using False c by (auto simp: special_char name_char_escaped_def)
    then have "name_loop buf lx = name_loop (buf @ [c]) (nextChar lx)"
      using lexer_on_Cons(1) [OF on] by (subst name_loop.simps) (simp add: Let_def)
    then show ?thesis using Cons.IH [OF on, of "buf @ [c]"] Cons.prems by simp
  qed
qed

section \<open>Strings\<close>

definition esc_char :: "nat \<Rightarrow> jsstr" where
  "esc_char c = (if c = 0x0a then [0x5c, 0x6e] else if c = 0x0d then [0x5c, 0x72]
     else if c = 0x28 \<or> c = 0x29 \<or> c = 0x5c then [0x5c, c] else [c])"

lemma escapeString_eq: "escapeString s = concat (map esc_char s)"
  unfolding escapeString_def esc_char_def ..

lemma string_loop_on:
  assumes "lexer_on lx (concat (map esc_char s) @ 0x29 # t)"
  shows "\<exists>lx'. string_loop 1 buf lx = (buf @ s, lx') \<and> lexer_on lx' t"
  using assms
proof (induction s arbitrary: lx buf)
  case Nil
  then show ?case using lexer_on_Cons [of lx "0x29" t] by (subst string_loop.simps) simp
next
  case (Cons c s)
  let ?u = "concat (map esc_char s) @ 0x29 # t"
  show ?case
  proof (cases "c \<in> {0x0a, 0x0d, 0x28, 0x29, 0x5c}")
    case True
    define e where "e = (if c = 0x0a then 0x6e else if c = 0x0d then 0x72 else c)"
    have on: "lexer_on lx (0x5c # e # ?u)" using Cons.prems True by (auto simp: esc_char_def [of c] e_def)
    note n1 = lexer_on_Cons [OF on]
    note n2 = lexer_on_Cons [OF n1(2)]
    have "\<not> is_octal (Some e)" "e \<noteq> 0x0d" "simple_escape e = [c]" using True by (auto simp: e_def is_octal_def simple_escape_def)
    then have "string_loop 1 buf lx = string_loop 1 (buf @ [c]) (nextChar (nextChar lx))"
      using n1(1) n2(1) by (subst string_loop.simps) simp
    then show ?thesis using Cons.IH [OF n2(2), of "buf @ [c]"] by simp
  next
    case False
    then have on: "lexer_on lx (c # ?u)" using Cons.prems by (simp add: esc_char_def [of c])
    then have "string_loop 1 buf lx = string_loop 1 (buf @ [c]) (nextChar lx)"
      using False lexer_on_Cons(1) [OF on] by (subst string_loop.simps) simp
    then show ?thesis using Cons.IH [OF lexer_on_Cons(2) [OF on], of "buf @ [c]"] by simp
  qed
qed

section \<open>Keywords\<close>

lemma command_loop_on:
  assumes "lexer_on lx (c # ws @ t)" and "list_all (\<lambda>c. c < 256 \<and> specialChars ! c = 0) ws" and "delim t" and "length str + length ws \<le> 128"
  shows "\<exists>lx'. command_loop str False lx = Inr (str @ ws, lx') \<and> lexer_on lx' t"
  using assms
proof (induction ws arbitrary: lx c str)
  case Nil
  then have on: "lexer_on (nextChar lx) t" using lexer_on_Cons(2) by fastforce
  show ?case
  proof (cases t)
    case Nil
    with on show ?thesis by (subst command_loop.simps) (simp add: lexer_on_Nil)
  next
    case (Cons d u)
    then have "specialChars ! d \<noteq> 0" using Nil.prems(3) by (auto simp: special_char)
    with on Cons show ?thesis using lexer_on_Cons(1) [of "nextChar lx" d u] by (subst command_loop.simps) simp
  qed
next
  case (Cons w ws)
  have on: "lexer_on (nextChar lx) (w # ws @ t)" using lexer_on_Cons(2) [OF Cons.prems(1)] by simp
  have "\<not> known_command lx p" for p using Cons.prems(1) by (simp add: known_command_def lexer_on_def)
  then have "command_loop str False lx = command_loop (str @ [w]) False (nextChar lx)"
    using lexer_on_Cons(1) [OF on] Cons.prems by (subst command_loop.simps) (simp add: Let_def)
  then show ?case using Cons.IH [OF on, of "str @ [w]"] Cons.prems by simp
qed

section \<open>Tokens\<close>

text \<open>\<open>lexes fl lx ts lx'\<close>: the next tokens are \<open>ts\<close>, and the lexer is then \<open>lx'\<close>.\<close>

fun lexes :: "rounding \<Rightarrow> lexer \<Rightarrow> pobj list \<Rightarrow> lexer \<Rightarrow> bool" where
  "lexes fl lx [] lx' \<longleftrightarrow> lx' = lx"
| "lexes fl lx (t # ts) lx' \<longleftrightarrow> (\<exists>lx1. lexer_getObj fl lx = Inr (t, lx1) \<and> lexes fl lx1 ts lx')"

lemma lexes_append: "lexes fl lx ts lx1 \<Longrightarrow> lexes fl lx1 us lx2 \<Longrightarrow> lexes fl lx (ts @ us) lx2"
  by (induction ts arbitrary: lx) auto

lemma skip_space_stop:
  "lexer_on lx (c # t) \<Longrightarrow> c < 256 \<Longrightarrow> c \<notin> {0, 9, 10, 12, 13, 32, 37} \<Longrightarrow> skip_space False lx = lx"
  by (subst skip_space.simps) (auto simp: lexer_on_Cons(1) special_char)

lemma skip_space_white:
  assumes "lexer_on lx (c # t)" and "c \<in> {0, 9, 10, 12, 13, 32}"
  shows "skip_space False lx = skip_space False (nextChar lx)"
  using assms lexer_on_Cons(1) [OF assms(1)] by (subst skip_space.simps) (auto simp: special_char)

lemma lexes_white:
  assumes "lexer_on lx (c # t)" and "c \<in> {0, 9, 10, 12, 13, 32}" and "ts \<noteq> []" and "lexes fl (nextChar lx) ts lx'"
  shows "lexes fl lx ts lx'"
  using assms(3,4) skip_space_white [OF assms(1,2)] by (cases ts) (auto simp: lexer_getObj_def)

lemma name_token:
  assumes "lexer_on lx (0x2f # concat (map esc_name s) @ t)" and "list_all (\<lambda>c. c < 256) s" and "delim t"
  shows "\<exists>lx'. lexer_getObj fl lx = Inr (PName s, lx') \<and> lexer_on lx' t"
  using name_loop_on [OF assms, of "[]"] skip_space_stop [OF assms(1)] lexer_on_Cons(1) [OF assms(1)]
  by (auto simp: lexer_getObj_def getName_def)

lemma string_token:
  assumes "lexer_on lx (0x28 # concat (map esc_char s) @ 0x29 # t)"
  shows "\<exists>lx'. lexer_getObj fl lx = Inr (PStr s, lx') \<and> lexer_on lx' t"
  using string_loop_on [OF lexer_on_Cons(2) [OF assms], of "[]"] skip_space_stop [OF assms] lexer_on_Cons(1) [OF assms]
  by (auto simp: lexer_getObj_def lexer_getString_def)

lemma bracket_token:
  assumes "lexer_on lx (c # t)" and "c = 0x5b \<or> c = 0x5d"
  shows "\<exists>lx'. lexer_getObj fl lx = Inr (PCmd [c], lx') \<and> lexer_on lx' t"
  using skip_space_stop [OF assms(1)] lexer_on_Cons [OF assms(1)] assms(2)
  by (auto simp: lexer_getObj_def)

lemma angle_token:
  assumes "lexer_on lx (c # c # t)" and "c = 0x3c \<or> c = 0x3e"
  shows "\<exists>lx'. lexer_getObj fl lx = Inr (PCmd [c, c], lx') \<and> lexer_on lx' t"
  using skip_space_stop [OF assms(1)] lexer_on_Cons [OF assms(1)] lexer_on_Cons [OF lexer_on_Cons(2) [OF assms(1)]] assms(2)
  by (auto simp: lexer_getObj_def Let_def)

definition word_value :: "jsstr \<Rightarrow> pobj" where
  "word_value s = (if s = js ''true'' then PBool True else if s = js ''false'' then PBool False
     else if s = js ''null'' then PNull else PCmd s)"

lemma word_token:
  assumes "lexer_on lx (c # ws @ t)" and "0x41 \<le> c" "c \<le> 0x7a" "c \<noteq> 0x5b" "c \<noteq> 0x5d"
    and "list_all (\<lambda>c. c < 256 \<and> specialChars ! c = 0) ws" and "delim t" and "length ws < 128"
  shows "\<exists>lx'. lexer_getObj fl lx = Inr (word_value (c # ws), lx') \<and> lexer_on lx' t"
proof -
  have ch: "lx_char lx = Some c" "skip_space False lx = lx" using lexer_on_Cons(1) [OF assms(1)] skip_space_stop [OF assms(1)] assms(2,3) by auto
  have k: "known_command lx [c] = False" using assms(1) by (simp add: known_command_def lexer_on_def)
  obtain lx1 where lx1: "command_loop [c] False lx = Inr (c # ws, lx1)" "lexer_on lx1 t"
    using command_loop_on [OF assms(1,6,7), of "[c]"] assms(8) by auto
  have w: "\<exists>lx'. word_object (c # ws) lx1 = (word_value (c # ws), lx') \<and> lexer_on lx' t"
  proof -
    have "lexer_on (lx1\<lparr>lx_beginPos := p\<rparr>) t" for p using lx1(2) by (cases "lx_char lx1") (simp_all add: lexer_on_def)
    then show ?thesis using lx1(2) by (simp add: word_object_def word_value_def)
  qed
  have "getCommand c lx = Inr (word_object (c # ws) lx1)"
    using assms(2,3) k lx1(1) by (simp add: getCommand_def)
  moreover have "lexer_getObj fl lx = getCommand c lx"
    using ch assms(2-5) by (simp add: lexer_getObj_def)
  ultimately show ?thesis using w by auto
qed

section \<open>Integers\<close>

locale exact_integers =
  fixes fl :: rounding
  assumes exact: "\<bar>i\<bar> < 2 ^ 53 \<Longrightarrow> fl (of_int i) = Num (of_int i)"
begin

lemma exact_nat: "n < 2 ^ 53 \<Longrightarrow> fl (of_nat n) = Num (of_nat n)"
  using exact [of "int n"] by simp

lemma exact_neg_nat: "n < 2 ^ 53 \<Longrightarrow> fl (- of_nat n) = Num (- of_nat n)"
  using exact [of "- int n"] by simp

lemma digits_loop_on:
  assumes "lexer_on lx (c0 # ds @ t)" and "list_all dec_digit ds" and "delim t"
    and "foldl (\<lambda>a c. a * 10 + (c - 48)) b ds < 2 ^ 53"
  shows "\<exists>lx'. digits_loop fl (Num (of_nat b)) (Num 0) lx = (Num (of_nat (foldl (\<lambda>a c. a * 10 + (c - 48)) b ds)), Num 0, lx') \<and> lexer_on lx' t"
  using assms
proof (induction ds arbitrary: lx c0 b)
  case Nil
  then have on: "lexer_on (nextChar lx) t" using lexer_on_Cons(2) by fastforce
  show ?case
  proof (cases t)
    case Nil
    with on show ?thesis by (subst digits_loop.simps) (simp add: lexer_on_Nil)
  next
    case (Cons d u)
    with on Nil.prems(3) show ?thesis using lexer_on_Cons(1) [of "nextChar lx" d u] by (subst digits_loop.simps) auto
  qed
next
  case (Cons d ds)
  let ?b = "b * 10 + (d - 48)"
  have on: "lexer_on (nextChar lx) (d # ds @ t)" using lexer_on_Cons(2) [OF Cons.prems(1)] by simp
  have mono: "b' \<le> foldl (\<lambda>a c. a * 10 + (c - 48)) b' ds" for b' :: nat and ds :: "nat list"
  proof (induction ds arbitrary: b')
    case (Cons c ds)
    have "b' \<le> b' * 10 + (c - 48)" by simp
    also have "\<dots> \<le> foldl (\<lambda>a c. a * 10 + (c - 48)) (b' * 10 + (c - 48)) ds" by (rule Cons)
    finally show ?case by simp
  qed simp
  have "?b < 2 ^ 53" using mono [of ?b ds] Cons.prems(4) by simp
  then have ex: "fl (of_nat (b * 10)) = Num (of_nat (b * 10))" "fl (of_nat ?b) = Num (of_nat ?b)"
    by (intro exact_nat; linarith)+
  have "digits_loop fl (Num (of_nat b)) (Num 0) lx = digits_loop fl (Num (of_nat ?b)) (Num 0) (nextChar lx)"
    using lexer_on_Cons(1) [OF on] Cons.prems(2) ex by (subst digits_loop.simps) (simp add: Let_def dec_digit_def add_diff_eq)
  then show ?case using Cons.IH [OF on, of ?b] Cons.prems by simp
qed

lemma foldl_dec: "foldl (\<lambda>a c. a * 10 + (c - 48)) 0 ds = dec_val ds"
  by (simp add: dec_val_def digits_val_def foldl_map)

lemma number_value_on:
  assumes "lexer_on lx (ds @ t)" and "list_all dec_digit ds" and "ds \<noteq> []" and "delim t" and "dec_val ds < 2 ^ 53"
  shows "\<exists>lx'. number_value fl sg (Num 0) lx = Inr (num_mul fl (Num sg) (Num (of_nat (dec_val ds))), lx') \<and> lexer_on lx' t"
proof -
  obtain d es where d: "ds = d # es" using assms(3) by (cases ds) auto
  have dg: "dec_digit d" "list_all dec_digit es" using assms(2) d by auto
  have v: "foldl (\<lambda>a c. a * 10 + (c - 48)) (d - 48) es = dec_val ds" using foldl_dec [of "d # es"] d by simp
  have on: "lexer_on lx (d # es @ t)" using assms(1) d by simp
  obtain lx' where "digits_loop fl (Num (of_nat (d - 48))) (Num 0) lx = (Num (of_nat (dec_val ds)), Num 0, lx')" "lexer_on lx' t"
    using digits_loop_on [OF on dg(2) assms(4), of "d - 48"] v assms(5) by auto
  then show ?thesis using lexer_on_Cons(1) [OF on] dg(1) by (simp add: number_value_def is_digit_def dec_digit_def)
qed

lemma skip_newlines_digit: "lexer_on lx (d # t) \<Longrightarrow> dec_digit d \<Longrightarrow> skip_newlines lx = lx \<and> lx_char lx = Some d"
  using lexer_on_Cons(1) [of lx d t] by (subst skip_newlines.simps) (auto simp: dec_digit_def)

lemma digits_token:
  assumes "lexer_on lx (ds @ t)" and "list_all dec_digit ds" and "ds \<noteq> []" and "delim t" and "dec_val ds < 2 ^ 53"
  shows "\<exists>lx'. lexer_getObj fl lx = Inr (PNum (Num (of_nat (dec_val ds))), lx') \<and> lexer_on lx' t"
proof -
  obtain d es where d: "ds = d # es" using assms(3) by (cases ds) auto
  have dg: "48 \<le> d" "d \<le> 57" using assms(2) d by (auto simp: dec_digit_def)
  have ch: "lx_char lx = Some d" "skip_newlines lx = lx"
    using skip_newlines_digit [of lx d "es @ t"] assms(1,2) d by auto
  have "number_sign lx = (1, lx)" using ch(1) dg by (simp add: number_sign_def)
  then have "getNumber fl lx = number_value fl 1 (Num 0) lx" using ch dg by (simp add: getNumber_def)
  moreover obtain lx' where "number_value fl 1 (Num 0) lx = Inr (fl (of_nat (dec_val ds)), lx')" "lexer_on lx' t"
    using number_value_on [OF assms, of 1] by auto
  moreover have "skip_space False lx = lx" using skip_space_stop [of lx d "es @ t"] assms(1) d dg by simp
  ultimately show ?thesis using ch(1) dg exact_nat [OF assms(5)] by (simp add: lexer_getObj_def)
qed

lemma int_token:
  assumes "lexer_on lx (int_dec i @ t)" and "delim t" and "\<bar>i\<bar> < 2 ^ 53"
  shows "\<exists>lx'. lexer_getObj fl lx = Inr (PNum (Num (of_int i)), lx') \<and> lexer_on lx' t"
proof (cases "i < 0")
  case False
  then show ?thesis
    using digits_token [OF _ nat_dec_digits nat_dec_nonempty(1) assms(2), of lx "nat i"] assms(1,3)
    by (simp add: int_dec_def nat_less_iff)
next
  case True
  let ?n = "nat (- i)"
  have n: "?n < 2 ^ 53" using assms(3) True by (simp add: nat_less_iff)
  obtain d ds where d: "nat_dec ?n = d # ds" "dec_digit d" using nat_dec_digits [of ?n] by (cases "nat_dec ?n") auto
  have on: "lexer_on lx (45 # nat_dec ?n @ t)" using assms(1) True by (simp add: int_dec_def)
  have on1: "lexer_on (nextChar lx) (nat_dec ?n @ t)" using lexer_on_Cons(2) [OF on] .
  have ch: "lx_char (nextChar lx) = Some d" "skip_newlines (nextChar lx) = nextChar lx"
    using skip_newlines_digit [of "nextChar lx" d "ds @ t"] on1 d by auto
  have dg: "48 \<le> d" "d \<le> 57" using d(2) by (auto simp: dec_digit_def)
  have "number_sign lx = (-1, nextChar lx)" using lexer_on_Cons(1) [OF on] ch(1) dg by (simp add: number_sign_def)
  then have "getNumber fl lx = number_value fl (-1) (Num 0) (nextChar lx)" using ch dg by (simp add: getNumber_def)
  moreover obtain lx' where "number_value fl (-1) (Num 0) (nextChar lx) = Inr (fl (- of_nat ?n), lx')" "lexer_on lx' t"
    using number_value_on [OF on1 nat_dec_digits nat_dec_nonempty(1) assms(2), of "-1"] n by auto
  moreover have "fl (- of_nat ?n) = Num (of_int i)" using exact_neg_nat [OF n] True by simp
  ultimately show ?thesis
    using lexer_on_Cons(1) [OF on] skip_space_stop [OF on] by (simp add: lexer_getObj_def)
qed

end

lemma fl64_minus: "fl64 (- x) = num_neg (fl64 x)"
  by (auto simp: fl64_def Let_def)

interpretation doubles: exact_integers fl64
proof
  fix i :: int
  assume "\<bar>i\<bar> < 2 ^ 53"
  then have "fl64 (of_nat (nat \<bar>i\<bar>)) = Num (of_nat (nat \<bar>i\<bar>))" by (intro fl64_nat) (simp add: nat_less_iff)
  then show "fl64 (of_int i) = Num (of_int i)"
    using fl64_minus [of "of_nat (nat \<bar>i\<bar>)"] by (cases "i < 0") simp_all
qed

interpretation exact: exact_integers Num
  by unfold_locales simp

end
