(* ===== verification/Parse_Print.thy ===== *)
theory Parse_Print
  imports Parser Tokens
begin

text \<open>
  What the parser does with tokens, for the proof that it reads back what the writer writes: tokens of a
  value, followed by two that do not continue it, parse to the value, encrypted or not, for every kind of
  value without streams.  \<open>Object_Roundtrip\<close> shows that the text the writer prints lexes to such tokens, and
  \<open>Fetch_Roundtrip\<close> puts both together.
\<close>

section \<open>Ciphers\<close>

text \<open>The cipher class that a transform uses for strings; \<open>None\<close> without encryption.\<close>

definition has_class :: "transform option \<Rightarrow> cipher_class option \<Rightarrow> bool" where
  "has_class c K \<longleftrightarrow> (case c of None \<Rightarrow> K = None | Some t \<Rightarrow> \<exists>cls t'. K = Some cls \<and> getCipher (tr_string t) t = Inr (cls, t'))"

lemma getCipher_class:
  assumes "getCipher (tr_string t) t = Inr (cls, t')"
  shows "has_class (Some t') (Some cls)"
  using getCipher_again [OF assms] by (auto simp: has_class_def)

lemma encryptString_class:
  assumes "encryptString iv s t = Inr (e, t')" and "has_class (Some t) K"
  shows "has_class (Some t') K" and "list_all (\<lambda>c. c < 256) e"
proof -
  obtain cls t1 where g: "getCipher (tr_string t) t = Inr (cls, t1)" and K: "K = Some cls"
    using assms(2) by (auto simp: has_class_def)
  have b: "list_all (\<lambda>c. c < 256) (bytesToString bs)" for bs
    by (simp add: bytesToString_eq list_all_iff u8_less)
  obtain c where "new_cipher cls = Inr c" using assms(1) g by (auto simp: encryptString_def rbind_eq_Inr)
  then have "t' = t1 \<and> (\<exists>bs. e = bytesToString bs)"
    using assms(1) g by (cases c) (auto simp: encryptString_def Let_def)
  then show "has_class (Some t') K" "list_all (\<lambda>c. c < 256) e" using getCipher_class [OF g] K b by auto
qed

lemma decryptString_class:
  assumes "encryptString iv s t = Inr (e, t')" and "length iv = 16" and "list_all (\<lambda>c. c < 256) s"
    and "has_class (Some t) K" and "has_class (Some u) K"
  shows "\<exists>u'. decryptString e u = Inr (s, u') \<and> has_class (Some u') K"
proof -
  obtain cls t1 where g: "getCipher (tr_string t) t = Inr (cls, t1)" and K: "K = Some cls" using assms(4) by (auto simp: has_class_def)
  obtain u1 where u: "getCipher (tr_string u) u = Inr (cls, u1)" using assms(5) K by (auto simp: has_class_def)
  have t': "has_class (Some t') K" using encryptString_class(1) [OF assms(1,4)] .
  then obtain t2 where t2: "getCipher (tr_string t') t' = Inr (cls, t2)" using K by (auto simp: has_class_def)
  have "decryptString e t' = Inr (s, t')" using string_roundtrip_aux [OF assms(1-3)] .
  then have "decryptString e u = Inr (s, u1)" using t2 u by (auto simp: decryptString_def rbind_eq_Inr)
  then show ?thesis using getCipher_class [OF u] K by auto
qed

section \<open>Parsing tokens\<close>

definition parser_at :: "rounding \<Rightarrow> parser \<Rightarrow> pobj list \<Rightarrow> lexer \<Rightarrow> bool" where
  "parser_at fl ps ts lx \<longleftrightarrow> (\<exists>t1 t2 us. ts = t1 # t2 # us \<and> ps_buf1 ps = t1 \<and> ps_buf2 ps = t2 \<and> lexes fl (ps_lexer ps) us lx)"

lemma parser_at_bufs: "parser_at fl ps (t1 # t2 # ts) lx \<Longrightarrow> ps_buf1 ps = t1 \<and> ps_buf2 ps = t2"
  by (simp add: parser_at_def)

lemma parser_shift_at:
  assumes "parser_at fl ps (t1 # t2 # t3 # ts) lx" and "t2 \<noteq> PCmd (js ''ID'')"
  shows "\<exists>ps'. parser_shift fl ps = Inr ps' \<and> parser_at fl ps' (t2 # t3 # ts) lx \<and> ps_cipher ps' = ps_cipher ps"
  using assms by (auto simp: parser_at_def parser_shift_def isCmd_def split: pobj.splits)

text \<open>Two tokens that do not continue the value before them.\<close>

definition good :: "pobj \<Rightarrow> pobj \<Rightarrow> bool" where
  "good a b \<longleftrightarrow> a \<noteq> PCmd (js ''R'') \<and> a \<noteq> PCmd (js ''ID'') \<and> a \<noteq> PCmd (js ''stream'') \<and> b \<noteq> PCmd (js ''R'')"

definition parses :: "rounding \<Rightarrow> cipher_class option \<Rightarrow> pobj list \<Rightarrow> pobj \<Rightarrow> nat \<Rightarrow> bool" where
  "parses fl K ts v k \<longleftrightarrow> (\<forall>n ps a b us lx. k \<le> n \<longrightarrow> parser_at fl ps (ts @ a # b # us) lx \<longrightarrow> good a b \<longrightarrow> has_class (ps_cipher ps) K \<longrightarrow>
     (\<exists>ps'. parser_getObj fl n ps = Some (Inr (v, ps')) \<and> parser_at fl ps' (a # b # us) lx \<and> has_class (ps_cipher ps') K))"

text \<open>How the tokens of a value start.\<close>

fun opens :: "pobj \<Rightarrow> bool" where
  "opens (PCmd c) \<longleftrightarrow> c = js ''['' \<or> c = js ''<<''"
| "opens PEOF \<longleftrightarrow> False"
| "opens _ \<longleftrightarrow> True"

lemma opens_simps:
  assumes "opens t"
  shows "t \<noteq> PCmd (js ''R'')" "t \<noteq> PCmd (js ''ID'')" "t \<noteq> PCmd (js ''stream'')" "t \<noteq> PEOF"
    "\<not> isCmd t (Some (js '']''))" "\<not> isCmd t (Some (js ''>>''))" "t \<noteq> PCmd (js ''BI'')"
  using assms by (cases t; auto simp: isCmd_def)+

definition starts_value :: "pobj list \<Rightarrow> bool" where
  "starts_value ts \<longleftrightarrow> ts \<noteq> [] \<and> opens (hd ts) \<and> (1 < length ts \<longrightarrow> ts ! 1 \<noteq> PCmd (js ''R''))"

lemma starts_list_hd:
  assumes "list_all starts_value tss" and "e \<noteq> PCmd (js ''R'')"
  shows "\<exists>h hs. concat tss @ e # us = h # hs \<and> h \<noteq> PCmd (js ''R'')"
proof (cases tss)
  case (Cons t tss')
  then have "starts_value t" using assms(1) by simp
  then show ?thesis using Cons opens_simps(1) by (cases t) (auto simp: starts_value_def)
qed (use assms in simp)

lemma starts_list:
  assumes "list_all starts_value tss" and "good e a"
  shows "\<exists>p q zs. concat tss @ e # a # us = p # q # zs \<and> good p q"
proof (cases tss)
  case Nil
  then show ?thesis using assms(2) by simp
next
  case (Cons t tss')
  have sv: "starts_value t" "list_all starts_value tss'" using assms(1) Cons by auto
  obtain h hs where h: "concat tss' @ e # a # us = h # hs" "h \<noteq> PCmd (js ''R'')"
    using starts_list_hd [OF sv(2), of e "a # us"] assms(2) by (auto simp: good_def)
  obtain x t' where t: "t = x # t'" "opens x" using sv(1) by (cases t) (auto simp: starts_value_def)
  show ?thesis
  proof (cases t')
    case Nil
    then show ?thesis using Cons t h opens_simps [OF t(2)] by (simp add: good_def)
  next
    case (Cons y ys)
    then show ?thesis using \<open>tss = t # tss'\<close> t sv(1) opens_simps [OF t(2)] by (simp add: good_def starts_value_def)
  qed
qed

lemma parser_at_opens: "parser_at fl ps (ts @ us) lx \<Longrightarrow> starts_value ts \<Longrightarrow> opens (ps_buf1 ps)"
  by (cases ts) (auto simp: parser_at_def starts_value_def)

lemma parses_next:
  assumes "parses fl K ts v k" and "parser_at fl ps (ts @ concat tss @ e # a # us) lx" and "list_all starts_value tss" and "good e a"
    and "has_class (ps_cipher ps) K" and "k \<le> n"
  shows "\<exists>ps'. parser_getObj fl n ps = Some (Inr (v, ps')) \<and> parser_at fl ps' (concat tss @ e # a # us) lx \<and> has_class (ps_cipher ps') K"
proof -
  obtain p q zs where "concat tss @ e # a # us = p # q # zs" "good p q" using starts_list [OF assms(3,4)] by blast
  with assms show ?thesis unfolding parses_def by metis
qed

lemma array_loop_parses:
  assumes "list_all (\<lambda>(ts, v, k). starts_value ts \<and> parses fl K ts v k \<and> k \<le> kmax) xs"
    and "parser_at fl ps (concat (map fst xs) @ PCmd (js '']'') # a # b # us) lx" and "good a b" and "has_class (ps_cipher ps) K"
    and "kmax + length xs < n"
  shows "\<exists>ps'. array_loop fl n acc ps = Some (Inr (PArr (acc @ map (fst \<circ> snd) xs), ps')) \<and> parser_at fl ps' (a # b # us) lx \<and> has_class (ps_cipher ps') K"
  using assms
proof (induction xs arbitrary: n acc ps)
  case Nil
  obtain n' where n: "n = Suc n'" using Nil.prems(5) by (cases n) auto
  have at: "parser_at fl ps (PCmd (js '']'') # a # b # us) lx" using Nil.prems(2) by simp
  obtain ps' where "parser_shift fl ps = Inr ps'" "parser_at fl ps' (a # b # us) lx" "ps_cipher ps' = ps_cipher ps"
    using parser_shift_at [OF at] Nil.prems(3) by (auto simp: good_def)
  then show ?case using n Nil.prems(4) parser_at_bufs [OF at] by (simp add: isCmd_def)
next
  case (Cons x xs)
  obtain ts v k where x: "x = (ts, v, k)" by (cases x)
  have tv: "starts_value ts" "parses fl K ts v k" "k \<le> kmax" using Cons.prems(1) x by auto
  obtain n' where n: "n = Suc n'" using Cons.prems(5) by (cases n) auto
  have at: "parser_at fl ps (ts @ concat (map fst xs) @ PCmd (js '']'') # a # b # us) lx" using Cons.prems(2) x by simp
  have sv: "list_all starts_value (map fst xs)" using Cons.prems(1) by (auto simp: list_all_iff)
  have g: "good (PCmd (js '']'')) a" using Cons.prems(3) by (simp add: good_def)
  obtain ps1 where ps1: "parser_getObj fl n' ps = Some (Inr (v, ps1))"
      "parser_at fl ps1 (concat (map fst xs) @ PCmd (js '']'') # a # b # us) lx" "has_class (ps_cipher ps1) K"
    using parses_next [OF tv(2) at sv g Cons.prems(4), of n'] tv(3) Cons.prems(5) n by auto
  have "array_loop fl n acc ps = array_loop fl n' (acc @ [v]) ps1"
    using n opens_simps [OF parser_at_opens [OF at tv(1)]] ps1(1) by simp
  then show ?case using Cons.IH [OF _ ps1(2) Cons.prems(3) ps1(3), of n' "acc @ [v]"] Cons.prems(1,5) n x by simp
qed

lemma update_fresh: "k \<notin> fst ` set m \<Longrightarrow> AList.update k v m = m @ [(k, v)]"
  by (induction m) auto

fun entry_toks :: "jsstr \<times> pobj list \<times> pobj \<times> nat \<Rightarrow> pobj list" where
  "entry_toks (key, ts, v, k) = PName key # ts"

fun entry_pair :: "jsstr \<times> pobj list \<times> pobj \<times> nat \<Rightarrow> jsstr \<times> pobj" where
  "entry_pair (key, ts, v, k) = (key, v)"

lemma dict_loop_parses:
  assumes "list_all (\<lambda>(key, ts, v, k). starts_value ts \<and> parses fl K ts v k \<and> k \<le> kmax) xs"
    and "parser_at fl ps (concat (map entry_toks xs) @ PCmd (js ''>>'') # a # b # us) lx"
    and "good a b" and "has_class (ps_cipher ps) K" and "kmax + length xs < n" and "distinct (map fst m @ map fst xs)"
  shows "\<exists>ps'. dict_loop fl n m ps = Some (Inr (PDict (m @ map entry_pair xs) False, ps')) \<and>
    parser_at fl ps' (a # b # us) lx \<and> has_class (ps_cipher ps') K"
  using assms
proof (induction xs arbitrary: n m ps)
  case Nil
  obtain n' where n: "n = Suc n'" using Nil.prems(5) by (cases n) auto
  have at: "parser_at fl ps (PCmd (js ''>>'') # a # b # us) lx" using Nil.prems(2) by simp
  obtain ps' where "parser_shift fl ps = Inr ps'" "parser_at fl ps' (a # b # us) lx" "ps_cipher ps' = ps_cipher ps"
    using parser_shift_at [OF at] Nil.prems(3) by (auto simp: good_def)
  then show ?case using n Nil.prems(3,4) parser_at_bufs [OF at] by (auto simp: isCmd_def good_def split: pobj.splits)
next
  case (Cons x xs)
  obtain key ts v k where x: "x = (key, ts, v, k)" by (cases x)
  have tv: "starts_value ts" "parses fl K ts v k" "k \<le> kmax" using Cons.prems(1) x by auto
  obtain n' where n: "n = Suc n'" using Cons.prems(5) by (cases n) auto
  let ?r = "concat (map entry_toks xs) @ PCmd (js ''>>'') # a # b # us"
  have at: "parser_at fl ps (PName key # ts @ ?r) lx" using Cons.prems(2) x by simp
  define tss where "tss = concat (map (\<lambda>(key, ts, v, k). [[PName key], ts]) xs)"
  have tss: "concat tss = concat (map entry_toks xs)"
    unfolding tss_def by (induction xs) (auto split: prod.splits)
  have sv: "list_all starts_value tss" using Cons.prems(1) by (auto simp: tss_def list_all_iff starts_value_def)
  have g: "good (PCmd (js ''>>'')) a" using Cons.prems(3) by (simp add: good_def)
  obtain t1 t where t: "ts = t1 # t" "opens t1" using tv(1) by (cases ts) (auto simp: starts_value_def)
  obtain ps0 where ps0: "parser_shift fl ps = Inr ps0" "parser_at fl ps0 (ts @ ?r) lx" "ps_cipher ps0 = ps_cipher ps"
  proof -
    obtain q r where "t @ ?r = q # r" by (cases "t @ ?r") auto
    then show ?thesis using parser_shift_at [of fl ps "PName key" t1 q r lx] at t opens_simps [OF t(2)] that by auto
  qed
  obtain ps1 where ps1: "parser_getObj fl n' ps0 = Some (Inr (v, ps1))" "parser_at fl ps1 ?r lx" "has_class (ps_cipher ps1) K"
    using parses_next [OF tv(2) _ sv g, of ps0 "b # us" lx n'] ps0(2,3) tss tv(3) Cons.prems(4,5) n by auto
  have b: "ps_buf1 ps = PName key" using at by (auto simp: parser_at_def)
  have b0: "ps_buf1 ps0 \<noteq> PEOF" using opens_simps(4) [OF parser_at_opens [OF ps0(2) tv(1)]] .
  have k: "dict_set key v m = m @ [(key, v)]" using Cons.prems(6) x by (simp add: dict_set_def update_fresh)
  have "dict_loop fl n m ps = dict_loop fl n' (m @ [(key, v)]) ps1" using n b b0 ps0(1) ps1(1) k by (simp add: isCmd_def)
  then show ?case using Cons.IH [OF _ ps1(2) Cons.prems(3) ps1(3), of n' "m @ [(key, v)]"] Cons.prems(1,5,6) n x by simp
qed

subsection \<open>Single tokens\<close>

lemma parsesI:
  assumes "\<And>n ps a b us lx. parser_at fl ps (ts @ a # b # us) lx \<Longrightarrow> good a b \<Longrightarrow> has_class (ps_cipher ps) K \<Longrightarrow> k \<le> n \<Longrightarrow>
    \<exists>ps'. parser_getObj fl (Suc n) ps = Some (Inr (v, ps')) \<and> parser_at fl ps' (a # b # us) lx \<and> has_class (ps_cipher ps') K"
  shows "parses fl K ts v (Suc k)"
  unfolding parses_def using assms by (metis Suc_le_D Suc_le_mono)

lemma simple_parses:
  assumes "t = PNull \<or> (\<exists>b. t = PBool b) \<or> (\<exists>s. t = PName s)"
  shows "parses fl K [t] t (Suc 0)"
proof (rule parsesI)
  fix n ps a b us lx
  assume h: "parser_at fl ps ([t] @ a # b # us) lx" "good a b" "has_class (ps_cipher ps) K"
  then obtain ps' where "parser_shift fl ps = Inr ps'" "parser_at fl ps' (a # b # us) lx" "ps_cipher ps' = ps_cipher ps"
    using parser_shift_at [of fl ps t a b us lx] by (auto simp: good_def)
  then show "\<exists>ps'. parser_getObj fl (Suc n) ps = Some (Inr (t, ps')) \<and> parser_at fl ps' (a # b # us) lx \<and> has_class (ps_cipher ps') K"
    using h parser_at_bufs [of fl ps t a "b # us" lx] assms by auto
qed

lemma obj_int_Num [simp]: "obj_int (PNum (Num (of_int i))) = Some i"
  by (simp add: obj_int_def num_isInteger_def)

lemma int_parses: "parses fl K [PNum (Num (of_int i))] (PNum (Num (of_int i))) (Suc 0)"
proof (rule parsesI)
  fix n ps a b us lx
  let ?t = "PNum (Num (of_int i))"
  assume h: "parser_at fl ps ([?t] @ a # b # us) lx" "good a b" "has_class (ps_cipher ps) K"
  then obtain ps' where ps': "parser_shift fl ps = Inr ps'" "parser_at fl ps' (a # b # us) lx" "ps_cipher ps' = ps_cipher ps"
    using parser_shift_at [of fl ps ?t a b us lx] by (auto simp: good_def)
  have "\<not> isCmd (ps_buf2 ps') (Some (js ''R''))"
    using h(2) parser_at_bufs [OF ps'(2)] by (auto simp: good_def isCmd_def split: pobj.splits)
  then show "\<exists>ps'. parser_getObj fl (Suc n) ps = Some (Inr (?t, ps')) \<and> parser_at fl ps' (a # b # us) lx \<and> has_class (ps_cipher ps') K"
    using ps' h parser_at_bufs [of fl ps ?t a "b # us" lx] by (auto split: option.split)
qed

lemma ref_parses:
  "parses fl K [PNum (Num (of_int (r_num r))), PNum (Num (of_int (r_gen r))), PCmd (js ''R'')] (PRef r) (Suc 0)"
proof (rule parsesI)
  fix n ps a b us lx
  let ?n = "PNum (Num (of_int (r_num r)))" and ?g = "PNum (Num (of_int (r_gen r)))" and ?R = "PCmd (js ''R'')"
  assume h: "parser_at fl ps ([?n, ?g, ?R] @ a # b # us) lx" "good a b" "has_class (ps_cipher ps) K"
  obtain ps1 where ps1: "parser_shift fl ps = Inr ps1" "parser_at fl ps1 (?g # ?R # a # b # us) lx" "ps_cipher ps1 = ps_cipher ps"
    using parser_shift_at [of fl ps ?n ?g ?R "a # b # us" lx] h(1) by auto
  obtain ps2 where ps2: "parser_shift fl ps1 = Inr ps2" "parser_at fl ps2 (?R # a # b # us) lx" "ps_cipher ps2 = ps_cipher ps1"
    using parser_shift_at [of fl ps1 ?g ?R a "b # us" lx] ps1(2) by auto
  obtain ps3 where ps3: "parser_shift fl ps2 = Inr ps3" "parser_at fl ps3 (a # b # us) lx" "ps_cipher ps3 = ps_cipher ps2"
    using parser_shift_at [of fl ps2 ?R a b us lx] ps2(2) h(2) by (auto simp: good_def)
  have "ps_buf1 ps = ?n" "ps_buf1 ps1 = ?g" "ps_buf2 ps1 = ?R" using h(1) parser_at_bufs [OF ps1(2)] by (auto simp: parser_at_def)
  then show "\<exists>ps'. parser_getObj fl (Suc n) ps = Some (Inr (PRef r, ps')) \<and> parser_at fl ps' (a # b # us) lx \<and> has_class (ps_cipher ps') K"
    using ps1 ps2 ps3 h(3) by (simp add: isCmd_def)
qed

text \<open>What decrypts to a string, under every transform of the class.\<close>

definition opens_to :: "cipher_class option \<Rightarrow> jsstr \<Rightarrow> jsstr \<Rightarrow> bool" where
  "opens_to K e s \<longleftrightarrow> (\<forall>c. has_class c K \<longrightarrow> (case c of None \<Rightarrow> e = s
     | Some t \<Rightarrow> \<exists>t'. decryptString e t = Inr (s, t') \<and> has_class (Some t') K))"

lemma string_parses:
  assumes "opens_to K e s"
  shows "parses fl K [PStr e] (PStr s) (Suc 0)"
proof (rule parsesI)
  fix n ps a b us lx
  assume h: "parser_at fl ps ([PStr e] @ a # b # us) lx" "good a b" "has_class (ps_cipher ps) K"
  then obtain ps' where ps': "parser_shift fl ps = Inr ps'" "parser_at fl ps' (a # b # us) lx" "ps_cipher ps' = ps_cipher ps"
    using parser_shift_at [of fl ps "PStr e" a b us lx] by (auto simp: good_def)
  have b: "ps_buf1 ps = PStr e" using h(1) by (simp add: parser_at_def)
  show "\<exists>ps'. parser_getObj fl (Suc n) ps = Some (Inr (PStr s, ps')) \<and> parser_at fl ps' (a # b # us) lx \<and> has_class (ps_cipher ps') K"
  proof (cases "ps_cipher ps")
    case None
    then have "e = s" using assms h(3) by (auto simp: opens_to_def)
    then show ?thesis using None ps' b h(3) by simp
  next
    case (Some t)
    then obtain t' where "decryptString e t = Inr (s, t')" "has_class (Some t') K"
      using assms h(3) unfolding opens_to_def by fastforce
    then show ?thesis using Some ps' b by (auto simp: parser_at_def)
  qed
qed

lemma array_parses:
  assumes "list_all (\<lambda>(ts, v, k). starts_value ts \<and> parses fl K ts v k \<and> k \<le> kmax) xs"
  shows "parses fl K (PCmd (js ''['') # concat (map fst xs) @ [PCmd (js '']'')]) (PArr (map (fst \<circ> snd) xs)) (Suc (Suc (kmax + length xs)))"
proof (rule parsesI)
  fix n ps a b us lx
  let ?ts = "concat (map fst xs) @ PCmd (js '']'') # a # b # us"
  assume h: "parser_at fl ps ((PCmd (js ''['') # concat (map fst xs) @ [PCmd (js '']'')]) @ a # b # us) lx" "good a b"
    "has_class (ps_cipher ps) K" "Suc (kmax + length xs) \<le> n"
  have sv: "list_all starts_value (map fst xs)" using assms by (auto simp: list_all_iff)
  obtain p q zs where pq: "?ts = p # q # zs" "good p q" using starts_list [OF sv, of "PCmd (js '']'')" a "b # us"] h(2) by (auto simp: good_def)
  have at: "parser_at fl ps (PCmd (js ''['') # p # q # zs) lx" using h(1) by (simp add: pq(1) [simplified])
  obtain ps1 where ps1: "parser_shift fl ps = Inr ps1" "parser_at fl ps1 ?ts lx" "ps_cipher ps1 = ps_cipher ps"
    using parser_shift_at [OF at] pq by (auto simp: good_def)
  show "\<exists>ps'. parser_getObj fl (Suc n) ps = Some (Inr (PArr (map (fst \<circ> snd) xs), ps')) \<and> parser_at fl ps' (a # b # us) lx \<and> has_class (ps_cipher ps') K"
    using array_loop_parses [OF assms ps1(2) h(2), of n "[]"] ps1 h(3,4) parser_at_bufs [OF at] by simp
qed

lemma dict_parses:
  assumes "list_all (\<lambda>(key, ts, v, k). starts_value ts \<and> parses fl K ts v k \<and> k \<le> kmax) xs" and "distinct (map fst xs)"
  shows "parses fl K (PCmd (js ''<<'') # concat (map entry_toks xs) @ [PCmd (js ''>>'')]) (PDict (map entry_pair xs) False) (Suc (Suc (kmax + length xs)))"
proof (rule parsesI)
  fix n ps a b us lx
  let ?ts = "concat (map entry_toks xs) @ PCmd (js ''>>'') # a # b # us"
  assume h: "parser_at fl ps ((PCmd (js ''<<'') # concat (map entry_toks xs) @ [PCmd (js ''>>'')]) @ a # b # us) lx" "good a b"
    "has_class (ps_cipher ps) K" "Suc (kmax + length xs) \<le> n"
  obtain p q zs where pq: "?ts = p # q # zs" "p \<noteq> PCmd (js ''ID'')"
  proof (cases xs)
    case (Cons x ys)
    obtain key ts v k where x: "x = (key, ts, v, k)" by (cases x)
    have "ts \<noteq> []" using assms(1) Cons x by (simp add: starts_value_def)
    then show ?thesis using that [of "PName key" "hd ts" "tl ts @ concat (map entry_toks ys) @ PCmd (js ''>>'') # a # b # us"] Cons x by simp
  qed (use that in auto)
  have at: "parser_at fl ps (PCmd (js ''<<'') # p # q # zs) lx" using h(1) by (simp add: pq(1) [simplified])
  obtain ps1 where ps1: "parser_shift fl ps = Inr ps1" "parser_at fl ps1 ?ts lx" "ps_cipher ps1 = ps_cipher ps"
    using parser_shift_at [OF at] pq by auto
  show "\<exists>ps'. parser_getObj fl (Suc n) ps = Some (Inr (PDict (map entry_pair xs) False, ps')) \<and> parser_at fl ps' (a # b # us) lx \<and> has_class (ps_cipher ps') K"
    using dict_loop_parses [OF assms(1) ps1(2) h(2), of n "[]"] ps1 h(3,4) assms(2) parser_at_bufs [OF at] by simp
qed

end
