(* ===== verification/Object_Roundtrip.thy ===== *)
theory Object_Roundtrip
  imports Parse_Print
begin

text \<open>
  The text of a value is made of tokens that parse to the value: the writer of
  \<open>core/writer.js\<close> against the lexer and the parser.
\<close>

section \<open>Texts and their tokens\<close>

definition lexable :: "rounding \<Rightarrow> jsstr \<Rightarrow> pobj list \<Rightarrow> bool" where
  "lexable fl tx ts \<longleftrightarrow> ts \<noteq> [] \<and> tx \<noteq> [] \<and> list_all (\<lambda>c. c < 256) tx \<and>
     (\<forall>lx t. lexer_on lx (tx @ t) \<longrightarrow> delim t \<longrightarrow> (\<exists>lx'. lexes fl lx ts lx' \<and> lexer_on lx' t))"

lemma lexableI:
  assumes "tx \<noteq> []" and "list_all (\<lambda>c. c < 256) tx"
    and "\<And>lx t. lexer_on lx (tx @ t) \<Longrightarrow> delim t \<Longrightarrow> \<exists>lx'. lexer_getObj fl lx = Inr (tok, lx') \<and> lexer_on lx' t"
  shows "lexable fl tx [tok]"
  using assms unfolding lexable_def by auto

lemma lexableD:
  "lexable fl tx ts \<Longrightarrow> lexer_on lx (tx @ t) \<Longrightarrow> delim t \<Longrightarrow> \<exists>lx'. lexes fl lx ts lx' \<and> lexer_on lx' t"
  unfolding lexable_def by blast

lemma lexable_append:
  assumes "lexable fl a ts" and "lexable fl b us" and "delim b"
  shows "lexable fl (a @ b) (ts @ us)"
proof -
  have "b \<noteq> []" using assms(2) by (simp add: lexable_def)
  then have d: "delim (b @ t)" for t using assms(3) by (cases b) auto
  have "\<exists>lx'. lexes fl lx (ts @ us) lx' \<and> lexer_on lx' t" if h: "lexer_on lx ((a @ b) @ t)" "delim t" for lx t
  proof -
    obtain lx1 where "lexes fl lx ts lx1" "lexer_on lx1 (b @ t)" using lexableD [OF assms(1), of lx "b @ t"] h(1) d by auto
    moreover obtain lx2 where "lexes fl lx1 us lx2" "lexer_on lx2 t" using lexableD [OF assms(2) calculation(2) h(2)] by blast
    ultimately show ?thesis using lexes_append by blast
  qed
  then show ?thesis using assms by (simp add: lexable_def)
qed

lemma lexable_white:
  assumes "lexable fl b ts" and "c \<in> {0, 9, 10, 12, 13, 32}"
  shows "lexable fl (c # b) ts"
proof -
  have "\<exists>lx'. lexes fl lx ts lx' \<and> lexer_on lx' t" if h: "lexer_on lx ((c # b) @ t)" "delim t" for lx t
  proof -
    have on: "lexer_on lx (c # b @ t)" using h(1) by simp
    obtain lx' where "lexes fl (nextChar lx) ts lx'" "lexer_on lx' t"
      using lexableD [OF assms(1) lexer_on_Cons(2) [OF on] h(2)] by blast
    then show ?thesis using lexes_white [OF on assms(2)] assms(1) by (auto simp: lexable_def)
  qed
  then show ?thesis using assms by (auto simp: lexable_def)
qed

lemma lexable_open:
  assumes "lexable fl b ts" and "\<And>lx t. lexer_on lx (p @ t) \<Longrightarrow> \<exists>lx'. lexer_getObj fl lx = Inr (tok, lx') \<and> lexer_on lx' t"
    and "list_all (\<lambda>c. c < 256) p"
  shows "lexable fl (p @ b) (tok # ts)"
proof -
  have "\<exists>lx'. lexes fl lx (tok # ts) lx' \<and> lexer_on lx' t" if h: "lexer_on lx ((p @ b) @ t)" "delim t" for lx t
  proof -
    obtain lx1 where "lexer_getObj fl lx = Inr (tok, lx1)" "lexer_on lx1 (b @ t)"
      using assms(2) [of lx "b @ t"] h(1) by auto
    then show ?thesis using lexableD [OF assms(1) _ h(2)] by auto
  qed
  then show ?thesis using assms(1,3) by (simp add: lexable_def)
qed

lemma lexable_bracket:
  assumes "lexable fl b ts"
  shows "lexable fl (js ''['' @ b) (PCmd (js ''['') # ts)"
  using assms by (rule lexable_open) (use bracket_token [of _ "0x5b"] in simp_all)

lemma lexable_angles:
  assumes "lexable fl b ts"
  shows "lexable fl (js ''<<'' @ b) (PCmd (js ''<<'') # ts)"
  using assms by (rule lexable_open) (use angle_token [of _ "0x3c"] in simp_all)

lemma lexable_close: "lexable fl (js '']'') [PCmd (js '']'')]" "lexable fl (js ''>>'') [PCmd (js ''>>'')]"
  by (rule lexableI; use bracket_token [of _ "0x5d"] angle_token [of _ "0x3e"] in simp)+

lemma nat_hex_chars: "n < 256 \<Longrightarrow> list_all (\<lambda>c. c < 256) (padStart 2 48 (nat_hex n))"
  using hexd_digit(2) [of "n div 16"] hexd_digit(2) [of "n mod 16"] by (simp add: nat_hex_pair)

lemma esc_chars: "list_all (\<lambda>c. c < 256) s \<Longrightarrow> list_all (\<lambda>c. c < 256) (concat (map esc_name s))"
    "list_all (\<lambda>c. c < 256) s \<Longrightarrow> list_all (\<lambda>c. c < 256) (concat (map esc_char s))"
  using nat_hex_chars by (induction s) (auto simp: esc_name_def esc_char_def)

lemma lexable_name:
  assumes "list_all (\<lambda>c. c < 256) s"
  shows "lexable fl (0x2f # escapePDFName s) [PName s]"
  by (rule lexableI) (use name_token [of _ s] assms in \<open>simp_all add: escapePDFName_eq esc_chars\<close>)

lemma lexable_string:
  assumes "list_all (\<lambda>c. c < 256) s"
  shows "lexable fl (0x28 # escapeString s @ [0x29]) [PStr s]"
  by (rule lexableI) (use string_token [of _ s] assms in \<open>simp_all add: escapeString_eq esc_chars\<close>)

lemma lexable_word:
  assumes "list_all (\<lambda>c. 0x61 \<le> c \<and> c \<le> 0x7a \<or> c = 0x52) (c # ws)" and "length ws < 128"
  shows "lexable fl (c # ws) [word_value (c # ws)]"
proof (rule lexableI)
  show "list_all (\<lambda>c. c < 256) (c # ws)" using assms(1) by (auto simp: list_all_iff)
next
  fix lx t
  assume h: "lexer_on lx ((c # ws) @ t)" "delim t"
  have "list_all (\<lambda>c. c < 256 \<and> specialChars ! c = 0) ws" using assms(1) by (auto simp: list_all_iff special_char)
  then show "\<exists>lx'. lexer_getObj fl lx = Inr (word_value (c # ws), lx') \<and> lexer_on lx' t"
    using word_token [of lx c ws t fl] h assms by auto
qed simp

context exact_integers
begin

lemma lexable_int:
  assumes "\<bar>i\<bar> < 2 ^ 53"
  shows "lexable fl (int_dec i) [PNum (Num (of_int i))]"
proof (rule lexableI)
  show "list_all (\<lambda>c. c < 256) (int_dec i)"
    using nat_dec_digits [of "nat i"] nat_dec_digits [of "nat (- i)"] by (auto simp: int_dec_def list_all_iff dec_digit_def)
qed (use int_token assms in auto)

lemma lexable_ref:
  assumes "\<bar>r_num r\<bar> < 2 ^ 53" and "\<bar>r_gen r\<bar> < 2 ^ 53"
  shows "lexable fl (int_dec (r_num r) @ 32 # int_dec (r_gen r) @ js '' R'')
    [PNum (Num (of_int (r_num r))), PNum (Num (of_int (r_gen r))), PCmd (js ''R'')]"
proof -
  have "lexable fl (js '' R'') [PCmd (js ''R'')]"
    using lexable_white [OF lexable_word [of "0x52" "[]"], of 32] by (simp add: word_value_def)
  then have "lexable fl (int_dec (r_gen r) @ js '' R'') ([PNum (Num (of_int (r_gen r)))] @ [PCmd (js ''R'')])"
    by (intro lexable_append [OF lexable_int [OF assms(2)]]) simp_all
  from lexable_append [OF lexable_int [OF assms(1)] lexable_white [OF this, of 32]] show ?thesis by simp
qed

end

lemma int_dec_toFixed:
  assumes "\<bar>i\<bar> < 2 ^ 53"
  shows "numberToPDFString (Num (of_int i)) = int_dec i"
proof -
  have fl: "\<lfloor>\<bar>of_int i :: rat\<bar> * 10 ^ 10 + 1 / 2\<rfloor> = \<bar>i\<bar> * 10 ^ 10"
    by (rule floor_unique) simp_all
  have n: "nat (\<bar>i\<bar> * 10 ^ 10) = nat \<bar>i\<bar> * 10 ^ 10" by (simp add: nat_mult_distrib)
  have "(of_int \<bar>i\<bar> :: rat) < of_int (2 ^ 53)" using assms by (simp only: of_int_less_iff)
  then have small: "\<not> (10 ^ 21 \<le> \<bar>of_int i :: rat\<bar>)" by simp
  have pad: "padStart 10 48 (nat_dec 0) = replicate 10 48" by (simp add: nat_dec_0 padStart_def numeral_eq_Suc)
  have "toFixed10 (Num (of_int i)) = (if i < 0 then [45] else []) @ nat_dec (nat \<bar>i\<bar>) @ 46 # replicate 10 48"
    unfolding toFixed10_def js_num.case fl n Let_def using pad by simp
  moreover have "strip_zeros (s @ 46 # replicate n 48) = s" for s n
  proof -
    have "dropWhile (\<lambda>c. c = 48) (replicate n 48 @ 46 # r) = 46 # r" for r :: jsstr by (induction n) simp_all
    then show ?thesis unfolding strip_zeros_def Let_def by simp
  qed
  ultimately have "strip_zeros (toFixed10 (Num (of_int i))) = (if i < 0 then [45] else []) @ nat_dec (nat \<bar>i\<bar>)"
    by (metis append_assoc)
  then show ?thesis using small by (simp add: numberToPDFString_def num_isInteger_def int_dec_def)
qed

section \<open>What can be written and read back\<close>

text \<open>
  Values without streams, commands and suppressed dictionaries, whose numbers are integers
  that a double holds exactly and whose text has one byte per character.
\<close>

fun writable :: "pobj \<Rightarrow> bool" where
  "writable PNull \<longleftrightarrow> True"
| "writable (PBool b) \<longleftrightarrow> True"
| "writable (PNum x) \<longleftrightarrow> (case x of Num q \<Rightarrow> of_int \<lfloor>q\<rfloor> = q \<and> \<bar>q\<bar> < 2 ^ 53 | _ \<Rightarrow> False)"
| "writable (PStr s) \<longleftrightarrow> list_all (\<lambda>c. c < 256) s"
| "writable (PName s) \<longleftrightarrow> list_all (\<lambda>c. c < 256) s"
| "writable (PRef r) \<longleftrightarrow> \<bar>r_num r\<bar> < 2 ^ 53 \<and> \<bar>r_gen r\<bar> < 2 ^ 53"
| "writable (PArr vs) \<longleftrightarrow> list_all writable vs"
| "writable (PDict m b) \<longleftrightarrow> \<not> b \<and> distinct (map fst m) \<and>
     list_all (\<lambda>e. list_all (\<lambda>c. c < 256) (fst e) \<and> writable (snd e)) m"
| "writable _ \<longleftrightarrow> False"

text \<open>Values whose depth of nesting is at most the fuel of the writer.\<close>

fun nested :: "nat \<Rightarrow> pobj \<Rightarrow> bool" where
  "nested 0 v \<longleftrightarrow> False"
| "nested (Suc n) (PArr vs) \<longleftrightarrow> list_all (nested n) vs"
| "nested (Suc n) (PDict m b) \<longleftrightarrow> list_all (\<lambda>e. nested n (snd e)) m"
| "nested (Suc n) v \<longleftrightarrow> True"

definition usable_cipher :: "transform option \<Rightarrow> bool" where
  "usable_cipher c \<longleftrightarrow> (case c of None \<Rightarrow> True
     | Some t \<Rightarrow> (case getCipher (tr_string t) t of Inl _ \<Rightarrow> False
         | Inr (cls, _) \<Rightarrow> (case new_cipher cls of Inl _ \<Rightarrow> False | Inr _ \<Rightarrow> True)))"

definition usable_class :: "cipher_class option \<Rightarrow> bool" where
  "usable_class K \<longleftrightarrow> (\<forall>cls. K = Some cls \<longrightarrow> (\<exists>c. new_cipher cls = Inr c))"

lemma usable_class:
  assumes "usable_cipher c"
  obtains K where "has_class c K" and "usable_class K"
  using assms that by (cases c) (auto simp: usable_cipher_def has_class_def usable_class_def split: sum.splits)

lemma encryptString_total:
  assumes "has_class (Some t) K" and "usable_class K"
  shows "\<exists>e t'. encryptString iv s t = Inr (e, t')"
proof -
  obtain cls t1 where "getCipher (tr_string t) t = Inr (cls, t1)" "K = Some cls" using assms(1) by (auto simp: has_class_def)
  moreover obtain c where "new_cipher cls = Inr c" using assms(2) calculation by (auto simp: usable_class_def)
  ultimately show ?thesis by (cases c) (auto simp: encryptString_def Let_def)
qed

lemma encrypt_text_class:
  assumes "has_class (wr_cipher w) K" and "usable_class K" and "length (ivs (wr_drawn w)) = 16" and "list_all (\<lambda>c. c < 256) s"
  shows "\<exists>e w'. encrypt_text ivs s w = Inr (e, w') \<and> wr_buffer w' = wr_buffer w \<and> has_class (wr_cipher w') K \<and>
    opens_to K e s \<and> list_all (\<lambda>c. c < 256) e"
proof (cases "wr_cipher w")
  case None
  then have "K = None" using assms(1) by (simp add: has_class_def)
  then have "opens_to K s s" by (auto simp: opens_to_def has_class_def split: option.split)
  then show ?thesis using None assms by (simp add: encrypt_text_def)
next
  case (Some t)
  have hc: "has_class (Some t) K" using Some assms(1) by simp
  obtain e t' where e: "encryptString (ivs (wr_drawn w)) s t = Inr (e, t')" using encryptString_total [OF hc assms(2)] by blast
  have "opens_to K e s"
    using decryptString_class [OF e assms(3,4) hc] hc by (auto simp: opens_to_def has_class_def split: option.splits)
  then show ?thesis using Some e encryptString_class [OF e hc] by (simp add: encrypt_text_def)
qed

section \<open>The writer\<close>

text \<open>The text between two states of the writer, with its tokens, reads as the value.\<close>

definition writes :: "rounding \<Rightarrow> cipher_class option \<Rightarrow> writer \<Rightarrow> pobj \<Rightarrow> writer \<Rightarrow> bool" where
  "writes fl K w v w' \<longleftrightarrow> has_class (wr_cipher w') K \<and> (\<exists>tx ts k. concat (wr_buffer w') = concat (wr_buffer w) @ tx \<and>
     lexable fl tx ts \<and> starts_value ts \<and> parses fl K ts v k)"

lemma writes_push:
  assumes "has_class (wr_cipher w) K" and "lexable fl tx ts" and "starts_value ts" and "parses fl K ts v k"
  shows "writes fl K w v (push_text tx w)"
  unfolding writes_def using assms by (auto simp: push_text_def)

lemma push_text_simps [simp]:
  "concat (wr_buffer (push_text s w)) = concat (wr_buffer w) @ s" "wr_cipher (push_text s w) = wr_cipher w"
  by (simp_all add: push_text_def)

lemma write_elements_writes:
  assumes "\<And>v w. v \<in> set vs \<Longrightarrow> has_class (wr_cipher w) K \<Longrightarrow> \<exists>w'. writeValue deflate fetch ivs n v w = Some (Inr w') \<and> writes fl K w v w'"
    and "has_class (wr_cipher w) K"
  shows "\<exists>w' tx xs kmax. write_elements deflate fetch ivs n vs w = Some (Inr w') \<and> has_class (wr_cipher w') K \<and>
    concat (wr_buffer w') = concat (wr_buffer w) @ tx \<and> lexable fl (tx @ js '']'') (concat (map fst xs) @ [PCmd (js '']'')]) \<and>
    map (fst \<circ> snd) xs = vs \<and> list_all (\<lambda>(ts, v, k). starts_value ts \<and> parses fl K ts v k \<and> k \<le> kmax) xs"
  using assms
proof (induction vs arbitrary: w)
  case Nil
  then show ?case using lexable_close(1) by (intro exI [of _ w] exI [of _ "[]"]) simp
next
  case (Cons v vs)
  obtain w1 txt1 ts k where w1: "writeValue deflate fetch ivs n v w = Some (Inr w1)" "has_class (wr_cipher w1) K"
      "concat (wr_buffer w1) = concat (wr_buffer w) @ txt1" "lexable fl txt1 ts" "starts_value ts" "parses fl K ts v k"
    using Cons.prems(1) [of v w] Cons.prems(2) by (auto simp: writes_def)
  define sp where "sp = (if vs = [] then [] else js '' '')"
  define w2 where "w2 = (if vs = [] then w1 else push_text (js '' '') w1)"
  have w2: "has_class (wr_cipher w2) K" "concat (wr_buffer w2) = concat (wr_buffer w1) @ sp" using w1 by (auto simp: w2_def sp_def)
  obtain w' tx xs kmax where ih: "write_elements deflate fetch ivs n vs w2 = Some (Inr w')" "has_class (wr_cipher w') K"
      "concat (wr_buffer w') = concat (wr_buffer w2) @ tx" "lexable fl (tx @ js '']'') (concat (map fst xs) @ [PCmd (js '']'')])"
      "map (fst \<circ> snd) xs = vs" "list_all (\<lambda>(ts, v, k). starts_value ts \<and> parses fl K ts v k \<and> k \<le> kmax) xs"
    using Cons.IH [OF Cons.prems(1) w2(1)] by auto
  have "lexable fl (sp @ tx @ js '']'') (concat (map fst xs) @ [PCmd (js '']'')]) \<and> delim (sp @ tx @ js '']'')"
  proof (cases "vs = []")
    case True
    then have "tx = []" "sp = []" using ih(1,3) by (auto simp: sp_def)
    then show ?thesis using ih(4) by simp
  next
    case False
    then have "sp = [32]" by (simp add: sp_def)
    then show ?thesis using lexable_white [OF ih(4), of 32] by simp
  qed
  then have "lexable fl (txt1 @ sp @ tx @ js '']'') (ts @ concat (map fst xs) @ [PCmd (js '']'')])"
    using lexable_append [OF w1(4)] by blast
  moreover have "list_all (\<lambda>(ts, v, k). starts_value ts \<and> parses fl K ts v k \<and> k \<le> max k' kmax) xs" for k'
    using ih(6) by (auto simp: list_all_iff)
  moreover have "write_elements deflate fetch ivs n (v # vs) w = Some (Inr w')" using w1(1) ih(1) by (simp add: w2_def)
  ultimately show ?case using w1 w2 ih
    by (intro exI [of _ w'] exI [of _ "txt1 @ sp @ tx"] exI [of _ "(ts, v, k) # xs"] exI [of _ "max k kmax"]) (simp add: comp_def)
qed

lemma write_entries_writes:
  assumes "\<And>key v w. (key, v) \<in> set m \<Longrightarrow> has_class (wr_cipher w) K \<Longrightarrow>
      list_all (\<lambda>c. c < 256) key \<and> (\<exists>w'. writeValue deflate fetch ivs n v w = Some (Inr w') \<and> writes fl K w v w')"
    and "has_class (wr_cipher w) K"
  shows "\<exists>w' tx xs kmax. write_entries deflate fetch ivs n m w = Some (Inr w') \<and> has_class (wr_cipher w') K \<and>
    concat (wr_buffer w') = concat (wr_buffer w) @ tx \<and> lexable fl (tx @ js ''>>'') (concat (map entry_toks xs) @ [PCmd (js ''>>'')]) \<and>
    delim (tx @ js ''>>'') \<and> map fst xs = map fst m \<and>
    map entry_pair xs = m \<and> list_all (\<lambda>(key, ts, v, k). starts_value ts \<and> parses fl K ts v k \<and> k \<le> kmax) xs"
  using assms
proof (induction m arbitrary: w)
  case Nil
  then show ?case using lexable_close(2) by (intro exI [of _ w] exI [of _ "[]"]) simp
next
  case (Cons e m)
  obtain key v where e: "e = (key, v)" by (cases e)
  define w0 where "w0 = push_text (js '' /'' @ escapePDFName key @ js '' '') w"
  have w0: "has_class (wr_cipher w0) K" using Cons.prems(2) by (simp add: w0_def)
  have key: "list_all (\<lambda>c. c < 256) key" using Cons.prems(1) [of key v w] Cons.prems(2) e by simp
  obtain w1 txt1 ts k where w1: "writeValue deflate fetch ivs n v w0 = Some (Inr w1)" "has_class (wr_cipher w1) K"
      "concat (wr_buffer w1) = concat (wr_buffer w0) @ txt1" "lexable fl txt1 ts" "starts_value ts" "parses fl K ts v k"
    using Cons.prems(1) [of key v w0] w0 e by (auto simp: writes_def)
  obtain w' tx xs kmax where ih: "write_entries deflate fetch ivs n m w1 = Some (Inr w')" "has_class (wr_cipher w') K"
      "concat (wr_buffer w') = concat (wr_buffer w1) @ tx" "lexable fl (tx @ js ''>>'') (concat (map entry_toks xs) @ [PCmd (js ''>>'')])"
      "delim (tx @ js ''>>'')" "map fst xs = map fst m"
      "map entry_pair xs = m" "list_all (\<lambda>(key, ts, v, k). starts_value ts \<and> parses fl K ts v k \<and> k \<le> kmax) xs"
    using Cons.IH [OF Cons.prems(1) w1(2)] by auto
  let ?tx = "js '' /'' @ escapePDFName key @ js '' '' @ txt1 @ tx" and ?xs = "(key, ts, v, k) # xs"
  have "lexable fl (32 # txt1 @ tx @ js ''>>'') (ts @ concat (map entry_toks xs) @ [PCmd (js ''>>'')])"
    using lexable_white [OF lexable_append [OF w1(4) ih(4,5)], of 32] by simp
  from lexable_white [OF lexable_append [OF lexable_name [OF key] this], of 32]
  have "lexable fl (?tx @ js ''>>'') (concat (map entry_toks ?xs) @ [PCmd (js ''>>'')])" by simp
  moreover have "list_all (\<lambda>(key, ts, v, k). starts_value ts \<and> parses fl K ts v k \<and> k \<le> max k' kmax) xs" for k'
    using ih(8) by (auto simp: list_all_iff)
  moreover have "write_entries deflate fetch ivs n (e # m) w = Some (Inr w')" using w1(1) ih(1) by (simp add: w0_def e)
  moreover have "concat (wr_buffer w') = concat (wr_buffer w) @ ?tx" using w1(3) ih(3) by (simp add: w0_def)
  ultimately show ?case using w1(5,6) ih(2,6,7) e
    by (intro exI [of _ w'] exI [of _ ?tx] exI [of _ ?xs] exI [of _ "max k kmax"]) simp
qed

context exact_integers
begin

lemma writeValue_writes:
  assumes "writable v" and "has_class (wr_cipher w) K" and "usable_class K" and "\<And>i. length (ivs i) = 16" and "nested n v"
  shows "\<exists>w'. writeValue deflate fetch ivs n v w = Some (Inr w') \<and> writes fl K w v w'"
  using assms(1,2,5)
proof (induction n arbitrary: v w)
  case (Suc n)
  note step = writes_push [OF Suc.prems(2)]
  show ?case
  proof (cases v)
    case PNull
    have "lexable fl (js ''null'') [PNull]" using lexable_word [of "0x6e" "js ''ull''"] by (simp add: word_value_def)
    then show ?thesis using step [OF _ _ simple_parses] PNull by (simp add: starts_value_def)
  next
    case (PBool b)
    have "lexable fl (if b then js ''true'' else js ''false'') [PBool b]"
      using lexable_word [of "0x74" "js ''rue''"] lexable_word [of "0x66" "js ''alse''"] by (simp add: word_value_def)
    then show ?thesis using step [OF _ _ simple_parses] PBool by (simp add: starts_value_def)
  next
    case (PNum x)
    then obtain i where i: "x = Num (of_int i)" "\<bar>i\<bar> < 2 ^ 53"
    proof -
      obtain q where q: "x = Num q" "of_int \<lfloor>q\<rfloor> = q" "\<bar>q\<bar> < 2 ^ 53" using PNum Suc.prems(1) by (auto split: js_num.splits)
      have "of_int \<bar>\<lfloor>q\<rfloor>\<bar> = \<bar>q\<bar>" using q(2) by (metis of_int_abs)
      then have "of_int \<bar>\<lfloor>q\<rfloor>\<bar> < (of_int (2 ^ 53) :: rat)" using q(3) by simp
      then show thesis using that [of "\<lfloor>q\<rfloor>"] q(1,2) by (simp only: of_int_less_iff)
    qed
    show ?thesis using step [OF lexable_int [OF i(2)] _ int_parses] PNum i by (simp add: starts_value_def int_dec_toFixed)
  next
    case (PName s)
    then show ?thesis using step [OF lexable_name [of s] _ simple_parses] Suc.prems(1) by (simp add: starts_value_def)
  next
    case (PRef r)
    then show ?thesis using step [OF lexable_ref [of r] _ ref_parses] Suc.prems(1) by (simp add: starts_value_def)
  next
    case (PStr s)
    then obtain e w1 where e: "encrypt_text ivs s w = Inr (e, w1)" "wr_buffer w1 = wr_buffer w" "has_class (wr_cipher w1) K"
        "opens_to K e s" "list_all (\<lambda>c. c < 256) e"
      using encrypt_text_class [OF Suc.prems(2) assms(3), of ivs s] assms(4) Suc.prems(1) by auto
    then have "writes fl K w1 v (push_text (0x28 # escapeString e @ [0x29]) w1)"
      using writes_push [OF e(3) lexable_string [OF e(5)] _ string_parses [OF e(4)]] PStr by (simp add: starts_value_def)
    then have "writes fl K w v (push_text (0x28 # escapeString e @ [0x29]) w1)" using e(2) by (simp add: writes_def)
    then show ?thesis using PStr e(1) by simp
  next
    case (PArr vs)
    have ih: "\<exists>w'. writeValue deflate fetch ivs n u w = Some (Inr w') \<and> writes fl K w u w'"
      if "u \<in> set vs" "has_class (wr_cipher w) K" for u w
      using Suc.IH [OF _ that(2), of u] that(1) Suc.prems(1,3) PArr by (auto simp: list_all_iff)
    obtain w' tx xs kmax where w': "write_elements deflate fetch ivs n vs (push_text (js ''['') w) = Some (Inr w')" "has_class (wr_cipher w') K"
        "concat (wr_buffer w') = concat (wr_buffer w) @ js ''['' @ tx" "lexable fl (tx @ js '']'') (concat (map fst xs) @ [PCmd (js '']'')])"
        "map (fst \<circ> snd) xs = vs" "list_all (\<lambda>(ts, v, k). starts_value ts \<and> parses fl K ts v k \<and> k \<le> kmax) xs"
      using write_elements_writes [OF ih, of vs "push_text (js ''['') w"] Suc.prems(2) by auto
    have lx: "lexable fl (js ''['' @ tx @ js '']'') (PCmd (js ''['') # concat (map fst xs) @ [PCmd (js '']'')])"
      using lexable_bracket [OF w'(4)] by simp
    have sv: "starts_value (PCmd (js ''['') # concat (map fst xs) @ [PCmd (js '']'')])"
    proof -
      have "list_all starts_value (map fst xs)" using w'(6) by (auto simp: list_all_iff)
      then show ?thesis using starts_list_hd [of "map fst xs" "PCmd (js '']'')" "[]"] by (auto simp: starts_value_def)
    qed
    let ?w = "push_text (js '']'') w'"
    have "concat (wr_buffer ?w) = concat (wr_buffer w) @ js ''['' @ tx @ js '']''" using w'(3) by simp
    then have "writes fl K w v ?w" unfolding writes_def using lx sv array_parses [OF w'(6)] w'(2,5) PArr by (auto simp del: js_Cons)
    then show ?thesis using PArr w'(1) by simp
  next
    case (PDict m b)
    have m: "distinct (map fst m)" "\<not> b" using Suc.prems(1) PDict by auto
    have ih: "list_all (\<lambda>c. c < 256) key \<and> (\<exists>w'. writeValue deflate fetch ivs n u w = Some (Inr w') \<and> writes fl K w u w')"
      if "(key, u) \<in> set m" "has_class (wr_cipher w) K" for key u w
    proof -
      have "nested n u" using that(1) Suc.prems(3) PDict by (auto simp: list_all_iff)
      moreover have "list_all (\<lambda>c. c < 256) key" "writable u" using that(1) Suc.prems(1) PDict by (auto simp: list_all_iff)
      ultimately show ?thesis using Suc.IH [OF _ that(2), of u] by simp
    qed
    obtain w' tx xs kmax where w': "write_entries deflate fetch ivs n m (push_text (js ''<<'') w) = Some (Inr w')" "has_class (wr_cipher w') K"
        "concat (wr_buffer w') = concat (wr_buffer w) @ js ''<<'' @ tx" "lexable fl (tx @ js ''>>'') (concat (map entry_toks xs) @ [PCmd (js ''>>'')])"
        "map fst xs = map fst m" "map entry_pair xs = m"
        "list_all (\<lambda>(key, ts, v, k). starts_value ts \<and> parses fl K ts v k \<and> k \<le> kmax) xs"
      using write_entries_writes [OF ih, of m "push_text (js ''<<'') w"] Suc.prems(2) by auto
    have lx: "lexable fl (js ''<<'' @ tx @ js ''>>'') (PCmd (js ''<<'') # concat (map entry_toks xs) @ [PCmd (js ''>>'')])"
      using lexable_angles [OF w'(4)] by simp
    have sv: "starts_value (PCmd (js ''<<'') # concat (map entry_toks xs) @ [PCmd (js ''>>'')])"
      by (cases xs) (auto simp: starts_value_def)
    let ?w = "push_text (js ''>>'') w'"
    have "concat (wr_buffer ?w) = concat (wr_buffer w) @ js ''<<'' @ tx @ js ''>>''" using w'(3) by simp
    then have "writes fl K w v ?w"
      unfolding writes_def using lx sv dict_parses [OF w'(7)] w'(2,5,6) m PDict by (auto simp del: js_Cons)
    then show ?thesis using PDict w'(1) by simp
  qed (use Suc.prems(1) in auto)
qed simp

end

end
