(* ===== verification/Fetch_Roundtrip.thy ===== *)
theory Fetch_Roundtrip
  imports Xref Object_Roundtrip
begin

text \<open>
  An object that \<open>writeObject\<close> writes is the one that \<open>XRef.fetch\<close> reads, where the entry of the
  table points to its text.
\<close>

section \<open>Parsers at the start of tokens\<close>

lemma mk_parser_at:
  assumes "lexes fl lx (t1 # t2 # ts) lx'"
  shows "\<exists>ps. mk_parser fl lx look aS rM c = Inr ps \<and> parser_at fl ps (t1 # t2 # ts) lx' \<and> ps_cipher ps = c"
  using assms by (auto simp: mk_parser_def parser_refill_def parser_at_def)

lemma cmd_parses:
  assumes "c \<noteq> js ''BI''" "c \<noteq> js ''[''" "c \<noteq> js ''<<''"
  shows "parses fl K [PCmd c] (PCmd c) (Suc 0)"
proof (rule parsesI)
  fix n ps a b us lx
  assume h: "parser_at fl ps ([PCmd c] @ a # b # us) lx" "good a b" "has_class (ps_cipher ps) K"
  then obtain ps' where "parser_shift fl ps = Inr ps'" "parser_at fl ps' (a # b # us) lx" "ps_cipher ps' = ps_cipher ps"
    using parser_shift_at [of fl ps "PCmd c" a b us lx] by (auto simp: good_def)
  then show "\<exists>ps'. parser_getObj fl (Suc n) ps = Some (Inr (PCmd c, ps')) \<and> parser_at fl ps' (a # b # us) lx \<and> has_class (ps_cipher ps') K"
    using h parser_at_bufs [of fl ps "PCmd c" a "b # us" lx] assms by auto
qed

lemma parsesD:
  assumes "parses fl K ts v k" and "parser_at fl ps (ts @ a # b # us) lx" and "good a b" and "has_class (ps_cipher ps) K" and "k \<le> n"
  obtains ps' where "parser_getObj fl n ps = Some (Inr (v, ps'))" and "parser_at fl ps' (a # b # us) lx" and "has_class (ps_cipher ps') K"
  using assms unfolding parses_def by metis

text \<open>The text that follows an object starts with a token that does not make a reference of what precedes.\<close>

definition token_ahead :: "rounding \<Rightarrow> jsstr \<Rightarrow> bool" where
  "token_ahead fl t \<longleftrightarrow> (\<forall>lx. lexer_on lx t \<longrightarrow> (\<exists>tok lx'. lexer_getObj fl lx = Inr (tok, lx') \<and> tok \<noteq> PCmd (js ''R'')))"

lemma token_ahead_lexable:
  assumes "lexable fl tx (tok # ts)" and "tok \<noteq> PCmd (js ''R'')" and "delim t"
  shows "token_ahead fl (tx @ t)"
  using lexableD [OF assms(1) _ assms(3)] assms(2) by (fastforce simp: token_ahead_def)

lemma token_ahead_Nil: "token_ahead fl []"
proof -
  have "lexer_getObj fl lx = Inr (PEOF, lx)" if "lexer_on lx []" for lx
    using lexer_on_Nil [OF that] by (subst lexer_getObj_def) (simp add: skip_space.simps)
  then show ?thesis by (auto simp: token_ahead_def)
qed

section \<open>The text of an object\<close>

context exact_integers
begin

lemma writeObject_text:
  assumes "writable v" and "has_class (wr_cipher w) K" and "usable_class K" and "\<And>i. length (ivs i) = 16" and "nested n v"
    and "\<bar>r_num r\<bar> < 2 ^ 53" and "\<bar>r_gen r\<bar> < 2 ^ 53"
  shows "\<exists>w' tx ts k. writeObject deflate fetch ivs n r v w = Some (Inr w') \<and> has_class (wr_cipher w') K \<and>
    concat (wr_buffer w') = concat (wr_buffer w) @ tx @ [0x0a] \<and>
    lexable fl tx (PNum (Num (of_int (r_num r))) # PNum (Num (of_int (r_gen r))) # PCmd (js ''obj'') # ts @ [PCmd (js ''endobj'')]) \<and>
    starts_value ts \<and> parses fl K ts v k"
proof -
  let ?hd = "int_dec (r_num r) @ 32 # int_dec (r_gen r) @ js '' obj'' @ [0x0a]"
  obtain w1 where w1: "writeValue deflate fetch ivs n v (push_text ?hd w) = Some (Inr w1)" "writes fl K (push_text ?hd w) v w1"
    using writeValue_writes [where ivs = ivs and w = "push_text ?hd w", OF assms(1) _ assms(3,4,5)] assms(2) by auto
  then obtain tx ts k where tx: "has_class (wr_cipher w1) K" "concat (wr_buffer w1) = concat (wr_buffer w) @ ?hd @ tx"
      "lexable fl tx ts" "starts_value ts" "parses fl K ts v k" by (auto simp: writes_def)
  have "lexable fl (js ''obj'') [PCmd (js ''obj'')]"
    using lexable_word [of "0x6f" "js ''bj''"] by (simp add: word_value_def)
  have "lexable fl (0x0a # js ''endobj'') [PCmd (js ''endobj'')]"
    using lexable_white [OF lexable_word [of "0x65" "js ''ndobj''"], of 10] by (simp add: word_value_def)
  from lexable_append [OF tx(3) this] have "lexable fl (tx @ 0x0a # js ''endobj'') (ts @ [PCmd (js ''endobj'')])" by simp
  from lexable_white [OF this, of 10] have l1: "lexable fl (0x0a # tx @ 0x0a # js ''endobj'') (ts @ [PCmd (js ''endobj'')])" by simp
  have "lexable fl (js '' obj'') [PCmd (js ''obj'')]"
    using lexable_white [OF lexable_word [of "0x6f" "js ''bj''"], of 32] by (simp add: word_value_def)
  from lexable_append [OF this l1]
  have "lexable fl (js '' obj'' @ 0x0a # tx @ 0x0a # js ''endobj'') ([PCmd (js ''obj'')] @ ts @ [PCmd (js ''endobj'')])" by simp
  from lexable_append [OF lexable_int [OF assms(7)] this]
  have "lexable fl (int_dec (r_gen r) @ js '' obj'' @ 0x0a # tx @ 0x0a # js ''endobj'')
      ([PNum (Num (of_int (r_gen r)))] @ [PCmd (js ''obj'')] @ ts @ [PCmd (js ''endobj'')])" by simp
  from lexable_append [OF lexable_int [OF assms(6)] lexable_white [OF this, of 32]]
  have "lexable fl (?hd @ tx @ 0x0a # js ''endobj'')
      (PNum (Num (of_int (r_num r))) # PNum (Num (of_int (r_gen r))) # PCmd (js ''obj'') # ts @ [PCmd (js ''endobj'')])" by simp
  moreover have "concat (wr_buffer (push_text (0x0a # js ''endobj'' @ [0x0a]) w1)) = concat (wr_buffer w) @ (?hd @ tx @ 0x0a # js ''endobj'') @ [0x0a]"
    using tx(2) by simp
  moreover have "writeObject deflate fetch ivs n r v w = Some (Inr (push_text (0x0a # js ''endobj'' @ [0x0a]) w1))"
    using w1(1) by (simp add: writeObject_def)
  ultimately show ?thesis using tx(1,4,5) by (metis push_text_simps(2))
qed

lemma read_object_text:
  assumes "lexable fl tx (PNum (Num (of_int num)) # PNum (Num (of_int gen)) # PCmd (js ''obj'') # ts @ [PCmd (js ''endobj'')])"
    and "starts_value ts" and "parses fl K ts v k" and "token_ahead fl t" and "delim t"
    and "lexer_on (mk_lexer s None) (tx @ t)" and "k < n" and "\<not> is_stream v"
    and "has_class (if supp then None else map_option (\<lambda>c. c num gen) (xr_encrypt xr)) K"
  shows "read_object fl n look supp num gen s xr = Some (Inr v, cache_set num v xr)"
proof -
  let ?num = "PNum (Num (of_int num))" and ?gen = "PNum (Num (of_int gen))"
  let ?obj = "PCmd (js ''obj'')" and ?fin = "PCmd (js ''endobj'')" and ?c = "if supp then None else map_option (\<lambda>c. c num gen) (xr_encrypt xr)"
  have none: "has_class None None" by (simp add: has_class_def)
  obtain lx1 where l1: "lexes fl (mk_lexer s None) (?num # ?gen # ?obj # ts @ [?fin]) lx1" "lexer_on lx1 t"
    using lexableD [OF assms(1,6,5)] by blast
  obtain tok lx2 where l2: "lexer_getObj fl lx1 = Inr (tok, lx2)" "tok \<noteq> PCmd (js ''R'')" using assms(4) l1(2) by (auto simp: token_ahead_def)
  have lx: "lexes fl (mk_lexer s None) (?num # ?gen # ?obj # ts @ [?fin, tok]) lx2"
    using lexes_append [OF l1(1), of "[tok]" lx2] l2(1) by (simp only: append_Cons append_assoc append_Nil lexes.simps) blast
  obtain ps where ps: "mk_parser fl (mk_lexer s None) look True False None = Inr ps"
      "parser_at fl ps ([?num] @ ?gen # ?obj # ts @ [?fin, tok]) lx2" "ps_cipher ps = None"
    using mk_parser_at [OF lx, of look True False None] by (auto simp del: js_Cons)
  obtain p q zs where pq: "ts @ [?fin, tok] = p # q # zs" "good p q"
    using starts_list [of "[ts]" ?fin tok "[]"] assms(2) l2(2) by (auto simp: good_def)
  obtain ps1 where ps1: "parser_getObj fl n ps = Some (Inr (?num, ps1))" "parser_at fl ps1 ([?gen] @ ?obj # p # q # zs) lx2" "has_class (ps_cipher ps1) None"
    using parsesD [OF int_parses ps(2), of None n] ps(3) none pq assms(7) by (auto simp: good_def)
  have "good ?obj p" using pq(2) by (simp add: good_def)
  then obtain ps2 where ps2: "parser_getObj fl n ps1 = Some (Inr (?gen, ps2))" "parser_at fl ps2 ([?obj] @ p # q # zs) lx2" "has_class (ps_cipher ps2) None"
    using parsesD [OF int_parses ps1(2) _ ps1(3), of n] assms(7) by auto
  obtain ps3 where ps3: "parser_getObj fl n ps2 = Some (Inr (?obj, ps3))" "parser_at fl ps3 (p # q # zs) lx2"
    using parsesD [OF cmd_parses ps2(2) pq(2) ps2(3), of n] assms(7) by auto
  have "parser_at fl (ps3\<lparr>ps_cipher := ?c\<rparr>) (ts @ [?fin, tok]) lx2" using ps3(2) pq(1) by (auto simp: parser_at_def)
  then obtain ps4 where ps4: "parser_getObj fl n (ps3\<lparr>ps_cipher := ?c\<rparr>) = Some (Inr (v, ps4))"
    using parsesD [OF assms(3), of "ps3\<lparr>ps_cipher := ?c\<rparr>" ?fin tok "[]" lx2 n] l2(2) assms(7,9) by (auto simp: good_def)
  show ?thesis
    using ps(1) ps1(1) ps2(1) ps3(1) ps4 assms(8)
    by (simp add: read_object_def header_cmd_def int_obj_def xret_def del: js_Cons)
qed

end

section \<open>Fetching what was written\<close>

lemma refset_put_remove: "\<not> refset_has rs r \<Longrightarrow> refset_remove r (refset_put r rs) = rs"
  by (auto simp: refset_has_def refset_put_def refset_remove_def filter_id_conv)

lemma mk_lexer_at:
  assumes "list_all (\<lambda>c. c < 256) t" and "s_bytes s = pre @ stringToBytes t"
  shows "lexer_on (mk_lexer (makeSubStream (Some (length pre)) None s) None) t"
proof -
  let ?s = "mk_stream (s_bytes s) (Some (length pre)) None"
  have "rest ?s = stringToBytes t" "stream_ok ?s" using assms(2) by (simp_all add: mk_stream_def Let_def rest_def stream_ok_def)
  then show ?thesis
    using nextChar_rest [of "\<lparr>lx_stream = ?s, lx_char = None, lx_known = None, lx_beginPos = None\<rparr>"] bytesToString_stringToBytes [OF assms(1)]
    by (simp add: mk_lexer_def makeSubStream_def)
qed

lemma writable_not_stream: "writable v \<Longrightarrow> \<not> is_stream v \<and> v \<noteq> PUndef"
  by (cases v) (auto simp: is_stream_def)

definition fetchable :: "xref \<Rightarrow> ref \<Rightarrow> nat \<Rightarrow> bool" where
  "fetchable xr r p \<longleftrightarrow> cached xr (r_num r) = None \<and> \<not> refset_has (xr_pending xr) r \<and> s_start (xr_stream xr) = 0 \<and>
     getEntry (r_num r) xr = Some \<lparr>xe_offset = int p, xe_gen = r_gen r, xe_free = False, xe_uncompressed = True\<rparr>"

context exact_integers
begin

lemma fetch_text:
  assumes "lexable fl tx (PNum (Num (of_int (r_num r))) # PNum (Num (of_int (r_gen r))) # PCmd (js ''obj'') # ts @ [PCmd (js ''endobj'')])"
    and "starts_value ts" and "parses fl K ts v k" and "token_ahead fl t" and "delim t" and "list_all (\<lambda>c. c < 256) t"
    and "s_bytes (xr_stream xr) = pre @ stringToBytes (tx @ t)" and "fetchable xr r (length pre)" and "writable v"
    and "has_class (map_option (\<lambda>c. c (r_num r) (r_gen r)) (xr_encrypt xr)) K" and "k < n"
  shows "xref_fetch fl n look opened (Suc j) r False xr = Some (Inr (Fetched v), cache_set (r_num r) v xr)"
proof -
  let ?s = "makeSubStream (Some (length pre)) None (xr_stream xr)" and ?e = "\<lparr>xe_offset = int (length pre), xe_gen = r_gen r, xe_free = False, xe_uncompressed = True\<rparr>"
  have lx: "lexer_on (mk_lexer ?s None) (tx @ t)" using mk_lexer_at [OF _ assms(7)] assms(1,6) by (simp add: lexable_def)
  have "read_object fl n look False (r_num r) (r_gen r) ?s xr1 = Some (Inr v, cache_set (r_num r) v xr1)"
    if "xr_encrypt xr1 = xr_encrypt xr" for xr1
    using read_object_text [OF assms(1-5) lx assms(11), of False xr1 look] writable_not_stream [OF assms(9)] assms(10) that by simp
  then have f: "fetchUncompressed fl n look r ?e False xr1 = Some (Inr v, cache_set (r_num r) v xr1)"
    if "xr_stream xr1 = xr_stream xr" "xr_encrypt xr1 = xr_encrypt xr" for xr1
    using that assms(8) by (simp add: fetchUncompressed_def fetchable_def)
  let ?p = "set_pending (refset_put r) xr"
  have "fetchUncompressed fl n look r ?e False ?p = Some (Inr v, cache_set (r_num r) v ?p)" by (rule f) (simp_all add: set_pending_def)
  moreover have "set_pending (refset_remove r) (cache_set (r_num r) v ?p) = cache_set (r_num r) v xr"
    using assms(8) refset_put_remove [of "xr_pending xr" r] by (simp add: set_pending_def cache_set_def fetchable_def)
  ultimately show ?thesis
    using assms(8) by (simp add: fetchable_def xbind_def end_pending_def xmod_def xret_def)
qed

end

section \<open>Printing and parsing\<close>

text \<open>
  C5: what the writer prints the parser reads: writing a value made of integers, strings, names,
  references, arrays and dictionaries succeeds, and a parser on the text that is written, with
  the same cipher, returns the value, encrypted or not.
\<close>

theorem value_roundtrip:
  assumes "writable v" and "nested n v" and "usable_cipher c" and "\<And>i. length (ivs i) = 16"
  shows "\<exists>w. writeValue deflate fetch ivs n v \<lparr>wr_buffer = [], wr_cipher = c, wr_drawn = 0\<rparr> = Some (Inr w) \<and>
    (\<exists>M. \<forall>j look. M \<le> j \<longrightarrow>
       (\<exists>ps ps'. mk_parser fl64 (mk_lexer (mk_stream (stringToBytes (concat (wr_buffer w))) None None) None) look True False c = Inr ps \<and>
          parser_getObj fl64 j ps = Some (Inr (v, ps'))))"
proof -
  obtain K where K: "has_class c K" "usable_class K" using usable_class [OF assms(3)] .
  obtain w tx ts k where w: "writeValue deflate fetch ivs n v \<lparr>wr_buffer = [], wr_cipher = c, wr_drawn = 0\<rparr> = Some (Inr w)"
      "concat (wr_buffer w) = tx" "lexable fl64 tx ts" "starts_value ts" "parses fl64 K ts v k"
    using doubles.writeValue_writes [where ivs = ivs and deflate = deflate and fetch = fetch and w = "\<lparr>wr_buffer = [], wr_cipher = c, wr_drawn = 0\<rparr>", OF assms(1) _ K(2) assms(4,2)] K(1)
    by (auto simp: writes_def)
  let ?lx = "mk_lexer (mk_stream (stringToBytes tx) None None) None"
  have "lexer_on ?lx (tx @ [])"
    using mk_lexer_at [of tx "mk_stream (stringToBytes tx) None None" "[]"] w(3) by (simp add: lexable_def mk_stream_def makeSubStream_def Let_def)
  then obtain lx1 where l1: "lexes fl64 ?lx ts lx1" "lexer_on lx1 []" using lexableD [OF w(3) \<open>lexer_on ?lx (tx @ [])\<close>] by (auto simp: delim_def)
  have "lexes fl64 lx1 [PEOF, PEOF] lx1" using lexer_on_Nil [OF l1(2)] by (simp add: lexer_getObj_def skip_space.simps)
  then have lx: "lexes fl64 ?lx (ts @ [PEOF, PEOF]) lx1" using lexes_append [OF l1(1)] by blast
  obtain p q zs where pq: "ts @ [PEOF, PEOF] = p # q # zs" using w(4) by (cases ts; cases "tl ts") (auto simp: starts_value_def)
  have "\<exists>ps ps'. mk_parser fl64 ?lx look True False c = Inr ps \<and> parser_getObj fl64 j ps = Some (Inr (v, ps'))" if "k \<le> j" for j look
  proof -
    obtain ps where ps: "mk_parser fl64 ?lx look True False c = Inr ps" "parser_at fl64 ps (ts @ PEOF # PEOF # []) lx1" "ps_cipher ps = c"
      using mk_parser_at [OF lx [unfolded pq], of look True False c] pq by auto
    show ?thesis using parsesD [OF w(5) ps(2) _ _ that] ps(1,3) K(1) by (metis good_def pobj.distinct)
  qed
  then show ?thesis using w(1,2) by blast
qed

theorem value_roundtrip_witness:
  "\<exists>w j ps ps'. writeValue (\<lambda>_. None) None (\<lambda>_. zeros 16) (Suc (Suc 0)) (PArr [PNum (Num 7), PStr (js ''a(b'')])
       \<lparr>wr_buffer = [], wr_cipher = None, wr_drawn = 0\<rparr> = Some (Inr w) \<and>
     mk_parser fl64 (mk_lexer (mk_stream (stringToBytes (concat (wr_buffer w))) None None) None) None True False None = Inr ps \<and>
     parser_getObj fl64 j ps = Some (Inr (PArr [PNum (Num 7), PStr (js ''a(b'')], ps'))"
proof -
  let ?v = "PArr [PNum (Num 7), PStr (js ''a(b'')]"
  have "writable ?v" "nested (Suc (Suc 0)) ?v" "usable_cipher None" by (simp_all add: usable_cipher_def)
  then show ?thesis
    using value_roundtrip [of ?v "Suc (Suc 0)" None "\<lambda>_. zeros 16" "\<lambda>_. None" None] by (metis length_replicate order_refl zeros_def)
qed

end
