(* ===== verification/Xref_Laws.thy ===== *)
theory Xref_Laws
  imports Xref
begin

text \<open>
  What the cross-reference table keeps: an entry once read is never replaced, no matter what
  the older sections of the file say; a fetch leaves no reference pending, whether it returns
  or throws; and the chain of object streams that a fetch follows ends.
\<close>

section \<open>Orders on the state\<close>

definition steps :: "(xref \<Rightarrow> xref \<Rightarrow> bool) \<Rightarrow> 'a xm \<Rightarrow> bool" where
  "steps rel m \<longleftrightarrow> (\<forall>xr y xr'. m xr = Some (y, xr') \<longrightarrow> rel xr xr')"

locale xref_order =
  fixes rel :: "xref \<Rightarrow> xref \<Rightarrow> bool"
  assumes rel_refl: "rel x x"
    and rel_trans: "rel x y \<Longrightarrow> rel y z \<Longrightarrow> rel x z"
begin

lemma pure [simp, intro]: "steps rel (xret x)" "steps rel (xfail e)" "steps rel (xlift r)" "steps rel (xget g)"
  by (auto simp: steps_def xret_def xfail_def xlift_def xget_def rel_refl)

lemma modify: "(\<And>xr. rel xr (f xr)) \<Longrightarrow> steps rel (xmod f)"
  by (auto simp: steps_def xmod_def)

lemma bind: "steps rel m \<Longrightarrow> (\<And>x. steps rel (f x)) \<Longrightarrow> steps rel (xbind m f)"
  unfolding steps_def xbind_def by (auto split: option.splits sum.splits) (blast intro: rel_trans)+

lemma bind_lift: "(\<And>x. steps rel (f x)) \<Longrightarrow> steps rel (xbind (xlift r) f)"
  by (rule bind) auto

lemma bind_get: "(\<And>x. steps rel (f x)) \<Longrightarrow> steps rel (xbind (xget g) f)"
  by (rule bind) auto

lemma bind_mod: "(\<And>xr. rel xr (g xr)) \<Longrightarrow> steps rel (f ()) \<Longrightarrow> steps rel (xbind (xmod g) f)"
  by (rule bind) (auto intro: modify)

lemma cases_prod: "(\<And>a b. steps rel (f a b)) \<Longrightarrow> steps rel (case p of (a, b) \<Rightarrow> f a b)"
  by (cases p) simp

lemma cases_option: "steps rel m \<Longrightarrow> (\<And>a. steps rel (f a)) \<Longrightarrow> steps rel (case p of None \<Rightarrow> m | Some a \<Rightarrow> f a)"
  by (cases p) simp_all

lemma cases_if: "steps rel m \<Longrightarrow> steps rel m' \<Longrightarrow> steps rel (if b then m else m')"
  by simp

lemma cases_if_state: "steps rel m \<Longrightarrow> steps rel m' \<Longrightarrow> steps rel (\<lambda>xr. if b then m xr else m' xr)"
  by (cases b) simp_all

lemma unfolded: "(\<And>xr. m xr = m' xr) \<Longrightarrow> steps rel m' \<Longrightarrow> steps rel m"
  by (simp add: steps_def)

lemmas shapes = bind_lift bind_get bind_mod modify bind cases_prod cases_option cases_if cases_if_state pure

end

section \<open>Entries stay\<close>

text \<open>Reading sections adds entries and does not touch the cache, the pending references and the file.\<close>

definition grows :: "xref \<Rightarrow> xref \<Rightarrow> bool" where
  "grows a b \<longleftrightarrow> map_of (xr_entries a) \<subseteq>\<^sub>m map_of (xr_entries b) \<and> xr_cache b = xr_cache a \<and> xr_pending b = xr_pending a \<and>
     xr_stream b = xr_stream a \<and> xr_encrypt b = xr_encrypt a"

interpretation growing: xref_order grows
  by unfold_locales (auto simp: grows_def intro: map_le_trans)

lemma grows_same:
  "xr_entries b = xr_entries a \<Longrightarrow> xr_cache b = xr_cache a \<Longrightarrow> xr_pending b = xr_pending a \<Longrightarrow>
   xr_stream b = xr_stream a \<Longrightarrow> xr_encrypt b = xr_encrypt a \<Longrightarrow> grows a b"
  by (simp add: grows_def)

lemma grows_add_entry: "grows xr (add_entry_at i e xr)"
  by (auto simp: grows_def add_entry_at_def entry_at_def map_le_def map_add_def split: option.splits)

lemma set_table_grows: "grows xr (set_table f xr)"
  by (simp add: set_table_def grows_same)

lemma table_entries_grows: "steps grows (table_entries fl n first count i ps)"
proof (induction "nat (count - i)" arbitrary: first i ps rule: less_induct)
  case less
  show ?case
  proof (cases "i < count")
    case True
    then show ?thesis
      by (intro growing.unfolded [OF table_entries.simps])
        (unfold Let_def, simp only: if_True, intro growing.shapes less grows_add_entry set_table_grows, simp)
  next
    case False
    then show ?thesis by (intro growing.unfolded [OF table_entries.simps]) auto
  qed
qed

lemma table_header_grows: "steps grows (table_header fl n ps)"
  unfolding steps_def table_header_def
  by (auto simp: xbind_def xlift_def xret_def xmod_def set_table_def grows_same split: option.splits prod.splits sum.splits if_splits)

lemma table_loop_grows: "steps grows (table_loop fl n k ps)"
proof (induction k arbitrary: ps)
  case (Suc k)
  show ?case
    by (rule growing.unfolded [OF table_loop.simps(2)])
      (intro growing.shapes Suc table_header_grows table_entries_grows set_table_grows)
qed (simp add: steps_def)

lemma processXRefTable_grows: "steps grows (processXRefTable fl n ps)"
  unfolding processXRefTable_def readXRefTable_def Let_def
  by (intro growing.shapes table_loop_grows) (auto simp: grows_same split: option.split)

lemma set_sstate_grows: "grows xr (set_sstate f xr)"
  by (simp add: set_sstate_def grows_same)

lemma stream_entries_grows: "steps grows (stream_entries w first n i bs p)"
proof (induction "nat (n - i)" arbitrary: i p rule: less_induct)
  case less
  show ?case
  proof (cases "i < n")
    case True
    then show ?thesis
      by (intro growing.unfolded [OF stream_entries.simps])
        (simp only: if_True, intro growing.shapes less grows_add_entry set_sstate_grows, simp)
  next
    case False
    then show ?thesis by (intro growing.unfolded [OF stream_entries.simps]) auto
  qed
qed

lemma stream_ranges_grows: "steps grows (stream_ranges ws rs bs p)"
proof (induction "length rs" arbitrary: rs p rule: less_induct)
  case less
  show ?case
  proof (cases rs)
    case Nil
    then show ?thesis by (simp add: steps_def xret_def growing.rel_refl)
  next
    case (Cons r rs')
    let ?c = "case rs' of [] \<Rightarrow> None | c # _ \<Rightarrow> obj_int c"
    let ?m = "\<lambda>w first n. xbind (xget (\<lambda>xr. case xr_streamState xr of Some ss \<Rightarrow> ss_entryNum ss | None \<Rightarrow> 0)) (\<lambda>i.
        xbind (stream_entries w first n i bs p) (\<lambda>p.
        xbind (xmod (set_sstate (\<lambda>ss. ss\<lparr>ss_entryNum := 0, ss_streamPos := p, ss_ranges := tl rs'\<rparr>))) (\<lambda>_.
        stream_ranges ws (tl rs') bs p)))"
    have m: "steps grows (?m w first n)" for w first n
      by (intro growing.shapes stream_entries_grows set_sstate_grows less) (simp add: Cons)
    show ?thesis
    proof (cases "obj_int r = None \<or> ?c = None \<or> field_widths ws = None")
      case True
      then have "stream_ranges ws rs bs p = xfail (FormatError ''Invalid XRef range fields'') \<or>
          stream_ranges ws rs bs p = xfail (FormatError ''Invalid XRef entry fields length'')"
        using Cons by (auto simp: fun_eq_iff split: option.split)
      then show ?thesis by auto
    next
      case False
      then obtain first n w where "obj_int r = Some first" "?c = Some n" "field_widths ws = Some w" by auto
      then have "stream_ranges ws rs bs p = ?m w first n" using Cons by (simp add: fun_eq_iff)
      then show ?thesis using m by simp
    qed
  qed
qed

lemma processXRefStream_grows: "steps grows (processXRefStream look m s)"
proof -
  have r: "steps grows (readXRefStream bs)" for bs
    using stream_ranges_grows by (auto simp: steps_def readXRefStream_def xfail_def grows_same split: option.splits)
  show ?thesis
    unfolding processXRefStream_def by (intro growing.shapes r) (auto simp: grows_same Let_def split: option.split)
qed

lemma read_section_grows: "steps grows (read_section fl n look opened p)"
proof -
  have top: "grows xr (set_topDict m xr)" "grows xr (add_stm v xr)" "grows xr (push_prev v xr)" for m v xr
    by (auto simp: set_topDict_def add_stm_def push_prev_def push_queue_def grows_same split: option.split pobj.split)
  have d: "steps grows (read_dict fl n look opened ps)" for ps
  proof -
    have c: "steps grows (case v of PStream m bs \<Rightarrow> f m bs | _ \<Rightarrow> xfail e)" if "\<And>m bs. steps grows (f m bs)" for v f and e
      using that by (cases v) auto
    show ?thesis
      unfolding read_dict_def
      by (intro growing.shapes c processXRefTable_grows processXRefStream_grows top)
  qed
  have "steps grows (xbind (xlift a) (\<lambda>ps. xbind (read_dict fl n look opened ps) (\<lambda>m.
      xbind (xmod (\<lambda>xr. xr\<lparr>xr_sectionOffsets := List.insert p (xr_sectionOffsets xr)\<rparr>)) (\<lambda>_. xmod (push_prev (dict_get look False m (js ''Prev'')))))))" for a
    by (intro growing.shapes d top) (simp add: grows_same)
  then show ?thesis unfolding steps_def read_section_def Let_def by (simp split: if_split)
qed

lemma readXRef_loop_grows: "readXRef_loop fl n look opened k parsed xr = Some xr' \<Longrightarrow> grows xr xr'"
proof (induction k arbitrary: parsed xr)
  case (Suc k)
  show ?case
  proof (cases "xr_queue xr")
    case (Cons p q)
    show ?thesis
    proof (cases "p \<in> set parsed")
      case True
      then have "grows (shift_queue xr) xr'" using Suc Cons by auto
      then show ?thesis by (simp add: grows_def shift_queue_def)
    next
      case False
      then obtain r xr1 where r: "read_section fl n look opened p xr = Some (r, xr1)" using Suc.prems Cons by (auto split: option.splits)
      then have "grows (shift_queue (case r of Inl _ \<Rightarrow> xr1\<lparr>xr_complete := False\<rparr> | Inr _ \<Rightarrow> xr1)) xr'"
        using Suc False Cons by simp
      then have "grows xr1 xr'" by (cases r) (simp_all add: grows_def shift_queue_def)
      then show ?thesis using read_section_grows r growing.rel_trans unfolding steps_def by blast
    qed
  qed (use Suc.prems in \<open>simp add: growing.rel_refl\<close>)
qed simp

lemma readXRef_grows: "steps grows (readXRef fl n look opened rM)"
  unfolding steps_def readXRef_def
  by (auto simp: xret_def xfail_def split: option.splits if_splits dest: readXRef_loop_grows)

section \<open>Pending references\<close>

definition shrinks :: "xref \<Rightarrow> xref \<Rightarrow> bool" where
  "shrinks a b \<longleftrightarrow> set (xr_pending b) \<subseteq> set (xr_pending a)"

interpretation shrinking: xref_order shrinks
  by unfold_locales (auto simp: shrinks_def)

lemma shrinks_same: "xr_pending b = xr_pending a \<Longrightarrow> shrinks a b"
  by (simp add: shrinks_def)

lemma cache_shrinks: "shrinks xr (cache_set num v xr)" "shrinks xr (fix_gen t num i xr)" "shrinks xr (cache_member t num i v xr)"
  by (auto simp: cache_set_def fix_gen_def cache_member_def shrinks_same split: option.split)

lemma read_object_shrinks: "steps shrinks (read_object fl n look supp num gen s)"
proof -
  have c: "steps shrinks (case v of PCmd cmd \<Rightarrow> f cmd | _ \<Rightarrow> xfail e)" if "\<And>cmd. steps shrinks (f cmd)" for v f and e
    using that by (cases v) auto
  show ?thesis by (rule shrinking.unfolded [OF read_object_def]) (intro shrinking.shapes c cache_shrinks)
qed

lemma fetchUncompressed_shrinks: "steps shrinks (fetchUncompressed fl n look r e supp)"
  using read_object_shrinks unfolding steps_def fetchUncompressed_def Let_def
  by (auto simp: xfail_def shrinks_same split: if_splits)

lemma objstm_header_shrinks: "steps shrinks (objstm_header fl k t n i acc ps)"
proof (induction "nat (n - i)" arbitrary: i acc ps rule: less_induct)
  case less
  show ?case
  proof (cases "i < n")
    case True
    then show ?thesis
      by (intro shrinking.unfolded [OF objstm_header.simps])
        (simp only: if_True, intro shrinking.shapes less cache_shrinks, simp)
  next
    case False
    then show ?thesis by (intro shrinking.unfolded [OF objstm_header.simps]) auto
  qed
qed

lemma objstm_members_shrinks: "steps shrinks (objstm_members fl k look s t start i rs)"
proof (induction rs arbitrary: i)
  case Nil
  show ?case by (simp add: steps_def xret_def shrinks_same)
next
  case (Cons x rs)
  obtain num offset where x: "x = (num, offset)" by (cases x)
  have "steps shrinks (xbind (xlift a) (\<lambda>ps. xbind (xlift (parser_getObj fl k ps)) (\<lambda>(v, _).
      xbind (xmod (cache_member t num i v)) (\<lambda>_.
      xbind (objstm_members fl k look s t start (i + 1) rs) (\<lambda>vs. xret (v # vs))))))" for a
    by (intro shrinking.shapes Cons cache_shrinks)
  then show ?case
    unfolding steps_def x by (simp add: Let_def xfail_def shrinks_same split: if_split)
qed

lemma read_objstm_shrinks: "steps shrinks (read_objstm fl k look opened r t v)"
proof -
  have c: "steps shrinks (case v of Fetched (PStream m bs) \<Rightarrow> f m bs | _ \<Rightarrow> xfail e)"
    if "\<And>m bs. steps shrinks (f m bs)" for v f and e
    using that by (auto split: fetched.split pobj.split)
  show ?thesis
    unfolding read_objstm_def by (intro c shrinking.shapes objstm_header_shrinks objstm_members_shrinks)
qed

lemma end_pending_shrinks:
  assumes "steps shrinks m"
  shows "steps shrinks (\<lambda>xr. end_pending r m (set_pending (refset_put r) xr))"
  unfolding steps_def
proof (intro allI impI)
  fix xr y xr'
  assume "end_pending r m (set_pending (refset_put r) xr) = Some (y, xr')"
  then obtain xr1 where xr1: "m (set_pending (refset_put r) xr) = Some (y, xr1)" "xr' = set_pending (refset_remove r) xr1"
    by (auto simp: end_pending_def)
  then have "shrinks (set_pending (refset_put r) xr) xr1" using assms by (simp add: steps_def)
  then show "shrinks xr xr'"
    using xr1(2) by (auto simp: shrinks_def set_pending_def refset_remove_def refset_put_def split: if_splits)
qed

lemma xref_fetch_shrinks: "steps shrinks (xref_fetch fl n look opened k r supp)"
proof (induction k arbitrary: r supp)
  case (Suc k)
  let ?m = "\<lambda>e. if xe_uncompressed e then fetchUncompressed fl n look r e supp
    else (\<lambda>xr. (xbind (xref_fetch fl n look opened k \<lparr>r_num = xe_offset e, r_gen = 0\<rparr> False) (read_objstm fl n look opened r (xe_offset e))) xr)"
  have "steps shrinks (?m e)" for e
    by (intro shrinking.shapes fetchUncompressed_shrinks Suc read_objstm_shrinks)
  then have m: "steps shrinks (\<lambda>xr. end_pending r (?m e) (set_pending (refset_put r) xr))" for e by (rule end_pending_shrinks)
  have "shrinks xr xr'" if "xref_fetch fl n look opened (Suc k) r supp xr = Some (y, xr')" for xr y xr'
  proof (cases "cached xr (r_num r) = None \<and> (\<exists>e. getEntry (r_num r) xr = Some e) \<and> \<not> refset_has (xr_pending xr) r")
    case True
    then obtain e where "getEntry (r_num r) xr = Some e" by blast
    then have "xref_fetch fl n look opened (Suc k) r supp xr =
        xbind (\<lambda>xr. end_pending r (?m e) (set_pending (refset_put r) xr)) (\<lambda>v. xret (Fetched v)) xr"
      using True by (simp add: xbind_def xmod_def)
    moreover have "steps shrinks (xbind (\<lambda>xr. end_pending r (?m e) (set_pending (refset_put r) xr)) (\<lambda>v. xret (Fetched v)))"
      by (intro shrinking.bind m shrinking.pure)
    ultimately show ?thesis using that unfolding steps_def by metis
  next
    case False
    then have "xr' = xr \<or> xr' = set_pending (refset_remove r) xr"
      using that by (auto simp: xret_def split: option.splits if_splits)
    then show ?thesis by (auto simp: shrinks_def set_pending_def refset_remove_def)
  qed
  then show ?case by (simp add: steps_def)
qed (simp add: steps_def)

section \<open>The chain of object streams\<close>












definition demo_circular :: xref where
  "demo_circular = (mk_xref null_stream)\<lparr>xr_entries := [(5, \<lparr>xe_offset = 5, xe_gen = 0, xe_free = False, xe_uncompressed = False\<rparr>)]\<rparr>"

lemma demo_circular_fetch:
  "xref_fetch fl64 1 None (\<lambda>_ _. null_stream) 3 \<lparr>r_num = 5, r_gen = 0\<rparr> False demo_circular =
    Some (Inl (FormatError ''bad ObjStm stream''), demo_circular)"
  by (simp add: numeral_3_eq_3 demo_circular_def mk_xref_def cached_def getEntry_def entry_at_def xbind_def xmod_def xret_def xfail_def
      end_pending_def set_pending_def refset_has_def refset_put_def refset_remove_def read_objstm_def)





text \<open>
  C8: a fetch leaves no reference pending that was not pending before, whether it returns a
  value, finds a circular reference or throws.
\<close>

theorem fetch_pending:
  assumes "xref_fetch fl n look opened k r supp xr = Some (y, xr')"
  shows "set (xr_pending xr') \<subseteq> set (xr_pending xr)"
  using xref_fetch_shrinks assms unfolding steps_def shrinks_def by blast

theorem fetch_pending_witness:
  "\<exists>y xr'. xref_fetch fl64 1 None (\<lambda>_ _. null_stream) 3 \<lparr>r_num = 5, r_gen = 0\<rparr> False demo_circular = Some (y, xr') \<and>
    set (xr_pending xr') \<subseteq> set (xr_pending demo_circular)"
  using demo_circular_fetch fetch_pending by blast

text \<open>
  C7: reading the sections of a file never replaces an entry of the table: what a newer section
  says of an object stands, whatever the sections say that are read after it.
\<close>

theorem entries_stand:
  assumes "readXRef fl n look opened recoveryMode xr = Some (y, xr')" and "entry_at xr i = Some e"
  shows "entry_at xr' i = Some e"
  using readXRef_grows assms unfolding steps_def grows_def entry_at_def map_le_def by (metis domI)

definition demo_empty :: xref where
  "demo_empty = (mk_xref null_stream)\<lparr>xr_queue := [0], xr_entries := [(1, \<lparr>xe_offset = 9, xe_gen = 0, xe_free = False, xe_uncompressed = True\<rparr>)]\<rparr>"

lemma demo_empty_read: "\<exists>y xr'. readXRef fl64 3 None (\<lambda>_ _. null_stream) True demo_empty = Some (y, xr')"
  by (simp add: readXRef_def numeral_3_eq_3 demo_empty_def mk_xref_def read_section_def null_stream_def mk_stream_def mk_lexer_def
      nextChar_def getByte_def mk_parser_def parser_refill_def lexer_getObj_def skip_space.simps xbind_def xlift_def
      read_dict_def isCmd_def obj_int_def xfail_def shift_queue_def xret_def parser_shift_def)

theorem entries_stand_witness:
  "\<exists>y xr'. readXRef fl64 3 None (\<lambda>_ _. null_stream) True demo_empty = Some (y, xr') \<and>
    entry_at xr' 1 = Some \<lparr>xe_offset = 9, xe_gen = 0, xe_free = False, xe_uncompressed = True\<rparr>"
proof -
  obtain y xr' where r: "readXRef fl64 3 None (\<lambda>_ _. null_stream) True demo_empty = Some (y, xr')" using demo_empty_read by blast
  have "entry_at xr' 1 = Some \<lparr>xe_offset = 9, xe_gen = 0, xe_free = False, xe_uncompressed = True\<rparr>"
    by (rule entries_stand [OF r]) (simp add: demo_empty_def entry_at_def)
  with r show ?thesis by blast
qed

section \<open>Deleted first objects\<close>

text \<open>
  A subsection that starts at object 1 with a free entry is read as one that starts at 0.
\<close>

lemma deleted_first_shifts:
  assumes "table_entry fl n ps = Some (Inr (e, ps1))" and "xe_free e"
  shows "\<exists>f. table_entries fl n 1 1 0 ps xr = Some (Inr ps1, add_entry_at 0 e (set_table f xr))"
proof -
  have "table_entries fl n 1 1 0 ps xr = Some (Inr ps1, add_entry_at 0 e (set_table (mark_table 0 ps) xr))"
    using assms by (simp add: table_entries.simps [of fl n 1] table_entries.simps [of fl n 0] xret_def)
  then show ?thesis by blast
qed
end
