(* ===== verification/Update_Table.thy ===== *)
theory Update_Table
  imports Incremental_Update Fetch_Roundtrip Xref_Laws
begin

text \<open>
  The cross-reference table that an update writes (\<open>getXRefTable\<close>) is the one that
  \<open>readXRefTable\<close> reads: the subsections of consecutive numbers, and the line of every object.
\<close>

section \<open>The bytes of an update\<close>

lemma write_string_loop_eq:
  "offset + length s \<le> length buf \<Longrightarrow> write_string_loop s offset buf = take offset buf @ stringToBytes s @ drop (offset + length s) buf"
proof (induction s arbitrary: offset buf)
  case (Cons c s)
  then have "write_string_loop (c # s) offset buf = take (offset + 1) (buf[offset := of_nat c]) @ stringToBytes s @ drop (offset + 1 + length s) (buf[offset := of_nat c])"
    by simp
  also have "\<dots> = take offset buf @ stringToBytes (c # s) @ drop (offset + length (c # s)) buf"
    using Cons.prems by (simp add: take_Suc_conv_app_nth stringToBytes_def)
  finally show ?case .
qed (simp add: stringToBytes_def)

lemma write_strings_eq:
  assumes "sum_list (map length ss) = length z"
  shows "write_strings ss (length pre, pre @ z) = (length pre + length z, pre @ stringToBytes (concat ss))"
  using assms
proof (induction ss arbitrary: pre z)
  case (Cons s ss)
  define z1 where "z1 = drop (length s) z"
  have z: "length s \<le> length z" "sum_list (map length ss) = length z1" using Cons.prems by (simp_all add: z1_def)
  have "writeString s (length pre) (pre @ z) = (length (pre @ stringToBytes s), (pre @ stringToBytes s) @ z1)"
    using z(1) by (simp add: writeString_def write_string_loop_eq z1_def)
  then have "write_strings (s # ss) (length pre, pre @ z) = write_strings ss (length (pre @ stringToBytes s), (pre @ stringToBytes s) @ z1)"
    by (simp add: write_strings_def)
  then show ?case using Cons.IH [OF z(2), of "pre @ stringToBytes s"] z(1) by (simp add: z1_def stringToBytes_append)
qed (simp add: write_strings_def stringToBytes_def)

text \<open>The subsections: a section is its first number and its objects with their offsets.\<close>

type_synonym placed = "nat \<times> new_ref"

abbreviation pnum :: "placed \<Rightarrow> int" where
  "pnum p \<equiv> r_num (nr_ref (snd p))"

fun place :: "nat \<Rightarrow> new_ref list \<Rightarrow> placed list" where
  "place b [] = []"
| "place b (x # xs) = (b, x) # place (b + data_length x) xs"

fun sects :: "int \<Rightarrow> placed list \<Rightarrow> placed list \<Rightarrow> (int \<times> placed list) list" where
  "sects f acc [] = [(f, acc)]"
| "sects f acc (p # ps) = (if pnum p = f + int (length acc) then sects f (acc @ [p]) ps else (f, acc) # sects (pnum p) [p] ps)"

fun sections :: "placed list \<Rightarrow> (int \<times> placed list) list" where
  "sections [] = []"
| "sections (p # ps) = sects (pnum p) [p] ps"

fun sect_index :: "int \<times> placed list \<Rightarrow> int list" where
  "sect_index (f, ps) = [f, int (length ps)]"

definition numbered :: "int \<Rightarrow> placed list \<Rightarrow> bool" where
  "numbered f ps \<longleftrightarrow> (\<forall>i < length ps. pnum (ps ! i) = f + int i)"

lemma sects_head: "\<exists>run ss. sects f acc ps = (f, acc @ run) # ss \<and> (\<forall>f' \<in> fst ` set ss. f' \<in> pnum ` set ps)"
proof (induction ps arbitrary: f acc)
  case (Cons p ps)
  show ?case
  proof (cases "pnum p = f + int (length acc)")
    case True
    then show ?thesis using Cons [of f "acc @ [p]"] by auto
  next
    case False
    then show ?thesis using Cons [of "pnum p" "[p]"] by auto
  qed
qed simp

lemma sects_concat: "concat (map snd (sects f acc ps)) = acc @ ps"
  by (induction ps arbitrary: f acc) auto

lemma sections_concat: "concat (map snd (sections ps)) = ps"
  by (cases ps) (simp_all add: sects_concat)

lemma sects_numbered: "numbered f acc \<Longrightarrow> \<forall>(f', qs) \<in> set (sects f acc ps). numbered f' qs"
proof (induction ps arbitrary: f acc)
  case (Cons p ps)
  then show ?case
  proof (cases "pnum p = f + int (length acc)")
    case True
    then have "numbered f (acc @ [p])" using Cons.prems by (auto simp: numbered_def nth_append less_Suc_eq)
    then show ?thesis using Cons.IH True by simp
  next
    case False
    have "numbered (pnum p) [p]" by (simp add: numbered_def)
    then show ?thesis using Cons False by simp
  qed
qed simp

lemma sections_numbered: "\<forall>(f, qs) \<in> set (sections ps). numbered f qs"
  using sects_numbered [of "pnum p" "[p]" for p] by (cases ps) (auto simp: numbered_def)

lemma index_fold:
  "foldl index_step (ix @ [f, int (length acc)]) (map pnum ps) = ix @ concat (map sect_index (sects f acc ps))"
proof (induction ps arbitrary: ix f acc)
  case (Cons p ps)
  let ?ix = "ix @ [f, int (length acc)]"
  show ?case
  proof (cases "pnum p = f + int (length acc)")
    case True
    then have "index_step ?ix (pnum p) = ix @ [f, int (length (acc @ [p]))]"
      by (simp add: index_step_def nth_append list_update_append)
    then show ?thesis using Cons.IH [of ix f "acc @ [p]"] True by simp
  next
    case False
    then have "index_step ?ix (pnum p) = ?ix @ [pnum p, int (length [p])]"
      by (simp add: index_step_def nth_append)
    then show ?thesis using Cons.IH [of ?ix "pnum p" "[p]"] False by simp
  qed
qed simp

lemma map_snd_place [simp]: "map snd (place b xs) = xs"
  by (induction xs arbitrary: b) auto

lemma map_pnum_place: "map pnum (place b xs) = map (r_num \<circ> nr_ref) xs"
  by (induction xs arbitrary: b) auto

lemma getIndexes_sections: "getIndexes xs = concat (map sect_index (sections (place b xs)))"
proof (cases xs)
  case (Cons x ys)
  then show ?thesis
    using index_fold [of "[]" "r_num (nr_ref x)" "[(b, x)]" "place (b + data_length x) ys"]
    by (simp add: getIndexes_def index_step_def map_pnum_place)
qed (simp add: getIndexes_def)

section \<open>The text of the table\<close>

fun placed_line :: "placed \<Rightarrow> jsstr" where
  "placed_line (b, x) = table_line b x"

fun sect_text :: "int \<times> placed list \<Rightarrow> jsstr" where
  "sect_text (f, ps) = int_dec f @ 32 # int_dec (int (length ps)) @ [10] @ concat (map placed_line ps)"

lemma table_lines_sects:
  assumes "sects f acc (place b xs) = (f, acc @ run) # ss" and "drop ip IX = concat (map sect_index ss)"
    and "sorted_wrt (<) (map (r_num \<circ> nr_ref) xs)"
  shows "concat (fst (table_lines IX ip b xs)) = concat (map placed_line run) @ concat (map sect_text ss)"
  using assms
proof (induction xs arbitrary: f acc run ss ip b)
  case Nil
  then show ?case by simp
next
  case (Cons x xs)
  let ?n = "r_num (nr_ref x)" and ?b = "b + data_length x"
  have sorted: "sorted_wrt (<) (map (r_num \<circ> nr_ref) xs)" "\<forall>y \<in> set xs. ?n < r_num (nr_ref y)" using Cons.prems(3) by (auto simp: comp_def)
  show ?case
  proof (cases "?n = f + int (length acc)")
    case True
    obtain run' where run: "run = (b, x) # run'"
      using sects_head [of f "acc @ [(b, x)]" "place ?b xs"] Cons.prems(1) True by auto
    have s: "sects f (acc @ [(b, x)]) (place ?b xs) = (f, (acc @ [(b, x)]) @ run') # ss" using Cons.prems(1) True run by simp
    have no: "\<not> (ip < length IX \<and> ?n = IX ! ip)"
    proof
      assume h: "ip < length IX \<and> ?n = IX ! ip"
      then obtain f' qs ss' where ss: "ss = (f', qs) # ss'" using Cons.prems(2) by (cases ss) auto
      then have "f' = ?n" using Cons.prems(2) h by (metis Cons_nth_drop_Suc concat.simps(2) list.map(2) list.inject append_Cons sect_index.simps)
      then have "?n \<in> pnum ` set (place ?b xs)" using sects_head [of f "acc @ [(b, x)]" "place ?b xs"] s ss by auto
      then have "?n \<in> set (map (r_num \<circ> nr_ref) xs)" using map_pnum_place [of ?b xs] by (metis list.set_map)
      then show False using sorted(2) by auto
    qed
    have "concat (fst (table_lines IX ip ?b xs)) = concat (map placed_line run') @ concat (map sect_text ss)"
      using Cons.IH [OF s Cons.prems(2) sorted(1)] .
    then show ?thesis using no run by (auto simp: Let_def split_beta)
  next
    case False
    then have rs: "run = []" "ss = sects ?n [(b, x)] (place ?b xs)" using Cons.prems(1) by auto
    obtain run' ss' where s: "sects ?n [(b, x)] (place ?b xs) = (?n, [(b, x)] @ run') # ss'" using sects_head by blast
    have d: "drop ip IX = ?n # int (length ((b, x) # run')) # concat (map sect_index ss')" using Cons.prems(2) rs s by simp
    have l: "ip < length IX" using d by (metis drop_all list.distinct(1) not_less)
    then have ix: "ip < length IX" "IX ! ip = ?n" "IX ! (ip + 1) = int (length ((b, x) # run'))" "drop (ip + 2) IX = concat (map sect_index ss')"
      using d nth_drop [of ip IX 0] nth_drop [of ip IX 1] drop_drop [of 2 ip IX] by simp_all
    have "concat (fst (table_lines IX (ip + 2) ?b xs)) = concat (map placed_line run') @ concat (map sect_text ss')"
      using Cons.IH [OF s ix(4) sorted(1)] .
    then show ?thesis using ix(1-3) rs s by (simp add: Let_def split_beta)
  qed
qed

lemma table_lines_end: "snd (table_lines IX ip b xs) = b + sum_list (map data_length xs)"
  by (induction xs arbitrary: ip b) (auto simp: Let_def split_beta)

lemma table_lines_text:
  assumes "sorted_wrt (<) (map (r_num \<circ> nr_ref) xs)"
  shows "concat (fst (table_lines (getIndexes xs) 0 b xs)) = concat (map sect_text (sections (place b xs)))"
proof (cases xs)
  case (Cons x ys)
  let ?f = "r_num (nr_ref x) + 1"
  have "sects ?f [] (place b xs) = (?f, [] @ []) # sections (place b xs)" using Cons by simp
  from table_lines_sects [OF this _ assms, of 0 "getIndexes xs"]
  show ?thesis using getIndexes_sections [of xs b] by simp
qed simp

section \<open>The tokens of the table\<close>

text \<open>A text in front of another that lexes; it may end in white space.\<close>

definition leads :: "rounding \<Rightarrow> jsstr \<Rightarrow> pobj list \<Rightarrow> bool" where
  "leads fl tx ts \<longleftrightarrow> (\<forall>b us. lexable fl b us \<longrightarrow> lexable fl (tx @ b) (ts @ us))"

lemma leadsD: "leads fl tx ts \<Longrightarrow> lexable fl b us \<Longrightarrow> lexable fl (tx @ b) (ts @ us)"
  by (simp add: leads_def)

lemma leads_append: "leads fl tx ts \<Longrightarrow> leads fl ty us \<Longrightarrow> leads fl (tx @ ty) (ts @ us)"
  by (simp add: leads_def)

lemma leads_Nil: "leads fl [] []"
  by (simp add: leads_def)

lemma leads_concat:
  "(\<And>x. x \<in> set xs \<Longrightarrow> leads fl (f x) (g x)) \<Longrightarrow> leads fl (concat (map f xs)) (concat (map g xs))"
  by (induction xs) (auto intro: leads_append leads_Nil)

lemma leads_white:
  assumes "lexable fl tx ts" and "c \<in> {0, 9, 10, 12, 13, 32}"
  shows "leads fl (tx @ [c]) ts"
proof -
  have "lexable fl (tx @ c # b) (ts @ us)" if "lexable fl b us" for b us
    using lexable_append [OF assms(1) lexable_white [OF that assms(2)]] assms(2) by auto
  then show ?thesis by (simp add: leads_def)
qed

lemma leads_spaces: "leads fl tx ts \<Longrightarrow> c \<in> {0, 9, 10, 12, 13, 32} \<Longrightarrow> leads fl (tx @ [c]) ts"
  using lexable_white by (simp add: leads_def)

definition line_entry :: "placed \<Rightarrow> xref_entry" where
  "line_entry p = (let gen = r_gen (nr_ref (snd p))
     in if nr_data (snd p) \<noteq> None then \<lparr>xe_offset = int (fst p), xe_gen = min gen 0xffff, xe_free = False, xe_uncompressed = True\<rparr>
        else \<lparr>xe_offset = 0, xe_gen = min (gen + 1) 0xffff, xe_free = True, xe_uncompressed = False\<rparr>)"

definition entry_type :: "xref_entry \<Rightarrow> pobj" where
  "entry_type e = PCmd (if xe_free e then js ''f'' else js ''n'')"

definition line_toks :: "placed \<Rightarrow> pobj list" where
  "line_toks p = (let e = line_entry p in [int_obj (xe_offset e), int_obj (xe_gen e), entry_type e])"

fun sect_toks :: "int \<times> placed list \<Rightarrow> pobj list" where
  "sect_toks (f, ps) = int_obj f # int_obj (int (length ps)) # concat (map line_toks ps)"

lemma dec_val_zeros: "dec_val (replicate k 48 @ ds) = dec_val ds"
  by (induction k) (simp_all add: dec_val_def digits_val_def)

lemma padded_digits:
  "list_all dec_digit (padStart k 48 (nat_dec n))" "padStart k 48 (nat_dec n) \<noteq> []" "dec_val (padStart k 48 (nat_dec n)) = n"
  using nat_dec_digits [of n] by (auto simp: padStart_def list_all_iff dec_digit_def dec_val_zeros)

definition line_ok :: "placed \<Rightarrow> bool" where
  "line_ok p \<longleftrightarrow> fst p < 2 ^ 53 \<and> 0 \<le> r_gen (nr_ref (snd p)) \<and> \<bar>pnum p\<bar> < 2 ^ 53"

context exact_integers
begin

lemma lexable_padded:
  assumes "n < 2 ^ 53"
  shows "lexable fl (padStart k 48 (nat_dec n)) [int_obj (int n)]"
proof (rule lexableI)
  show "list_all (\<lambda>c. c < 256) (padStart k 48 (nat_dec n))"
    using padded_digits(1) [of k n] by (auto simp: list_all_iff dec_digit_def)
next
  show "\<exists>lx'. lexer_getObj fl lx = Inr (int_obj (int n), lx') \<and> lexer_on lx' t"
    if "lexer_on lx (padStart k 48 (nat_dec n) @ t)" "delim t" for lx t
    using digits_token [OF that(1) padded_digits(1,2) that(2)] assms by (simp add: int_obj_def padded_digits(3))
qed (simp add: padded_digits)

lemma line_text:
  assumes "b < 2 ^ 53" and "0 \<le> g" and "g \<le> 0xffff" and "c = 0x66 \<or> c = 0x6e"
  shows "leads fl (padStart 10 48 (nat_dec b) @ 32 # padStart 5 48 (int_dec g) @ [32, c, 13, 10]) [int_obj (int b), int_obj g, PCmd [c]]"
proof -
  have "lexable fl [c] [PCmd [c]]" using lexable_word [of c "[]"] assms(4) by (auto simp: word_value_def)
  from leads_spaces [OF leads_white [OF this, of 13], of 10] have c: "leads fl [c, 13, 10] [PCmd [c]]" by simp
  have "lexable fl (padStart 5 48 (int_dec g)) [int_obj g]" using lexable_padded [of "nat g" 5] assms(2,3) by (simp add: int_dec_def)
  from leads_append [OF leads_white [OF this, of 32] c]
  have "leads fl (padStart 5 48 (int_dec g) @ [32, c, 13, 10]) [int_obj g, PCmd [c]]" by simp
  from leads_append [OF leads_white [OF lexable_padded [OF assms(1), of 10], of 32] this] show ?thesis by simp
qed

lemma placed_line_leads:
  assumes "line_ok p"
  shows "leads fl (placed_line p) (line_toks p)"
proof (cases p)
  case (Pair b x)
  have "nat_dec 0 = [48]" by (simp add: nat_dec_0)
  then have z: "padStart 10 48 (nat_dec 0) = js ''0000000000''" by (simp add: padStart_def numeral_eq_Suc)
  show ?thesis
    using line_text [of b "min (r_gen (nr_ref x)) 0xffff" "0x6e"] line_text [of 0 "min (r_gen (nr_ref x) + 1) 0xffff" "0x66"] assms z Pair
    by (auto simp: line_ok_def line_toks_def line_entry_def entry_type_def table_line_def Let_def split: option.split)
qed

lemma sect_leads:
  assumes "list_all line_ok ps" and "\<bar>f\<bar> < 2 ^ 53" and "length ps < 2 ^ 53"
  shows "leads fl (sect_text (f, ps)) (sect_toks (f, ps))"
proof -
  have "leads fl (int_dec f @ [32]) [int_obj f]"
    using leads_white [OF lexable_int [OF assms(2)], of 32] by (simp add: int_obj_def)
  moreover have "leads fl (int_dec (int (length ps)) @ [10]) [int_obj (int (length ps))]"
    using leads_white [OF lexable_int [of "int (length ps)"], of 10] assms(3) by (simp add: int_obj_def)
  moreover have "leads fl (concat (map placed_line ps)) (concat (map line_toks ps))"
    using assms(1) by (intro leads_concat placed_line_leads) (auto simp: list_all_iff)
  ultimately have "leads fl ((int_dec f @ [32]) @ (int_dec (int (length ps)) @ [10]) @ concat (map placed_line ps))
      ([int_obj f] @ [int_obj (int (length ps))] @ concat (map line_toks ps))" by (intro leads_append)
  then show ?thesis by simp
qed

end

section \<open>Reading the table\<close>

lemma int_obj_parses: "parses fl K [int_obj i] (int_obj i) (Suc 0)"
  unfolding int_obj_def by (rule int_parses)

lemma good_int: "good (int_obj i) b \<longleftrightarrow> b \<noteq> PCmd (js ''R'')"
  by (simp add: good_def int_obj_def)

lemma good_type: "good (entry_type e) b \<longleftrightarrow> b \<noteq> PCmd (js ''R'')"
  by (simp add: good_def entry_type_def)

lemma entry_of_line: "entry_of (int_obj (xe_offset e)) (int_obj (xe_gen e)) (entry_type e) = Inr e" if "xe_uncompressed e = (\<not> xe_free e)"
  using that by (simp add: entry_of_def int_obj_def entry_type_def isCmd_def)

lemma table_entry_read:
  assumes "parser_at fl ps (line_toks p @ a # b # us) lx" and "good a b" and "has_class (ps_cipher ps) None" and "0 < n"
  shows "\<exists>ps'. table_entry fl n ps = Some (Inr (line_entry p, ps')) \<and> parser_at fl ps' (a # b # us) lx \<and> has_class (ps_cipher ps') None"
proof -
  let ?e = "line_entry p" and ?c = "entry_type (line_entry p)"
  have ty: "?c \<noteq> PCmd (js ''R'')" "xe_uncompressed ?e = (\<not> xe_free ?e)" by (auto simp: entry_type_def line_entry_def Let_def)
  have at: "parser_at fl ps ([int_obj (xe_offset ?e)] @ int_obj (xe_gen ?e) # ?c # a # b # us) lx"
    using assms(1) by (simp add: line_toks_def Let_def)
  obtain ps1 where ps1: "parser_getObj fl n ps = Some (Inr (int_obj (xe_offset ?e), ps1))"
      "parser_at fl ps1 ([int_obj (xe_gen ?e)] @ ?c # a # b # us) lx" "has_class (ps_cipher ps1) None"
    using parsesD [OF int_obj_parses at, of None n] assms(3,4) ty(1) by (auto simp: good_int)
  obtain ps2 where ps2: "parser_getObj fl n ps1 = Some (Inr (int_obj (xe_gen ?e), ps2))"
      "parser_at fl ps2 ([?c] @ a # b # us) lx" "has_class (ps_cipher ps2) None"
    using parsesD [OF int_obj_parses ps1(2) _ ps1(3), of n] assms(2,4) by (auto simp: good_type) (auto simp: good_def)
  have "parses fl None [?c] ?c (Suc 0)" unfolding entry_type_def by (rule cmd_parses) auto
  then obtain ps3 where "parser_getObj fl n ps2 = Some (Inr (?c, ps3))" "parser_at fl ps3 (a # b # us) lx" "has_class (ps_cipher ps3) None"
    using parsesD [OF _ ps2(2) assms(2) ps2(3), of ?c "Suc 0" n] assms(4) by auto
  then show ?thesis using ps1(1) ps2(1) entry_of_line [OF ty(2)] by (simp add: table_entry_def)
qed

fun add_lines :: "int \<Rightarrow> placed list \<Rightarrow> xref \<Rightarrow> xref" where
  "add_lines i [] xr = xr"
| "add_lines i (p # ps) xr = add_lines (i + 1) ps (add_entry_at i (line_entry p) xr)"

lemma add_entry_at_table [simp]: "add_entry_at i e (xr\<lparr>xr_tableState := ts\<rparr>) = (add_entry_at i e xr)\<lparr>xr_tableState := ts\<rparr>"
  by (simp add: add_entry_at_def entry_at_def split: option.split)

lemma add_lines_table [simp]: "add_lines i ps (xr\<lparr>xr_tableState := ts\<rparr>) = (add_lines i ps xr)\<lparr>xr_tableState := ts\<rparr>"
  by (induction ps arbitrary: i xr) simp_all

lemma line_toks_not_R: "\<exists>x y zs. concat (map line_toks ps) @ a # b # us = x # y # zs \<and> good x y" if "good a b" for a b us
  using that by (cases ps) (auto simp: line_toks_def Let_def good_def int_obj_def)

lemma add_entry_at_tableState [simp]: "xr_tableState (add_entry_at i e xr) = xr_tableState xr"
  by (simp add: add_entry_at_def split: option.split)

lemma table_entries_read:
  assumes "parser_at fl ps (concat (map line_toks qs) @ a # b # us) lx" and "good a b" and "has_class (ps_cipher ps) None" and "0 < n"
    and "\<not> (i = 0 \<and> first = 1 \<and> qs \<noteq> [] \<and> xe_free (line_entry (hd qs)))" and "xr_tableState xr = Some ts" and "count = i + int (length qs)"
    and "0 \<le> i"
  shows "\<exists>ps' ts'. table_entries fl n first count i ps xr = Some (Inr ps', (add_lines (first + i) qs xr)\<lparr>xr_tableState := Some ts'\<rparr>) \<and>
    parser_at fl ps' (a # b # us) lx \<and> has_class (ps_cipher ps') None"
  using assms
proof (induction qs arbitrary: i ps xr ts)
  case Nil
  have "xr\<lparr>xr_tableState := Some ts\<rparr> = xr" using Nil.prems(6) by (cases xr) simp
  moreover have "table_entries fl n first count i ps xr = Some (Inr ps, xr)" using Nil.prems(7) by (subst table_entries.simps) (simp add: xret_def)
  ultimately show ?case using Nil.prems(1,3) by (intro exI [of _ ps] exI [of _ ts]) simp
next
  case (Cons p qs)
  obtain x y zs where xy: "concat (map line_toks qs) @ a # b # us = x # y # zs" "good x y" using line_toks_not_R [OF Cons.prems(2)] by blast
  have "parser_at fl ps (line_toks p @ x # y # zs) lx" using Cons.prems(1) xy(1) by simp
  then obtain ps1 where ps1: "table_entry fl n ps = Some (Inr (line_entry p, ps1))"
      "parser_at fl ps1 (concat (map line_toks qs) @ a # b # us) lx" "has_class (ps_cipher ps1) None"
    using table_entry_read [OF _ xy(2) Cons.prems(3,4)] xy(1) by metis
  let ?xr = "add_entry_at (first + i) (line_entry p) (set_table (mark_table i ps) xr)"
  have ts: "xr_tableState ?xr = Some (mark_table i ps ts)" using Cons.prems(6) by (simp add: set_table_def)
  have st: "table_entries fl n first count i ps xr = table_entries fl n first count (i + 1) ps1 ?xr"
    using ps1(1) Cons.prems(5,7) by (subst table_entries.simps) (auto simp: Let_def)
  obtain ps' ts' where "table_entries fl n first count (i + 1) ps1 ?xr =
      Some (Inr ps', (add_lines (first + (i + 1)) qs ?xr)\<lparr>xr_tableState := Some ts'\<rparr>)"
      "parser_at fl ps' (a # b # us) lx" "has_class (ps_cipher ps') None"
    using Cons.IH [OF ps1(2) Cons.prems(2) ps1(3) Cons.prems(4) _ ts] Cons.prems(7,8) by auto
  then show ?case using st by (auto simp: set_table_def add.assoc)
qed

fun add_sects :: "(int \<times> placed list) list \<Rightarrow> xref \<Rightarrow> xref" where
  "add_sects [] xr = xr"
| "add_sects ((f, qs) # ss) xr = add_sects ss (add_lines f qs xr)"

lemma add_sects_table [simp]: "add_sects ss (xr\<lparr>xr_tableState := ts\<rparr>) = (add_sects ss xr)\<lparr>xr_tableState := ts\<rparr>"
  by (induction ss arbitrary: xr) auto

text \<open>A subsection that starts with the deleted object 1 is the one case that is not read as it is written.\<close>

fun shifted :: "int \<times> placed list \<Rightarrow> bool" where
  "shifted (f, qs) \<longleftrightarrow> f = 1 \<and> qs \<noteq> [] \<and> xe_free (line_entry (hd qs))"

definition table_start :: "xref \<Rightarrow> bool" where
  "table_start xr \<longleftrightarrow> (\<exists>ts. xr_tableState xr = Some ts \<and> ts_first ts = None \<and> ts_count ts = None \<and> ts_entryNum ts = 0)"

lemma obj_int_int_obj [simp]: "obj_int (int_obj i) = Some i"
  by (simp add: int_obj_def)

lemma sect_toks_not_R: "\<exists>x y zs. concat (map sect_toks ss) @ a # b # us = x # y # zs \<and> good x y" if "good a b" for a b us
proof (cases ss)
  case (Cons s ss')
  then show ?thesis by (cases s) (simp add: good_def int_obj_def)
qed (use that in simp)

lemma table_header_read:
  assumes "parser_at fl ps (int_obj f # int_obj c # x # y # us) lx" and "good x y" and "has_class (ps_cipher ps) None" and "0 < n"
    and "table_start xr"
  shows "\<exists>ps' ts. table_header fl n ps xr = Some (Inr (Some (int_obj f, int_obj c), int_obj f, ps'), xr\<lparr>xr_tableState := Some ts\<rparr>) \<and>
    ts_entryNum ts = 0 \<and> parser_at fl ps' (x # y # us) lx \<and> has_class (ps_cipher ps') None"
proof -
  have ne: "x \<noteq> PCmd (js ''R'')" using assms(2) by (simp add: good_def)
  obtain ps1 where ps1: "parser_getObj fl n ps = Some (Inr (int_obj f, ps1))" "parser_at fl ps1 (int_obj c # x # y # us) lx" "has_class (ps_cipher ps1) None"
    using parsesD [OF int_obj_parses, of fl ps f "int_obj c" x "y # us" lx None n] assms(1,3,4) ne by (auto simp: good_int)
  obtain ps2 where ps2: "parser_getObj fl n ps1 = Some (Inr (int_obj c, ps2))" "parser_at fl ps2 (x # y # us) lx" "has_class (ps_cipher ps2) None"
    using parsesD [OF int_obj_parses, of fl ps1 c x y us lx None n] ps1(2,3) assms(2,4) by auto
  obtain ts where ts: "xr_tableState xr = Some ts" "ts_first ts = None" "ts_count ts = None" "ts_entryNum ts = 0"
    using assms(5) by (auto simp: table_start_def)
  have "\<not> isCmd (int_obj f) (Some (js ''trailer''))" by (simp add: isCmd_def int_obj_def)
  then have "table_header fl n ps xr = Some (Inr (Some (int_obj f, int_obj c), int_obj f, ps2), xr\<lparr>xr_tableState := Some (ts\<lparr>ts_first := Some (int_obj f), ts_count := Some (int_obj c)\<rparr>)\<rparr>)"
    using ps1(1) ps2(1) ts by (simp add: table_header_def xret_def set_table_def)
  then show ?thesis using ps2(2,3) ts(4) by auto
qed

lemma table_loop_read:
  assumes "parser_at fl ps (concat (map sect_toks ss) @ PCmd (js ''trailer'') # b # c # us) lx" and "b \<noteq> PCmd (js ''R'')"
    and "b \<noteq> PCmd (js ''ID'')" and "b \<noteq> PCmd (js ''stream'')" and "c \<noteq> PCmd (js ''R'')"
    and "has_class (ps_cipher ps) None" and "0 < n" and "length ss < k" and "\<forall>s \<in> set ss. \<not> shifted s" and "table_start xr"
  shows "\<exists>ps' ts. table_loop fl n k ps xr = Some (Inr (PCmd (js ''trailer''), ps'), (add_sects ss xr)\<lparr>xr_tableState := Some ts\<rparr>) \<and>
    parser_at fl ps' (b # c # us) lx \<and> has_class (ps_cipher ps') None"
  using assms(1,6,8,9,10)
proof (induction ss arbitrary: k ps xr)
  case Nil
  obtain k' where k: "k = Suc k'" using Nil.prems(3) by (cases k) auto
  obtain ts where ts: "xr_tableState xr = Some ts" "ts_first ts = None" using Nil.prems(5) by (auto simp: table_start_def)
  have "good b c" using assms(2-5) by (simp add: good_def)
  then obtain ps' where ps': "parser_getObj fl n ps = Some (Inr (PCmd (js ''trailer''), ps'))" "parser_at fl ps' (b # c # us) lx" "has_class (ps_cipher ps') None"
    using parsesD [OF cmd_parses, of "js ''trailer''" fl ps b c us lx None n] Nil.prems(1,2) assms(7) by auto
  have "isCmd (PCmd (js ''trailer'')) (Some (js ''trailer''))" by (simp add: isCmd_def)
  then have "table_header fl n ps xr = Some (Inr (None, PCmd (js ''trailer''), ps'), xr)"
    using ps'(1) ts by (simp add: table_header_def xret_def)
  moreover have "xr\<lparr>xr_tableState := Some ts\<rparr> = xr" using ts(1) by (cases xr) simp
  ultimately show ?case using ps'(2,3) k by (intro exI [of _ ps'] exI [of _ ts]) (simp add: xbind_def xret_def)
next
  case (Cons s ss)
  obtain f qs where s: "s = (f, qs)" by (cases s)
  obtain k' where k: "k = Suc k'" using Cons.prems(3) by (cases k) auto
  let ?fin = "PCmd (js ''trailer'') # b # c # us"
  have g: "good (PCmd (js ''trailer'')) b" using assms(2) by (simp add: good_def)
  obtain x y zs where xy: "concat (map sect_toks ss) @ ?fin = x # y # zs" "good x y" using sect_toks_not_R [OF g, of ss "c # us"] by auto
  obtain x' y' zs' where xy': "concat (map line_toks qs) @ x # y # zs = x' # y' # zs'" "good x' y'" using line_toks_not_R [OF xy(2)] by blast
  have at: "parser_at fl ps (int_obj f # int_obj (int (length qs)) # x' # y' # zs') lx"
    using Cons.prems(1) s xy xy' by simp
  obtain ps1 ts where h: "table_header fl n ps xr = Some (Inr (Some (int_obj f, int_obj (int (length qs))), int_obj f, ps1), xr\<lparr>xr_tableState := Some ts\<rparr>)"
      "ts_entryNum ts = 0" "parser_at fl ps1 (concat (map line_toks qs) @ x # y # zs) lx" "has_class (ps_cipher ps1) None"
    using table_header_read [OF at xy'(2) Cons.prems(2) assms(7) Cons.prems(5)] xy'(1) by auto
  have sh: "\<not> (0 = (0::int) \<and> f = 1 \<and> qs \<noteq> [] \<and> xe_free (line_entry (hd qs)))" using Cons.prems(4) s by simp
  obtain ps2 ts2 where e: "table_entries fl n f (int (length qs)) 0 ps1 (xr\<lparr>xr_tableState := Some ts\<rparr>) =
      Some (Inr ps2, (add_lines f qs xr)\<lparr>xr_tableState := Some ts2\<rparr>)"
      "parser_at fl ps2 (concat (map sect_toks ss) @ ?fin) lx" "has_class (ps_cipher ps2) None"
    using table_entries_read [OF h(3) xy(2) h(4) assms(7) sh, of "xr\<lparr>xr_tableState := Some ts\<rparr>" ts "int (length qs)"] xy(1) by auto
  let ?xr = "(add_lines f qs xr)\<lparr>xr_tableState := Some ((mark_table 0 ps2 ts2)\<lparr>ts_first := None, ts_count := None\<rparr>)\<rparr>"
  have "table_start ?xr" by (simp add: table_start_def mark_table_def)
  then obtain ps' ts' where ih: "table_loop fl n k' ps2 ?xr = Some (Inr (PCmd (js ''trailer''), ps'), (add_sects ss ?xr)\<lparr>xr_tableState := Some ts'\<rparr>)"
      "parser_at fl ps' (b # c # us) lx" "has_class (ps_cipher ps') None"
    using Cons.IH [OF e(2,3), of k' ?xr] Cons.prems(3,4) k by auto
  have "table_loop fl n k ps xr = table_loop fl n k' ps2 ?xr"
    using k h(1,2) e(1) by (simp add: xbind_def xget_def xmod_def set_table_def)
  then show ?case using ih s by (intro exI [of _ ps'] exI [of _ ts']) simp
qed

lemma add_entry_at_entries: "entry_at (add_entry_at i e xr) j = (case entry_at xr j of Some e' \<Rightarrow> Some e' | None \<Rightarrow> if i = j then Some e else None)"
  by (auto simp: add_entry_at_def entry_at_def map_add_def split: option.split)

fun line_pair :: "placed \<Rightarrow> int \<times> xref_entry" where
  "line_pair p = (pnum p, line_entry p)"

declare line_pair.simps [simp del]

lemma add_lines_entries:
  assumes "numbered i ps"
  shows "entry_at (add_lines i ps xr) j = (case entry_at xr j of Some e \<Rightarrow> Some e | None \<Rightarrow> map_of (map line_pair ps) j)"
  using assms
proof (induction ps arbitrary: i xr)
  case (Cons p ps)
  have n: "pnum p = i" "numbered (i + 1) ps" using Cons.prems by (force simp: numbered_def)+
  then show ?case by (auto simp: Cons.IH add_entry_at_entries line_pair.simps [of p] split: option.split)
qed (simp split: option.split)

lemma add_sects_entries:
  assumes "\<forall>(f, qs) \<in> set ss. numbered f qs"
  shows "entry_at (add_sects ss xr) j = (case entry_at xr j of Some e \<Rightarrow> Some e | None \<Rightarrow> map_of (map line_pair (concat (map snd ss))) j)"
  using assms
proof (induction ss arbitrary: xr)
  case (Cons s ss)
  then show ?case by (cases s) (auto simp: add_lines_entries map_add_def split: option.split)
qed (simp split: option.split)

lemma add_sects_grows: "grows xr (add_sects ss xr)"
proof -
  have l: "grows xr (add_lines i ps xr)" for i ps xr
  proof (induction ps arbitrary: i xr)
    case (Cons p ps)
    show ?case using growing.rel_trans [OF grows_add_entry Cons] by simp
  qed (simp add: growing.rel_refl)
  show ?thesis
  proof (induction ss arbitrary: xr)
    case (Cons s ss)
    show ?case using growing.rel_trans [OF l Cons] by (cases s) simp
  qed (simp add: growing.rel_refl)
qed

end
