(* ===== verification/Update_Roundtrip.thy ===== *)
theory Update_Roundtrip
  imports Update_Table
begin

text \<open>
  A saved document is read back: after \<open>incrementalUpdate\<close> with a table, \<open>readXRef\<close> finds the
  new section and \<open>fetch\<close> returns the object that was written, whatever the rest of the file
  holds.
\<close>

section \<open>Reading the new section\<close>

lemma set_pos_same [simp]: "set_pos (s_pos (parser_stream ps)) ps = ps"
  by (simp add: set_pos_def)

lemma bufs_same [simp]: "ps\<lparr>ps_buf1 := ps_buf1 ps, ps_buf2 := ps_buf2 ps\<rparr> = ps"
  by simp

lemma mk_lexer_rest:
  assumes "stream_ok s" and "rest s = stringToBytes t" and "list_all (\<lambda>c. c < 256) t"
  shows "lexer_on (mk_lexer s None) t"
  using nextChar_rest [of "\<lparr>lx_stream = s, lx_char = None, lx_known = None, lx_beginPos = None\<rparr>"] bytesToString_stringToBytes [OF assms(3)] assms
  by (simp add: mk_lexer_def)

definition table_toks :: "(int \<times> placed list) list \<Rightarrow> pobj list \<Rightarrow> nat \<Rightarrow> pobj list" where
  "table_toks ss ts p = PCmd (js ''xref'') # concat (map sect_toks ss) @ PCmd (js ''trailer'') # ts @ [PCmd (js ''startxref''), int_obj (int p)]"

definition first_free :: "xref \<Rightarrow> bool" where
  "first_free xr \<longleftrightarrow> (case entry_at xr 0 of Some e \<Rightarrow> xe_free e | None \<Rightarrow> True)"

lemma processXRefTable_read:
  assumes "parser_at fl ps (concat (map sect_toks ss) @ PCmd (js ''trailer'') # ts @ [PCmd (js ''startxref''), int_obj (int p)]) lx"
    and "has_class (ps_cipher ps) None" and "starts_value ts" and "parses fl None ts (PDict m False) k" and "\<forall>s \<in> set ss. \<not> shifted s"
    and "k < n" and "length ss < n" and "xr_tableState xr = None" and "first_free (add_sects ss xr)"
  shows "processXRefTable fl n ps xr = Some (Inr m, add_sects ss xr)"
proof -
  let ?e = "PCmd (js ''startxref'')" and ?p = "int_obj (int p)"
  let ?ts0 = "\<lparr>ts_entryNum = 0, ts_first = None, ts_count = None, ts_streamPos = s_pos (parser_stream ps), ts_buf1 = ps_buf1 ps, ts_buf2 = ps_buf2 ps\<rparr>"
  let ?xr = "xr\<lparr>xr_tableState := Some ?ts0\<rparr>"
  have g: "good ?e ?p" by (simp add: good_def int_obj_def)
  obtain b c us where bc: "ts @ [?e, ?p] = b # c # us" "good b c" using starts_list [of "[ts]" ?e ?p "[]"] assms(3) g by auto
  have "table_start ?xr" by (simp add: table_start_def)
  moreover have "parser_at fl ps (concat (map sect_toks ss) @ PCmd (js ''trailer'') # b # c # us) lx" using assms(1) bc(1) by simp
  ultimately obtain ps' ts' where t: "table_loop fl n n ps ?xr = Some (Inr (PCmd (js ''trailer''), ps'), (add_sects ss xr)\<lparr>xr_tableState := Some ts'\<rparr>)"
      "parser_at fl ps' (ts @ [?e, ?p]) lx" "has_class (ps_cipher ps') None"
    using table_loop_read [of fl ps ss b c us lx n n ?xr] bc assms(2,5,6,7) by (auto simp: good_def)
  have f: "entry_at ((add_sects ss xr)\<lparr>xr_tableState := Some ts'\<rparr>) 0 = entry_at (add_sects ss xr) 0" by (simp add: entry_at_def)
  have r: "readXRefTable fl n ps ?xr = Some (Inr (PCmd (js ''trailer''), ps'), (add_sects ss xr)\<lparr>xr_tableState := Some ts'\<rparr>)"
    using t(1) assms(9) f by (auto simp: readXRefTable_def xbind_def xget_def first_free_def xret_def split: option.splits)
  obtain ps2 where d: "parser_getObj fl n ps' = Some (Inr (PDict m False, ps2))"
    using parsesD [OF assms(4), of ps' ?e ?p "[]" lx n] t(2,3) g assms(6) by auto
  have "(add_sects ss xr)\<lparr>xr_tableState := None\<rparr> = add_sects ss xr"
  proof -
    have "xr\<lparr>xr_tableState := None\<rparr> = xr" using assms(8) by (cases xr) simp
    then show ?thesis by (metis add_sects_table)
  qed
  moreover have "isCmd (PCmd (js ''trailer'')) (Some (js ''trailer''))" by (simp add: isCmd_def)
  ultimately show ?thesis
    using r d assms(8) by (simp add: processXRefTable_def xbind_def xmod_def xlift_def xret_def)
qed

lemma read_section_table:
  assumes "lexable fl tx (table_toks ss ts p)" and "starts_value ts" and "parses fl None ts (PDict m False) k" and "delim t"
    and "list_all (\<lambda>c. c < 256) t"
    and "xr_stream xr = mk_stream (pre @ stringToBytes (tx @ t)) None None" and "\<forall>s \<in> set ss. \<not> shifted s" and "k < n" and "length ss < n"
    and "xr_tableState xr = None" and "first_free (add_sects ss xr)"
  shows "read_section fl n look opened (int (length pre)) xr = Some (Inr (),
    push_prev (dict_get look False m (js ''Prev''))
      ((add_stm (dict_get look False m (js ''XRefStm'')) (set_topDict m (add_sects ss xr)))
        \<lparr>xr_sectionOffsets := List.insert (int (length pre)) (xr_sectionOffsets (add_stm (dict_get look False m (js ''XRefStm'')) (set_topDict m (add_sects ss xr))))\<rparr>))"
proof -
  let ?s = "(xr_stream xr)\<lparr>s_pos := length pre\<rparr>" and ?x = "PCmd (js ''xref'')"
  have "stream_ok ?s" "rest ?s = stringToBytes (tx @ t)" using assms(6) by (simp_all add: mk_stream_def Let_def stream_ok_def rest_def)
  then have "lexer_on (mk_lexer ?s None) (tx @ t)" using mk_lexer_rest assms(1,5) by (simp add: lexable_def)
  then obtain lx where lx: "lexes fl (mk_lexer ?s None) (table_toks ss ts p) lx" using lexableD [OF assms(1) _ assms(4)] by blast
  have g: "good (PCmd (js ''trailer'')) (hd ts)"
    using assms(2) by (auto simp: good_def starts_value_def dest: opens_simps)
  obtain x y zs where xy: "concat (map sect_toks ss) @ PCmd (js ''trailer'') # ts @ [PCmd (js ''startxref''), int_obj (int p)] = x # y # zs" "good x y"
    using sect_toks_not_R [OF g, of ss "tl ts @ [PCmd (js ''startxref''), int_obj (int p)]"] assms(2) by (cases ts) (auto simp: starts_value_def)
  obtain ps where ps: "mk_parser fl (mk_lexer ?s None) look True False None = Inr ps" "parser_at fl ps (?x # x # y # zs) lx" "ps_cipher ps = None"
    using mk_parser_at [of fl "mk_lexer ?s None" ?x x "y # zs" lx look True False None] lx xy(1) by (auto simp: table_toks_def simp del: js_Cons)
  obtain ps1 where ps1: "parser_getObj fl n ps = Some (Inr (?x, ps1))" "parser_at fl ps1 (x # y # zs) lx" "has_class (ps_cipher ps1) None"
    using parsesD [OF cmd_parses, of "js ''xref''" fl ps x y zs lx None n] ps(2,3) xy(2) assms(8) by (auto simp: has_class_def)
  have "processXRefTable fl n ps1 xr = Some (Inr m, add_sects ss xr)"
    using processXRefTable_read [OF _ ps1(3) assms(2,3,7-11), of p lx] ps1(2) xy(1) by simp
  moreover have "isCmd ?x (Some (js ''xref''))" by (simp add: isCmd_def)
  moreover have "s_start (xr_stream xr) = 0" using assms(6) by (simp add: mk_stream_def Let_def)
  ultimately show ?thesis
    using ps(1) ps1(1) by (simp add: read_section_def read_dict_def xbind_def xmod_def xret_def)
qed

section \<open>Writing the changes\<close>

text \<open>The data of a new reference is the text of the value.\<close>

definition holds_object :: "rounding \<Rightarrow> crypt_info \<Rightarrow> new_ref \<Rightarrow> pobj \<Rightarrow> bool" where
  "holds_object fl ci x v \<longleftrightarrow> (\<exists>K tx ts k. nr_data x = Some (tx @ [10]) \<and> has_class (object_transform ci (nr_ref x)) K \<and>
     lexable fl tx (PNum (Num (of_int (r_num (nr_ref x)))) # PNum (Num (of_int (r_gen (nr_ref x)))) # PCmd (js ''obj'') # ts @ [PCmd (js ''endobj'')]) \<and>
     starts_value ts \<and> parses fl K ts v k)"

fun change_ok :: "nat \<Rightarrow> crypt_info \<Rightarrow> ref \<times> change \<Rightarrow> bool" where
  "change_ok n ci (r, c) \<longleftrightarrow> 1 \<le> r_num r \<and> r_num r < 2 ^ 53 \<and> 0 \<le> r_gen r \<and> r_gen r \<le> 0xffff \<and>
     (case c of Object v \<Rightarrow> writable v \<and> nested n v \<and> usable_cipher (object_transform ci r) | Deleted \<Rightarrow> r_num r \<noteq> 1 | _ \<Rightarrow> False)"

fun written :: "rounding \<Rightarrow> crypt_info \<Rightarrow> ref \<times> change \<Rightarrow> new_ref \<Rightarrow> bool" where
  "written fl ci (r, c) x \<longleftrightarrow> nr_ref x = r \<and> (case c of Object v \<Rightarrow> holds_object fl ci x v | Deleted \<Rightarrow> nr_data x = None | _ \<Rightarrow> False)"

context exact_integers
begin

lemma write_changes_written:
  assumes "list_all (change_ok n ci) cs" and "\<And>i. length (ivs i) = 16"
  shows "\<exists>xs. write_changes_loop deflate fetch ivs n ci drawn cs = Some (Inr xs) \<and> list_all2 (written fl ci) cs xs"
  using assms(1)
proof (induction cs arbitrary: drawn)
  case (Cons rc cs)
  obtain r c where rc: "rc = (r, c)" by (cases rc)
  show ?case
  proof (cases c)
    case (Object v)
    let ?w = "\<lparr>wr_buffer = [], wr_cipher = object_transform ci r, wr_drawn = drawn\<rparr>"
    have v: "writable v" "nested n v" "usable_cipher (object_transform ci r)" "\<bar>r_num r\<bar> < 2 ^ 53" "\<bar>r_gen r\<bar> < 2 ^ 53"
      using Cons.prems rc Object by auto
    obtain K where K: "has_class (object_transform ci r) K" "usable_class K" using usable_class [OF v(3)] .
    obtain w' tx ts k where w': "writeObject deflate fetch ivs n r v ?w = Some (Inr w')" "concat (wr_buffer w') = tx @ [10]"
        "lexable fl tx (PNum (Num (of_int (r_num r))) # PNum (Num (of_int (r_gen r))) # PCmd (js ''obj'') # ts @ [PCmd (js ''endobj'')])"
        "starts_value ts" "parses fl K ts v k"
      using writeObject_text [where w = ?w and ivs = ivs and deflate = deflate and fetch = fetch, OF v(1) _ K(2) assms(2) v(2,4,5)] K(1) by auto
    obtain xs where xs: "write_changes_loop deflate fetch ivs n ci (wr_drawn w') cs = Some (Inr xs)" "list_all2 (written fl ci) cs xs"
      using Cons.IH Cons.prems by auto
    let ?x = "\<lparr>nr_ref = r, nr_data = Some (tx @ [10]), nr_objStream = None\<rparr>"
    have "holds_object fl ci ?x v" unfolding holds_object_def using w'(3-5) K(1) by auto
    then show ?thesis using xs w'(1,2) rc Object by (intro exI [of _ "?x # xs"]) simp
  next
    case Deleted
    obtain xs where "write_changes_loop deflate fetch ivs n ci drawn cs = Some (Inr xs)" "list_all2 (written fl ci) cs xs"
      using Cons.IH Cons.prems by auto
    then show ?thesis using rc Deleted by auto
  qed (use Cons.prems rc in auto)
qed simp

end

section \<open>Objects in the new file\<close>

definition data_text :: "new_ref list \<Rightarrow> jsstr" where
  "data_text xs = concat (map (\<lambda>x. case nr_data x of Some s \<Rightarrow> s | None \<Rightarrow> []) xs)"

lemma data_text_simps [simp]: "data_text [] = []"
    "data_text (x # xs) = (case nr_data x of Some s \<Rightarrow> s | None \<Rightarrow> []) @ data_text xs"
  by (simp_all add: data_text_def)

lemma concat_data: "concat (concat (map (\<lambda>x. case nr_data x of Some s \<Rightarrow> [s] | None \<Rightarrow> []) xs)) = data_text xs"
  by (induction xs) (simp_all split: option.split)

lemma length_data_text: "length (data_text xs) = sum_list (map data_length xs)"
  by (induction xs) (simp_all add: data_length_def split: option.split)

lemma place_split:
  assumes "x \<in> set xs"
  shows "\<exists>ys zs. xs = ys @ x # zs \<and> (b + length (data_text ys), x) \<in> set (place b xs)"
  using assms
proof (induction xs arbitrary: b)
  case (Cons y xs)
  show ?case
  proof (cases "x = y")
    case True
    then show ?thesis by (intro exI [of _ "[]"] exI [of _ xs]) simp
  next
    case False
    then obtain ys zs where "xs = ys @ x # zs" "(b + data_length y + length (data_text ys), x) \<in> set (place (b + data_length y) xs)"
      using Cons.IH [of "b + data_length y"] Cons.prems by auto
    then have "y # xs = (y # ys) @ x # zs \<and> (b + length (data_text (y # ys)), x) \<in> set (place b (y # xs))"
      by (auto simp: data_length_def add.assoc split: option.splits)
    then show ?thesis by blast
  qed
qed simp

lemma token_ahead_white:
  assumes "token_ahead fl t" and "c \<in> {0, 9, 10, 12, 13, 32}"
  shows "token_ahead fl (c # t)"
  unfolding token_ahead_def
proof (intro allI impI)
  fix lx
  assume on: "lexer_on lx (c # t)"
  then obtain tok lx' where "lexer_getObj fl (nextChar lx) = Inr (tok, lx')" "tok \<noteq> PCmd (js ''R'')"
    using assms(1) lexer_on_Cons(2) [OF on] by (auto simp: token_ahead_def)
  then show "\<exists>tok lx'. lexer_getObj fl lx = Inr (tok, lx') \<and> tok \<noteq> PCmd (js ''R'')"
    using lexes_white [OF on assms(2), of "[tok]" fl lx'] by auto
qed

definition plain_data :: "rounding \<Rightarrow> new_ref \<Rightarrow> bool" where
  "plain_data fl x \<longleftrightarrow> nr_data x = None \<or> (\<exists>tx i ts. nr_data x = Some (tx @ [10]) \<and> lexable fl tx (PNum i # ts))"

lemma data_ahead:
  assumes "list_all (plain_data fl) xs" and "token_ahead fl t" and "list_all (\<lambda>c. c < 256) t"
  shows "token_ahead fl (data_text xs @ t) \<and> list_all (\<lambda>c. c < 256) (data_text xs @ t)"
  using assms(1)
proof (induction xs)
  case (Cons x xs)
  then have ih: "token_ahead fl (data_text xs @ t)" "list_all (\<lambda>c. c < 256) (data_text xs @ t)" by auto
  show ?case
  proof (cases "nr_data x")
    case (Some s)
    then obtain tx i ts where tx: "s = tx @ [10]" "lexable fl tx (PNum i # ts)" using Cons.prems by (auto simp: plain_data_def)
    have "token_ahead fl (tx @ 10 # data_text xs @ t)" using token_ahead_lexable [OF tx(2)] by simp
    then show ?thesis using tx Some ih(2) by (simp add: lexable_def)
  qed (use ih in simp)
qed (use assms in simp)

lemma written_plain: "written fl ci (r, c) x \<Longrightarrow> plain_data fl x"
  by (auto simp: plain_data_def holds_object_def split: change.splits)

section \<open>The text of the update\<close>

lemma section_parts:
  assumes "(f, qs) \<in> set (sections ps)"
  shows "f \<in> pnum ` set ps" and "set qs \<subseteq> set ps" and "length qs \<le> length ps"
proof -
  have c: "concat (map snd (sections ps)) = ps" by (rule sections_concat)
  show "f \<in> pnum ` set ps"
  proof (cases ps)
    case (Cons p ps')
    obtain run ss where "sects (pnum p) [p] ps' = (pnum p, [p] @ run) # ss" "\<forall>f' \<in> fst ` set ss. f' \<in> pnum ` set ps'" using sects_head by blast
    then show ?thesis using assms Cons by force
  qed (use assms in simp)
  have q: "qs \<in> set (map snd (sections ps))" using assms by force
  show "set qs \<subseteq> set ps" using q c by (metis UN_upper set_concat)
  have "length qs \<in> set (map length (map snd (sections ps)))" using q by force
  then have "length qs \<le> length (concat (map snd (sections ps)))" unfolding length_concat by (rule member_le_sum_list) simp
  then show "length qs \<le> length ps" using c by simp
qed

context exact_integers
begin

lemma table_text:
  assumes "writable (PDict (computeIDs time (b + length (data_text xs)) xi newXref) False)"
    and "nested n (PDict (computeIDs time (b + length (data_text xs)) xi newXref) False)"
    and "sorted_wrt (<) (map (r_num \<circ> nr_ref) xs)" and "length xs < 2 ^ 53" and "\<And>i. length (ivs i) = 16"
  shows "\<exists>buf' hd tl ts k. getXRefTable deflate fetch ivs n time xi b xs newXref buf = Some (Inr buf') \<and>
    concat buf' = concat buf @ hd @ tl @ nat_dec (b + length (data_text xs)) @ 10 # js ''%%EOF'' @ [10] \<and> tl = 10 # js ''startxref'' @ [10] \<and>
    (list_all line_ok (place b xs) \<and> b + length (data_text xs) < 2 ^ 53 \<longrightarrow>
       lexable fl (hd @ tl @ nat_dec (b + length (data_text xs))) (table_toks (sections (place b xs)) ts (b + length (data_text xs)))) \<and>
    starts_value ts \<and> parses fl None ts (PDict (computeIDs time (b + length (data_text xs)) xi newXref) False) k"
proof -
  let ?fin = "b + length (data_text xs)" and ?ss = "sections (place b xs)"
  let ?d = "PDict (computeIDs time ?fin xi newXref) False"
  obtain ls where ls: "table_lines (getIndexes xs) 0 b xs = (ls, ?fin)"
    using table_lines_end [of "getIndexes xs" 0 b xs] length_data_text [of xs] by (metis prod.collapse)
  have lt: "concat ls = concat (map sect_text ?ss)" using table_lines_text [OF assms(3), of b] ls by simp
  let ?w = "\<lparr>wr_buffer = buf @ [js ''xref'' @ [10]] @ ls @ [js ''trailer'' @ [10]], wr_cipher = None, wr_drawn = 0\<rparr>"
  obtain w' where w': "writeValue deflate fetch ivs n ?d ?w = Some (Inr w')" "writes fl None ?w ?d w'"
    using writeValue_writes [where ivs = ivs and w = ?w and K = None, OF assms(1) _ _ assms(5,2)] by (auto simp: has_class_def usable_class_def)
  then obtain dtx ts k where dtx: "concat (wr_buffer w') = concat (wr_buffer ?w) @ dtx" "lexable fl dtx ts" "starts_value ts" "parses fl None ts ?d k"
    by (auto simp: writes_def)
  define hd where "hd = js ''xref'' @ [10] @ concat ls @ js ''trailer'' @ [10] @ dtx"
  define tl where "tl = 10 # js ''startxref'' @ [10]"
  have "lexable fl (hd @ tl @ nat_dec ?fin) (table_toks ?ss ts ?fin)" if ok: "list_all line_ok (place b xs)" "?fin < 2 ^ 53"
  proof -
    have "length (place b xs) = length xs" by (metis length_map map_snd_place)
    then have sp: "leads fl (sect_text s) (sect_toks s)" if "s \<in> set ?ss" for s
    proof -
      have sub: "fst s \<in> pnum ` set (place b xs)" "set (snd s) \<subseteq> set (place b xs)" "length (snd s) \<le> length (place b xs)"
        using section_parts [of "fst s" "snd s" "place b xs"] that by simp_all
      have "list_all line_ok (snd s)" using sub(2) ok(1) by (auto simp: list_all_iff)
      moreover have "\<bar>fst s\<bar> < 2 ^ 53" using sub(1) ok(1) by (force simp: list_all_iff line_ok_def)
      ultimately show ?thesis using sect_leads [of "snd s" "fst s"] sub(3) \<open>length (place b xs) = length xs\<close> assms(4) by simp
    qed
    have l1: "leads fl (concat ls) (concat (map sect_toks ?ss))" unfolding lt by (intro leads_concat sp)
    have l2: "leads fl (js ''xref'' @ [10]) [PCmd (js ''xref'')]" "leads fl (js ''trailer'' @ [10]) [PCmd (js ''trailer'')]"
      "leads fl (js ''startxref'' @ [10]) [PCmd (js ''startxref'')]"
      using leads_white [OF lexable_word [of "0x78" "js ''ref''"], of 10] leads_white [OF lexable_word [of "0x74" "js ''railer''"], of 10]
        leads_white [OF lexable_word [of "0x73" "js ''tartxref''"], of 10] by (simp_all add: word_value_def)
    have l3: "lexable fl (nat_dec ?fin) [int_obj (int ?fin)]" using lexable_padded [OF ok(2), of 0] by (simp add: padStart_def)
    note parts = leads_append [OF l2(1) leads_append [OF l1 l2(2)]] leadsD [OF l2(3) l3]
    have "lexable fl (dtx @ 10 # (js ''startxref'' @ [10]) @ nat_dec ?fin) (ts @ [PCmd (js ''startxref'')] @ [int_obj (int ?fin)])"
      using lexable_append [OF dtx(2) lexable_white [OF parts(2), of 10]] by simp
    from leadsD [OF parts(1) this] show "lexable fl (hd @ tl @ nat_dec ?fin) (table_toks ?ss ts ?fin)"
      by (simp add: hd_def tl_def table_toks_def)
  qed
  moreover have "getXRefTable deflate fetch ivs n time xi b xs newXref buf = Some (Inr (wr_buffer w' @ [tl, nat_dec ?fin, 10 # js ''%%EOF'' @ [10]]))"
    using ls w'(1) by (simp add: getXRefTable_def tl_def)
  moreover have "concat (wr_buffer w' @ [tl, nat_dec ?fin, 10 # js ''%%EOF'' @ [10]]) = concat buf @ hd @ tl @ nat_dec ?fin @ 10 # js ''%%EOF'' @ [10]"
    using dtx(1) by (simp add: hd_def tl_def)
  ultimately show ?thesis using dtx(3,4) tl_def by blast
qed

end

lemma place_bound: "(p, x) \<in> set (place b xs) \<Longrightarrow> p \<le> b + length (data_text xs) \<and> x \<in> set xs"
proof (induction xs arbitrary: b)
  case (Cons y xs)
  then consider "p = b \<and> x = y" | "(p, x) \<in> set (place (b + data_length y) xs)" by auto
  then show ?case
  proof cases
    case 2
    from Cons.IH [OF this] show ?thesis by (simp add: data_length_def split: option.splits)
  qed simp
qed simp

section \<open>The whole update\<close>

text \<open>What an update has to be for its objects to be read back.\<close>

definition ids_ok :: "xref_info \<Rightarrow> bool" where
  "ids_ok xi \<longleftrightarrow> (case xi_fileIds xi of Some (Some s # _) \<Rightarrow> list_all (\<lambda>c. c < 256) s | _ \<Rightarrow> True)"

definition update_ok :: "nat \<Rightarrow> xref_info \<Rightarrow> crypt_info \<Rightarrow> changes \<Rightarrow> bool" where
  "update_ok n xi ci changes \<longleftrightarrow> list_all (change_ok n ci) changes \<and> distinct (map (r_num \<circ> fst) changes) \<and> length changes < 2 ^ 53 \<and>
     3 \<le> n \<and> writable (PDict (fst (getTrailerDict xi changes False)) False) \<and>
     nested n (PDict (fst (getTrailerDict xi changes False)) False) \<and> ids_ok xi"

lemma set_update: "set (AList.update k v m) \<subseteq> insert (k, v) (set m)"
  by (induction m) auto

lemma dict_set_ok:
  assumes "writable (PDict m False)" and "nested (Suc n) (PDict m False)" and "writable v" and "nested n v" and "list_all (\<lambda>c. c < 256) key"
  shows "writable (PDict (dict_set key v m) False) \<and> nested (Suc n) (PDict (dict_set key v m) False)"
  using assms set_update [of key v m] distinct_update [of m key v] unfolding dict_set_def by (fastforce simp: list_all_iff)

lemma computeIDs_ok:
  assumes "writable (PDict m False)" and "nested n (PDict m False)" and "3 \<le> n" and "ids_ok xi"
  shows "writable (PDict (computeIDs time p xi m) False) \<and> nested n (PDict (computeIDs time p xi m) False)"
proof (cases "\<exists>fid ids. xi_fileIds xi = Some (fid # ids)")
  case True
  then obtain fid ids where f: "xi_fileIds xi = Some (fid # ids)" by blast
  define md5 where "md5 = computeMD5 time p xi"
  define v where "v = PArr [PStr (case fid of Some s \<Rightarrow> if s = [] then md5 else s | None \<Rightarrow> md5), PStr md5]"
  obtain k where k: "n = Suc (Suc (Suc k))" using le_Suc_ex [OF assms(3)] by (auto simp: numeral_3_eq_3)
  have m: "list_all (\<lambda>c. c < 256) md5" by (auto simp: md5_def computeMD5_def Let_def list_all_iff u8_less)
  then have "writable v" using f assms(4) by (auto simp: v_def ids_ok_def split: option.split)
  moreover have "nested (Suc (Suc k)) v" by (simp add: v_def)
  moreover have "computeIDs time p xi m = dict_set (js ''ID'') v m"
    unfolding computeIDs_def f v_def md5_def by (simp add: Let_def)
  ultimately show ?thesis using dict_set_ok [of m "Suc (Suc k)" v "js ''ID''"] assms(1,2) k by simp
next
  case False
  then have "computeIDs time p xi m = m" by (auto simp: computeIDs_def split: option.split list.split)
  then show ?thesis using assms by simp
qed

definition newline_text :: "bytes \<Rightarrow> jsstr" where
  "newline_text orig = (if orig = [] \<or> last orig \<noteq> 0x0a \<and> last orig \<noteq> 0x0d then [10] else [])"

context exact_integers
begin

lemma append_update_text:
  assumes "update_ok n xi ci changes" and "\<And>i. length (ivs i) = 16"
  shows "\<exists>xs doc. append_update deflate fetch ivs n time orig xi ci changes False = Some (Inr doc) \<and>
    (\<forall>x \<in> set xs. \<exists>rc \<in> set changes. written fl ci rc x) \<and> (\<forall>rc \<in> set changes. \<exists>x \<in> set xs. written fl ci rc x) \<and>
    sorted_wrt (<) (map (r_num \<circ> nr_ref) xs) \<and>
    (let b = length orig + length (newline_text orig); fin = b + length (data_text xs); m = computeIDs time fin xi (fst (getTrailerDict xi changes False))
     in (\<exists>hd ts k. doc = orig @ stringToBytes (newline_text orig @ data_text xs @ hd @ 10 # js ''startxref'' @ 10 # nat_dec fin @ 10 # js ''%%EOF'' @ [10]) \<and>
       (fin < 2 ^ 53 \<longrightarrow> lexable fl (hd @ 10 # js ''startxref'' @ 10 # nat_dec fin) (table_toks (sections (place b xs)) ts fin)) \<and>
       starts_value ts \<and> parses fl None ts (PDict m False) k))"
proof -
  have ok: "list_all (change_ok n ci) changes" "distinct (map (r_num \<circ> fst) changes)" "length changes < 2 ^ 53" "3 \<le> n"
      "writable (PDict (fst (getTrailerDict xi changes False)) False)" "nested n (PDict (fst (getTrailerDict xi changes False)) False)" "ids_ok xi"
    using assms(1) by (auto simp: update_ok_def)
  obtain ys where ys: "write_changes_loop deflate fetch ivs n ci 0 changes = Some (Inr ys)" "list_all2 (written fl ci) changes ys"
    using write_changes_written [where ivs = ivs, OF ok(1) assms(2)] by blast
  define xs where "xs = sort_key (r_num \<circ> nr_ref) ys"
  define b where "b = length orig + length (newline_text orig)"
  define e where "e = b + length (data_text xs)"
  have set: "set xs = set ys" by (simp add: xs_def)
  have refs: "map (r_num \<circ> nr_ref) ys = map (r_num \<circ> fst) changes"
    using ys(2) by (induction rule: list_all2_induct) auto
  have sorted: "sorted_wrt (<) (map (r_num \<circ> nr_ref) xs)"
  proof -
    have "distinct (map (r_num \<circ> nr_ref) ys)" by (simp only: refs ok(2))
    then have "distinct (map (r_num \<circ> nr_ref) xs)" by (simp add: xs_def distinct_map)
    moreover have "sorted (map (r_num \<circ> nr_ref) xs)" unfolding xs_def by (rule sorted_sort_key)
    ultimately show ?thesis by (simp add: strict_sorted_iff)
  qed
  have len: "length xs < 2 ^ 53" using ys(2) ok(3) by (simp add: xs_def list_all2_lengthD)
  have w: "(\<forall>x \<in> set xs. \<exists>rc \<in> set changes. written fl ci rc x) \<and> (\<forall>rc \<in> set changes. \<exists>x \<in> set xs. written fl ci rc x)"
    using ys(2) unfolding set by (induction rule: list_all2_induct) auto
  then have w1: "\<forall>x \<in> set xs. \<exists>rc \<in> set changes. written fl ci rc x" ..
  have lines: "list_all line_ok (place b xs)" if "e < 2 ^ 53"
  proof -
    have "line_ok (p, x)" if px: "(p, x) \<in> set (place b xs)" for p x
    proof -
      obtain r c where rc: "(r, c) \<in> set changes" "written fl ci (r, c) x" using place_bound [OF px] w1 by (metis surj_pair)
      then have "change_ok n ci (r, c)" "nr_ref x = r" using ok(1) by (auto simp: list_all_iff)
      then show ?thesis using place_bound [OF px] \<open>e < 2 ^ 53\<close> by (auto simp: line_ok_def e_def)
    qed
    then show ?thesis by (auto simp: list_all_iff)
  qed
  let ?m = "fst (getTrailerDict xi changes False)" and ?nl = "newline_text orig"
  let ?buf = "(if orig = [] \<or> last orig \<noteq> 0x0a \<and> last orig \<noteq> 0x0d then [[10]] else []) @ concat (map (\<lambda>x. case nr_data x of Some s \<Rightarrow> [s] | None \<Rightarrow> []) xs)"
  have buf: "concat ?buf = ?nl @ data_text xs"
    by (simp add: newline_text_def concat_data)
  note ids = computeIDs_ok [OF ok(5,6,4,7), of time e]
  obtain buf' hd tl ts k where t: "getXRefTable deflate fetch ivs n time xi b xs ?m ?buf = Some (Inr buf')"
      "concat buf' = concat ?buf @ hd @ tl @ nat_dec e @ 10 # js ''%%EOF'' @ [10]" "tl = 10 # js ''startxref'' @ [10]"
      "list_all line_ok (place b xs) \<and> e < 2 ^ 53 \<longrightarrow> lexable fl (hd @ tl @ nat_dec e) (table_toks (sections (place b xs)) ts e)"
      "starts_value ts" "parses fl None ts (PDict (computeIDs time e xi ?m) False) k"
    using table_text [where ivs = ivs and buf = ?buf and deflate = deflate and fetch = fetch, OF ids [THEN conjunct1, unfolded e_def] ids [THEN conjunct2, unfolded e_def] sorted len assms(2)]
    unfolding e_def by blast
  define doc where "doc = orig @ stringToBytes (concat buf')"
  have "append_update deflate fetch ivs n time orig xi ci changes False = Some (Inr doc)"
  proof -
    let ?z = "drop (length orig) (zeros (length orig + sum_list (map length buf')))"
    define m where "m = ?m"
    have tr: "getTrailerDict xi changes False = (m, changes)" by (simp add: m_def getTrailerDict_def Let_def)
    have b: "b = length orig + (if orig = [] \<or> last orig \<noteq> 0x0a \<and> last orig \<noteq> 0x0d then 1 else 0)" by (simp add: b_def newline_text_def)
    have "snd (write_strings buf' (length orig, orig @ ?z)) = doc"
      using write_strings_eq [of buf' ?z orig] by (simp add: doc_def)
    then show ?thesis
      using t(1) [folded m_def] ys(1) b by (simp add: append_update_def tr writeChanges_def Let_def xs_def blit_def)
  qed
  moreover have "doc = orig @ stringToBytes (?nl @ data_text xs @ hd @ 10 # js ''startxref'' @ 10 # nat_dec e @ 10 # js ''%%EOF'' @ [10])"
    unfolding doc_def t(2) buf t(3) by simp
  moreover have "lexable fl (hd @ 10 # js ''startxref'' @ 10 # nat_dec e) (table_toks (sections (place b xs)) ts e)" if "e < 2 ^ 53"
    using t(3,4) lines that by simp
  ultimately have "append_update deflate fetch ivs n time orig xi ci changes False = Some (Inr doc) \<and>
    (\<exists>hd ts k. doc = orig @ stringToBytes (?nl @ data_text xs @ hd @ 10 # js ''startxref'' @ 10 # nat_dec e @ 10 # js ''%%EOF'' @ [10]) \<and>
       (e < 2 ^ 53 \<longrightarrow> lexable fl (hd @ 10 # js ''startxref'' @ 10 # nat_dec e) (table_toks (sections (place b xs)) ts e)) \<and>
       starts_value ts \<and> parses fl None ts (PDict (computeIDs time e xi ?m) False) k)"
    using t(5,6) by blast
  then show ?thesis using w sorted unfolding Let_def e_def b_def by blast
qed

end

text \<open>The file as it is opened, with the queue at the offset behind \<open>startxref\<close>.\<close>

definition opened_xref :: "bytes \<Rightarrow> nat \<Rightarrow> xref" where
  "opened_xref doc p = setStartXRef (int p) (mk_xref (mk_stream doc None None))"

lemma opened_xref_simps [simp]:
  "xr_entries (opened_xref doc p) = []" "xr_cache (opened_xref doc p) = []" "xr_pending (opened_xref doc p) = []"
  "xr_tableState (opened_xref doc p) = None" "xr_stream (opened_xref doc p) = mk_stream doc None None" "xr_queue (opened_xref doc p) = [int p]"
  by (simp_all add: opened_xref_def setStartXRef_def mk_xref_def)

lemma sections_entries:
  assumes "sorted_wrt (<) (map (r_num \<circ> nr_ref) xs)" and "(q, x) \<in> set (place b xs)"
  shows "entry_at (add_sects (sections (place b xs)) (opened_xref doc p)) (r_num (nr_ref x)) = Some (line_entry (q, x))"
proof -
  have "distinct (map fst (map line_pair (place b xs)))"
    using assms(1) map_pnum_place [of b xs] by (simp add: strict_sorted_iff line_pair.simps comp_def)
  moreover have "(r_num (nr_ref x), line_entry (q, x)) \<in> set (map line_pair (place b xs))"
    using assms(2) by (force simp: line_pair.simps)
  ultimately have "map_of (map line_pair (place b xs)) (r_num (nr_ref x)) = Some (line_entry (q, x))" by (rule map_of_is_SomeI)
  moreover have "entry_at (opened_xref doc p) i = None" for i by (simp add: entry_at_def)
  ultimately show ?thesis using add_sects_entries [OF sections_numbered] by (simp add: sections_concat)
qed

lemma sections_start:
  assumes "\<forall>x \<in> set xs. 1 \<le> r_num (nr_ref x) \<and> (nr_data x = None \<longrightarrow> r_num (nr_ref x) \<noteq> 1)"
  shows "first_free (add_sects (sections (place b xs)) (opened_xref doc p))" and "\<forall>s \<in> set (sections (place b xs)). \<not> shifted s"
proof -
  have "map_of (map line_pair (place b xs)) 0 = None"
    using assms place_bound by (force simp: map_of_eq_None_iff line_pair.simps)
  then show "first_free (add_sects (sections (place b xs)) (opened_xref doc p))"
    using add_sects_entries [OF sections_numbered] by (simp add: first_free_def sections_concat entry_at_def [of "opened_xref doc p"])
  show "\<forall>s \<in> set (sections (place b xs)). \<not> shifted s"
  proof
    fix s
    assume s: "s \<in> set (sections (place b xs))"
    obtain f qs where fq: "s = (f, qs)" by (cases s)
    show "\<not> shifted s"
    proof
      assume "shifted s"
      then obtain q x qs' where q: "f = 1" "qs = (q, x) # qs'" "xe_free (line_entry (q, x))" using fq by (cases qs) auto
      have "numbered f qs" using sections_numbered s fq by blast
      then have "r_num (nr_ref x) = 1" using q by (auto simp: numbered_def)
      moreover have "x \<in> set xs" using section_parts(2) s fq q(2) place_bound by fastforce
      moreover have "nr_data x = None" using q(3) by (auto simp: line_entry_def Let_def split: if_splits)
      ultimately show False using assms by auto
    qed
  qed
qed

lemma readXRef_first:
  assumes "read_section fl j look opened (int p) (opened_xref doc p) = Some (Inr (), xr1)"
    and "readXRef fl j look opened rM (opened_xref doc p) = Some (y, xr2)"
  shows "grows xr1 xr2"
proof -
  obtain xr where xr: "readXRef_loop fl j look opened j [] (opened_xref doc p) = Some xr" "xr2 = xr"
    using assms(2) by (auto simp: readXRef_def xret_def xfail_def split: option.splits if_splits)
  then obtain j' where j: "j = Suc j'" by (cases j) auto
  then have "readXRef_loop fl j look opened j' [int p] (shift_queue xr1) = Some xr" using xr(1) assms(1) by simp
  from readXRef_loop_grows [OF this] show ?thesis using xr(2) by (simp add: grows_def shift_queue_def)
qed

lemma section_grows:
  "grows xr (push_prev v ((add_stm u (set_topDict m xr))\<lparr>xr_sectionOffsets := os\<rparr>))"
  by (auto simp: push_prev_def add_stm_def push_queue_def set_topDict_def grows_same split: option.split pobj.split)

lemma fetchable_line:
  assumes "grows xr1 xr2" and "grows (add_sects ss (opened_xref doc p)) xr1"
    and "entry_at (add_sects ss (opened_xref doc p)) (r_num r) = Some (line_entry (q, x))"
    and "nr_ref x = r" and "nr_data x \<noteq> None" and "r_gen r \<le> 0xffff" and "0 < q"
  shows "fetchable (xr2\<lparr>xr_encrypt := c\<rparr>) r q" and "s_bytes (xr_stream xr2) = doc"
proof -
  have g: "grows (opened_xref doc p) xr2" "grows (add_sects ss (opened_xref doc p)) xr2"
    using add_sects_grows [of "opened_xref doc p" ss] assms(1,2) growing.rel_trans by blast+
  have st: "xr_cache xr2 = []" "xr_pending xr2 = []" "xr_stream xr2 = mk_stream doc None None" using g(1) by (simp_all add: grows_def)
  have "entry_at xr2 (r_num r) = Some (line_entry (q, x))"
    using g(2) assms(3) unfolding grows_def map_le_def entry_at_def by (metis domI)
  then show "fetchable (xr2\<lparr>xr_encrypt := c\<rparr>) r q" "s_bytes (xr_stream xr2) = doc"
    using st assms(4-7)
    by (simp_all add: fetchable_def cached_def refset_has_def mk_stream_def Let_def getEntry_def entry_at_def line_entry_def)
qed

subsection \<open>The layout of the new file\<close>

definition base_offset :: "bytes \<Rightarrow> nat" where
  "base_offset orig = length orig + length (newline_text orig)"

definition eof_text :: jsstr where
  "eof_text = 10 # js ''%%EOF'' @ [10]"

lemma eof_text: "list_all (\<lambda>c. c < 256) eof_text" "delim eof_text"
  by (simp_all add: eof_text_def)

definition laid_out ::
    "rounding \<Rightarrow> bytes \<Rightarrow> bytes \<Rightarrow> new_ref list \<Rightarrow> jsstr \<Rightarrow> pobj list \<Rightarrow> entries \<Rightarrow> nat \<Rightarrow> nat \<Rightarrow> bool" where
  "laid_out fl orig doc xs tx ts m k p \<longleftrightarrow>
     (\<forall>x \<in> set xs. plain_data fl x \<and> 1 \<le> r_num (nr_ref x) \<and> (nr_data x = None \<longrightarrow> r_num (nr_ref x) \<noteq> 1)) \<and>
     sorted_wrt (<) (map (r_num \<circ> nr_ref) xs) \<and>
     doc = orig @ stringToBytes (newline_text orig @ data_text xs @ tx @ eof_text) \<and> p = base_offset orig + length (data_text xs) \<and>
     lexable fl tx (table_toks (sections (place (base_offset orig) xs)) ts p) \<and> starts_value ts \<and> parses fl None ts (PDict m False) k"

text \<open>The table with the new entries, before older sections are read.\<close>

definition new_entries :: "bytes \<Rightarrow> bytes \<Rightarrow> new_ref list \<Rightarrow> nat \<Rightarrow> xref" where
  "new_entries orig doc xs p = add_sects (sections (place (base_offset orig) xs)) (opened_xref doc p)"

lemma laid_out_read:
  assumes "laid_out fl orig doc xs tx ts m k p" and "k < j" and "length (sections (place (base_offset orig) xs)) < j"
  shows "\<exists>xr. read_section fl j look opened (int p) (opened_xref doc p) = Some (Inr (), xr) \<and> grows (new_entries orig doc xs p) xr"
proof -
  let ?pre = "orig @ stringToBytes (newline_text orig @ data_text xs)"
  have l: "lexable fl tx (table_toks (sections (place (base_offset orig) xs)) ts p)" "starts_value ts" "parses fl None ts (PDict m False) k"
    and nums: "\<forall>x \<in> set xs. 1 \<le> r_num (nr_ref x) \<and> (nr_data x = None \<longrightarrow> r_num (nr_ref x) \<noteq> 1)"
    and doc: "doc = ?pre @ stringToBytes (tx @ eof_text)" "p = length ?pre"
    using assms(1) by (auto simp: laid_out_def base_offset_def stringToBytes_append)
  show ?thesis
    using read_section_table [OF l eof_text(2,1) _ sections_start(2) [OF nums] assms(2,3) _ sections_start(1) [OF nums], of doc p ?pre look opened]
      doc section_grows unfolding new_entries_def by auto
qed

lemma laid_out_readXRef:
  assumes "laid_out fl orig doc xs tx ts m k p" and "k < j" and "length (sections (place (base_offset orig) xs)) < j"
    and "readXRef fl j look opened rM (opened_xref doc p) = Some (y, xr)"
  shows "grows (new_entries orig doc xs p) xr"
  using laid_out_read [OF assms(1-3)] readXRef_first [OF _ assms(4)] growing.rel_trans by blast

lemma laid_out_ahead:
  assumes "laid_out fl orig doc (ys @ x # zs) tx ts m k p"
  shows "token_ahead fl (10 # data_text zs @ tx @ eof_text)" and "list_all (\<lambda>c. c < 256) (10 # data_text zs @ tx @ eof_text)"
proof -
  have l: "lexable fl tx (table_toks (sections (place (base_offset orig) (ys @ x # zs))) ts p)" and plain: "list_all (plain_data fl) zs"
    using assms by (auto simp: laid_out_def list_all_iff)
  have "token_ahead fl (tx @ eof_text)" using token_ahead_lexable [OF l [unfolded table_toks_def] _ eof_text(2)] by simp
  moreover have "list_all (\<lambda>c. c < 256) (tx @ eof_text)" using l eof_text(1) by (simp add: lexable_def)
  ultimately have "token_ahead fl (data_text zs @ tx @ eof_text) \<and> list_all (\<lambda>c. c < 256) (data_text zs @ tx @ eof_text)"
    using data_ahead [OF plain] by blast
  then show "token_ahead fl (10 # data_text zs @ tx @ eof_text)" "list_all (\<lambda>c. c < 256) (10 # data_text zs @ tx @ eof_text)"
    using token_ahead_white [of fl "data_text zs @ tx @ eof_text" 10] by simp_all
qed

context exact_integers
begin

lemma laid_out_fetch:
  assumes "laid_out fl orig doc xs tx ts m k p" and "x \<in> set xs" and "nr_ref x = r" and "holds_object fl ci x v"
    and "writable v" and "r_gen r \<le> 0xffff" and "ci_encryptRef ci \<noteq> Some r"
  shows "\<exists>M. \<forall>j look opened i xr. M \<le> j \<longrightarrow> grows (new_entries orig doc xs p) xr \<longrightarrow>
    (\<exists>xr'. xref_fetch fl j look opened (Suc i) r False (xr\<lparr>xr_encrypt := ci_encrypt ci\<rparr>) = Some (Inr (Fetched v), xr'))"
proof -
  obtain K otx ots k' where o: "nr_data x = Some (otx @ [10])" "has_class (object_transform ci r) K" "starts_value ots" "parses fl K ots v k'"
      "lexable fl otx (PNum (Num (of_int (r_num r))) # PNum (Num (of_int (r_gen r))) # PCmd (js ''obj'') # ots @ [PCmd (js ''endobj'')])"
    using assms(3,4) by (auto simp: holds_object_def)
  obtain ys zs where yz: "xs = ys @ x # zs" "(base_offset orig + length (data_text ys), x) \<in> set (place (base_offset orig) xs)"
    using place_split [OF assms(2)] by blast
  let ?pre = "orig @ stringToBytes (newline_text orig @ data_text ys)" and ?t = "10 # data_text zs @ tx @ eof_text"
  have d: "doc = ?pre @ stringToBytes (otx @ ?t)" and sorted: "sorted_wrt (<) (map (r_num \<circ> nr_ref) xs)"
    using assms(1) yz(1) o(1) by (simp_all add: laid_out_def data_text_def stringToBytes_append)
  note ahead = laid_out_ahead [OF assms(1) [unfolded yz(1)]]
  have q: "length ?pre = base_offset orig + length (data_text ys)" "0 < length ?pre" by (auto simp: base_offset_def newline_text_def)
  have e: "entry_at (new_entries orig doc xs p) (r_num r) = Some (line_entry (length ?pre, x))"
    unfolding q(1) new_entries_def using sections_entries [OF sorted yz(2)] assms(3) by simp
  have "\<exists>xr'. xref_fetch fl j look opened (Suc i) r False (xr\<lparr>xr_encrypt := ci_encrypt ci\<rparr>) = Some (Inr (Fetched v), xr')"
    if M: "Suc k' \<le> j" and g: "grows (new_entries orig doc xs p) xr" for j look opened i xr
  proof -
    let ?xr = "xr\<lparr>xr_encrypt := ci_encrypt ci\<rparr>"
    have ne: "nr_data x \<noteq> None" using o(1) by simp
    note f = fetchable_line [OF growing.rel_refl g [unfolded new_entries_def] e [unfolded new_entries_def] assms(3) ne assms(6) q(2)]
    have "s_bytes (xr_stream ?xr) = ?pre @ stringToBytes (otx @ ?t)" using f(2) d by simp
    moreover have "k' < j" "delim ?t" using M by simp_all
    moreover have "has_class (map_option (\<lambda>c. c (r_num r) (r_gen r)) (xr_encrypt ?xr)) K" using o(2) assms(7) by (simp add: object_transform_def)
    ultimately show ?thesis using fetch_text [OF o(5,3,4) ahead(1) _ ahead(2) _ _ assms(5)] f(1) by blast
  qed
  then show ?thesis by blast
qed

lemma update_laid_out:
  assumes "update_ok n xi ci changes" and "\<And>i. length (ivs i) = 16"
  shows "\<exists>xs doc hd p. append_update deflate fetch ivs n time orig xi ci changes False = Some (Inr doc) \<and>
    (\<forall>rc \<in> set changes. \<exists>x \<in> set xs. written fl ci rc x) \<and>
    (length doc < 2 ^ 53 \<longrightarrow> (\<exists>ts m k. laid_out fl orig doc xs (hd @ 10 # js ''startxref'' @ 10 # nat_dec p) ts m k p))"
proof -
  obtain xs doc where xs: "append_update deflate fetch ivs n time orig xi ci changes False = Some (Inr doc)"
      "\<forall>x \<in> set xs. \<exists>rc \<in> set changes. written fl ci rc x" "\<forall>rc \<in> set changes. \<exists>x \<in> set xs. written fl ci rc x"
      "sorted_wrt (<) (map (r_num \<circ> nr_ref) xs)"
    and tab: "\<exists>hd ts k m. doc = orig @ stringToBytes (newline_text orig @ data_text xs @ hd @ 10 # js ''startxref'' @ 10 # nat_dec (base_offset orig + length (data_text xs)) @ eof_text) \<and>
       (base_offset orig + length (data_text xs) < 2 ^ 53 \<longrightarrow> lexable fl (hd @ 10 # js ''startxref'' @ 10 # nat_dec (base_offset orig + length (data_text xs)))
          (table_toks (sections (place (base_offset orig) xs)) ts (base_offset orig + length (data_text xs)))) \<and>
       starts_value ts \<and> parses fl None ts (PDict m False) k"
    using append_update_text [where ivs = ivs and deflate = deflate and fetch = fetch and time = time and orig = orig, OF assms]
    unfolding Let_def base_offset_def eof_text_def by blast
  define p where "p = base_offset orig + length (data_text xs)"
  obtain hd ts k m where t: "doc = orig @ stringToBytes (newline_text orig @ data_text xs @ (hd @ 10 # js ''startxref'' @ 10 # nat_dec p) @ eof_text)"
      "p < 2 ^ 53 \<longrightarrow> lexable fl (hd @ 10 # js ''startxref'' @ 10 # nat_dec p) (table_toks (sections (place (base_offset orig) xs)) ts p)"
      "starts_value ts" "parses fl None ts (PDict m False) k"
    using tab unfolding p_def by auto
  have "p \<le> length doc" unfolding t(1) p_def by (simp add: base_offset_def)
  moreover have "plain_data fl x \<and> 1 \<le> r_num (nr_ref x) \<and> (nr_data x = None \<longrightarrow> r_num (nr_ref x) \<noteq> 1)" if x: "x \<in> set xs" for x
  proof -
    obtain r c where rc: "(r, c) \<in> set changes" "written fl ci (r, c) x" using xs(2) x by (metis surj_pair)
    have "change_ok n ci (r, c)" using assms(1) rc(1) by (auto simp: update_ok_def list_all_iff)
    then show ?thesis using written_plain [OF rc(2)] rc(2) by (cases c) (auto simp: holds_object_def)
  qed
  ultimately have "laid_out fl orig doc xs (hd @ 10 # js ''startxref'' @ 10 # nat_dec p) ts m k p" if "length doc < 2 ^ 53"
    using that t xs(4) p_def by (simp add: laid_out_def)
  then show ?thesis using xs(1,3) by blast
qed

end

section \<open>Saving and opening\<close>

lemma incrementalUpdate_plain:
  "\<not> fi_hasXfa fi \<Longrightarrow> \<not> fi_needAppearances fi \<Longrightarrow>
    incrementalUpdate deflate fetch ivs n time orig xi ci fi changes s = append_update deflate fetch ivs n time orig xi ci changes s"
  by (simp add: incrementalUpdate_def updateAcroform_def)

text \<open>
  C9: saving only appends: whatever is changed, with a table or a stream of references, the
  bytes of the original document are the first bytes of the saved one.
\<close>

theorem update_appends:
  assumes "incrementalUpdate deflate fetch ivs n time orig xi ci fi changes useXrefStream = Some (Inr doc)"
  shows "take (length orig) doc = orig"
proof -
  have "take (length orig) (snd (write_strings buf (length orig, blit (zeros (length orig + sum_list (map length buf))) orig 0))) = orig" for buf
    using write_strings_eq [of buf "drop (length orig) (zeros (length orig + sum_list (map length buf)))" orig] by (simp add: blit_def)
  then show ?thesis
    using assms unfolding incrementalUpdate_def append_update_def Let_def
    by (auto simp: fbind_eq_Inr split_beta)
qed

text \<open>With fuel \<open>j\<close>, and the cipher of the document, a reference is fetched as a value.\<close>

definition fetches :: "nat \<Rightarrow> fetch \<Rightarrow> (entries \<Rightarrow> bytes \<Rightarrow> stream) \<Rightarrow> crypt_info \<Rightarrow> ref \<Rightarrow> pobj \<Rightarrow> xref \<Rightarrow> bool" where
  "fetches j look opened ci r v xr \<longleftrightarrow>
     (\<forall>i. \<exists>xr'. xref_fetch fl64 j look opened (Suc i) r False (xr\<lparr>xr_encrypt := ci_encrypt ci\<rparr>) = Some (Inr (Fetched v), xr'))"

text \<open>
  C4: a saved object is read back: an update without forms that writes a table succeeds; the
  document ends with the position of the table, reading the section there succeeds, and
  fetching the reference of a changed object gives the value that was written, encrypted or
  not, also after the older sections of the file have been read.
\<close>

theorem saved_object_fetched:
  assumes "update_ok n xi ci changes" and "\<And>i. length (ivs i) = 16" and "(r, Object v) \<in> set changes" and "ci_encryptRef ci \<noteq> Some r"
    and "\<not> fi_hasXfa fi" and "\<not> fi_needAppearances fi"
  shows "\<exists>doc body p. incrementalUpdate deflate fetch ivs n time orig xi ci fi changes False = Some (Inr doc) \<and>
    (length doc < 2 ^ 53 \<longrightarrow>
       doc = orig @ body @ stringToBytes (js ''startxref'' @ 10 # nat_dec p @ 10 # js ''%%EOF'' @ [10]) \<and>
       (\<exists>M. \<forall>j look opened. M \<le> j \<longrightarrow>
          (\<exists>xr. read_section fl64 j look opened (int p) (opened_xref doc p) = Some (Inr (), xr) \<and> fetches j look opened ci r v xr) \<and>
          (\<forall>recoveryMode y xr. readXRef fl64 j look opened recoveryMode (opened_xref doc p) = Some (y, xr) \<longrightarrow> fetches j look opened ci r v xr)))"
proof -
  obtain xs doc hd p where u: "append_update deflate fetch ivs n time orig xi ci changes False = Some (Inr doc)"
      "\<forall>rc \<in> set changes. \<exists>x \<in> set xs. written fl64 ci rc x"
      "length doc < 2 ^ 53 \<longrightarrow> (\<exists>ts m k. laid_out fl64 orig doc xs (hd @ 10 # js ''startxref'' @ 10 # nat_dec p) ts m k p)"
    using doubles.update_laid_out [where ivs = ivs, OF assms(1,2)] by blast
  obtain x where x: "x \<in> set xs" "nr_ref x = r" "holds_object fl64 ci x v" using u(2) assms(3) by force
  have "change_ok n ci (r, Object v)" using assms(1,3) by (auto simp: update_ok_def list_all_iff)
  then have v: "writable v" "r_gen r \<le> 0xffff" by auto
  define body where "body = stringToBytes (newline_text orig @ data_text xs @ hd @ [10])"
  have "doc = orig @ body @ stringToBytes (js ''startxref'' @ 10 # nat_dec p @ 10 # js ''%%EOF'' @ [10]) \<and>
       (\<exists>M. \<forall>j look opened. M \<le> j \<longrightarrow>
          (\<exists>xr. read_section fl64 j look opened (int p) (opened_xref doc p) = Some (Inr (), xr) \<and> fetches j look opened ci r v xr) \<and>
          (\<forall>recoveryMode y xr. readXRef fl64 j look opened recoveryMode (opened_xref doc p) = Some (y, xr) \<longrightarrow> fetches j look opened ci r v xr))"
    if len: "length doc < 2 ^ 53"
  proof -
    obtain ts m k where l: "laid_out fl64 orig doc xs (hd @ 10 # js ''startxref'' @ 10 # nat_dec p) ts m k p" using u(3) len by blast
    obtain M where M: "M \<le> j \<Longrightarrow> grows (new_entries orig doc xs p) xr \<Longrightarrow> fetches j look opened ci r v xr" for j look opened xr
      using doubles.laid_out_fetch [OF l x v assms(4)] unfolding fetches_def by blast
    define N where "N = max M (Suc (max k (length (sections (place (base_offset orig) xs)))))"
    have "(\<exists>xr. read_section fl64 j look opened (int p) (opened_xref doc p) = Some (Inr (), xr) \<and> fetches j look opened ci r v xr) \<and>
        (\<forall>recoveryMode y xr. readXRef fl64 j look opened recoveryMode (opened_xref doc p) = Some (y, xr) \<longrightarrow> fetches j look opened ci r v xr)"
      if "N \<le> j" for j look opened
    proof -
      have j: "M \<le> j" "k < j" "length (sections (place (base_offset orig) xs)) < j" using that by (auto simp: N_def)
      show ?thesis
        using M [OF j(1), of _ look opened] laid_out_read [OF l j(2,3), of look opened] laid_out_readXRef [OF l j(2,3), of look opened] by metis
    qed
    moreover have "doc = orig @ body @ stringToBytes (js ''startxref'' @ 10 # nat_dec p @ 10 # js ''%%EOF'' @ [10])"
      using l by (simp add: laid_out_def body_def eof_text_def stringToBytes_def)
    ultimately show ?thesis by blast
  qed
  moreover have "incrementalUpdate deflate fetch ivs n time orig xi ci fi changes False = Some (Inr doc)"
    using u(1) incrementalUpdate_plain [OF assms(5,6)] by simp
  ultimately show ?thesis by blast
qed

definition demo_info :: xref_info where
  "demo_info = \<lparr>xi_startXRef = PNull, xi_newRef = \<lparr>r_num = 6, r_gen = 0\<rparr>, xi_rootRef = PRef \<lparr>r_num = 1, r_gen = 0\<rparr>, xi_infoRef = PNull,
     xi_encryptRef = PNull, xi_fileIds = None, xi_filename = [], xi_infoValues = []\<rparr>"

definition demo_form :: form_info where
  "demo_form = \<lparr>fi_acroForm = [], fi_acroFormRef = None, fi_hasXfa = False, fi_hasXfaDatasetsEntry = False, fi_xfaDatasetsRef = None,
     fi_needAppearances = False, fi_xfaData = []\<rparr>"

definition demo_changes :: changes where
  "demo_changes = [(\<lparr>r_num = 5, r_gen = 0\<rparr>, Object (PArr [PNum (Num 7), PStr (js ''a(b''), PName (js ''x y'')])), (\<lparr>r_num = 4, r_gen = 0\<rparr>, Deleted)]"

definition demo_saved :: "bytes res option" where
  "demo_saved = incrementalUpdate (\<lambda>_. None) None (\<lambda>_. zeros 16) 3 0 (stringToBytes (js ''%PDF-1.7'')) demo_info
     \<lparr>ci_encrypt = None, ci_encryptRef = None\<rparr> demo_form demo_changes False"

lemma demo_texts:
  "escapePDFName (js ''x y'') = js ''x#20y''" "escapeString (js ''a(b'') = js ''a'' @ [92] @ js ''(b''"
  "int_dec 5 = js ''5''" "int_dec 0 = js ''0''" "int_dec 1 = js ''1''" "int_dec 4 = js ''4''" "int_dec 2 = js ''2''" "int_dec 7 = js ''7''" "int_dec 6 = js ''6''"
  by code_simp+

lemma demo_numbers: "numberToPDFString (Num 7) = js ''7''" "numberToPDFString (Num 6) = js ''6''"
  using int_dec_toFixed [of 7] int_dec_toFixed [of 6] demo_texts by simp_all

lemma demo_written:
  "writeChanges (\<lambda>_. None) None (\<lambda>_. zeros 16) (Suc (Suc (Suc 0))) \<lparr>ci_encrypt = None, ci_encryptRef = None\<rparr> demo_changes =
    Some (Inr [\<lparr>nr_ref = \<lparr>r_num = 4, r_gen = 0\<rparr>, nr_data = None, nr_objStream = None\<rparr>,
      \<lparr>nr_ref = \<lparr>r_num = 5, r_gen = 0\<rparr>, nr_data = Some (js ''5 0 obj'' @ [10] @ js ''[7 (a'' @ [92] @ js ''(b) /x#20y]'' @ [10] @ js ''endobj'' @ [10]), nr_objStream = None\<rparr>])"
  by (simp add: writeChanges_def demo_changes_def object_transform_def writeObject_def push_text_def encrypt_text_def demo_texts demo_numbers
      del: js_Cons) (simp add: numeral_eq_Suc)

lemma demo_saved_length: "\<exists>doc. demo_saved = Some (Inr doc) \<and> length doc < 2 ^ 53"
proof -
  let ?xs = "[\<lparr>nr_ref = \<lparr>r_num = 4, r_gen = 0\<rparr>, nr_data = None, nr_objStream = None\<rparr>,
      \<lparr>nr_ref = \<lparr>r_num = 5, r_gen = 0\<rparr>, nr_data = Some (js ''5 0 obj'' @ [10] @ js ''[7 (a'' @ [92] @ js ''(b) /x#20y]'' @ [10] @ js ''endobj'' @ [10]), nr_objStream = None\<rparr>]"
  have ix: "getIndexes ?xs = [4, 2]" by (simp add: getIndexes_def index_step_def)
  have d: "nat_dec 9 = js ''9''" "nat_dec 42 = js ''42''" by code_simp+
  have ls: "table_lines [4, 2] 0 9 ?xs = ([js ''4 2'' @ [10], js ''0000000000 00001 f'' @ [13, 10], js ''0000000009 00000 n'' @ [13, 10]], 42)"
    by code_simp
  have tr: "getTrailerDict demo_info demo_changes False =
      ([(js ''Size'', PNum (Num 6)), (js ''Root'', PRef \<lparr>r_num = 1, r_gen = 0\<rparr>)], demo_changes)"
    by (simp add: getTrailerDict_def Let_def demo_info_def setIfDefined_def dict_set_def)
  have names: "escapePDFName (js ''Size'') = js ''Size''" "escapePDFName (js ''Root'') = js ''Root''" by code_simp+
  have orig: "length (stringToBytes (js ''%PDF-1.7'')) = 8" "stringToBytes (js ''%PDF-1.7'') \<noteq> []" "last (stringToBytes (js ''%PDF-1.7'')) = 0x37"
    by code_simp+
  have len: "length (snd (write_strings buf (length o1, blit (zeros (length o1 + sum_list (map length buf))) o1 0))) = length o1 + sum_list (map length buf)" for buf o1
    using write_strings_eq [of buf "drop (length o1) (zeros (length o1 + sum_list (map length buf)))" o1] by (simp add: blit_def length_concat)
  let ?m = "[(js ''Size'', PNum (Num 6)), (js ''Root'', PRef \<lparr>r_num = 1, r_gen = 0\<rparr>)]"
  have tab: "\<exists>buf. getXRefTable (\<lambda>_. None) None (\<lambda>_. zeros 16) (Suc (Suc (Suc 0))) 0 demo_info 9 ?xs ?m buf0 = Some (Inr buf) \<and>
      sum_list (map length buf) \<le> sum_list (map length buf0) + 1000" for buf0
    unfolding getXRefTable_def ix ls
    by (simp add: computeIDs_def demo_info_def push_text_def names demo_numbers demo_texts d del: js_Cons) simp
  let ?ob = "js ''5 0 obj'' @ [10] @ js ''[7 (a'' @ [92] @ js ''(b) /x#20y]'' @ [10] @ js ''endobj'' @ [10]"
  obtain buf where buf: "getXRefTable (\<lambda>_. None) None (\<lambda>_. zeros 16) (Suc (Suc (Suc 0))) 0 demo_info 9 ?xs ?m [[10], ?ob] = Some (Inr buf)"
      "sum_list (map length buf) \<le> 1100"
    using tab [of "[[10], ?ob]"] by auto
  have "length (js ''%PDF-1.7'') = 8" by simp
  with buf(2) show ?thesis
    using len [of buf "stringToBytes (js ''%PDF-1.7'')"]
    by (simp add: demo_saved_def numeral_3_eq_3 incrementalUpdate_plain demo_form_def append_update_def tr demo_written orig
        buf(1) [simplified append.simps] del: js_Cons)
qed

theorem update_appends_witness:
  "\<exists>doc. demo_saved = Some (Inr doc) \<and> take (length (stringToBytes (js ''%PDF-1.7''))) doc = stringToBytes (js ''%PDF-1.7'')"
  using demo_saved_length update_appends unfolding demo_saved_def by blast

lemma demo_update_ok: "update_ok 3 demo_info \<lparr>ci_encrypt = None, ci_encryptRef = None\<rparr> demo_changes"
proof -
  have "fst (getTrailerDict demo_info demo_changes False) = [(js ''Size'', PNum (Num 6)), (js ''Root'', PRef \<lparr>r_num = 1, r_gen = 0\<rparr>)]"
    by (simp add: getTrailerDict_def Let_def demo_info_def setIfDefined_def dict_set_def)
  then show ?thesis
    by (simp add: update_ok_def numeral_3_eq_3) (simp add: demo_changes_def demo_info_def object_transform_def usable_cipher_def ids_ok_def)
qed

theorem saved_object_fetched_witness:
  "\<exists>doc p j xr. demo_saved = Some (Inr doc) \<and>
     read_section fl64 j None (\<lambda>_ _. null_stream) (int p) (opened_xref doc p) = Some (Inr (), xr) \<and>
     fetches j None (\<lambda>_ _. null_stream) \<lparr>ci_encrypt = None, ci_encryptRef = None\<rparr> \<lparr>r_num = 5, r_gen = 0\<rparr>
       (PArr [PNum (Num 7), PStr (js ''a(b''), PName (js ''x y'')]) xr"
proof -
  obtain doc where doc: "demo_saved = Some (Inr doc)" "length doc < 2 ^ 53" using demo_saved_length by blast
  have v: "(\<lparr>r_num = 5, r_gen = 0\<rparr>, Object (PArr [PNum (Num 7), PStr (js ''a(b''), PName (js ''x y'')])) \<in> set demo_changes"
    by (simp add: demo_changes_def)
  show ?thesis
    using saved_object_fetched [OF demo_update_ok _ v, where ivs = "\<lambda>_. zeros 16" and deflate = "\<lambda>_. None" and fetch = None and time = 0
        and orig = "stringToBytes (js ''%PDF-1.7'')" and fi = demo_form] doc
    unfolding demo_saved_def by (simp add: demo_form_def) blast
qed

end
