(* ===== verification/Chunked_Stream.thy ===== *)
theory Chunked_Stream
  imports Streams
begin

text \<open>
  \<open>ChunkedStream\<close>: a file that is loaded in chunks, in any order or from its start, and read while
  chunks are missing.  A read returns the bytes of the file or throws \<open>MissingDataException\<close> with
  the range it needs.

  The object is split in two: what a stream and the substreams made from it share through their
  prototypes (\<open>chunked\<close>), and the position with the last chunk found by \<open>ensureByte\<close>, which every
  substream has for itself (\<open>cursor\<close>).  Chunk sizes are positive.  The divisions are those of
  Numbers; their roundings do not matter for lengths below \<open>2^53\<close>.
\<close>

section \<open>State\<close>

record chunked =
  ck_bytes :: bytes
  ck_chunkSize :: nat
  ck_numChunks :: nat
  ck_progressive :: nat
  ck_loaded :: "nat list"

record cursor =
  cu_start :: nat
  cu_pos :: nat
  cu_end :: nat
  cu_last :: "nat option"

datatype missing = MissingDataException nat nat

type_synonym 'a loading = "missing + 'a"

definition lbind :: "'a loading \<Rightarrow> ('a \<Rightarrow> 'b loading) \<Rightarrow> 'b loading" where
  "lbind m f = (case m of Inl e \<Rightarrow> Inl e | Inr x \<Rightarrow> f x)"

lemma lbind_simps [simp]: "lbind (Inl e) f = Inl e" "lbind (Inr x) f = f x"
  by (simp_all add: lbind_def)

lemma lbind_eq_Inr: "lbind m f = Inr y \<longleftrightarrow> (\<exists>x. m = Inr x \<and> f x = Inr y)"
  by (cases m) auto

lemma lbind_eq_Inl: "lbind m f = Inl e \<longleftrightarrow> m = Inl e \<or> (\<exists>x. m = Inr x \<and> f x = Inl e)"
  by (cases m) auto

definition mk_chunked :: "nat \<Rightarrow> nat \<Rightarrow> chunked" where
  "mk_chunked len chunkSize =
     \<lparr>ck_bytes = zeros len, ck_chunkSize = chunkSize, ck_numChunks = (len + chunkSize - 1) div chunkSize,
      ck_progressive = 0, ck_loaded = []\<rparr>"

definition mk_cursor :: "nat \<Rightarrow> cursor" where
  "mk_cursor len = \<lparr>cu_start = 0, cu_pos = 0, cu_end = len, cu_last = None\<rparr>"

section \<open>Chunks\<close>

definition hasChunk :: "nat \<Rightarrow> chunked \<Rightarrow> bool" where
  "hasChunk chunk c \<longleftrightarrow> chunk \<in> set (ck_loaded c)"

definition getMissingChunks :: "chunked \<Rightarrow> nat list" where
  "getMissingChunks c = filter (\<lambda>chunk. \<not> hasChunk chunk c) [0..<ck_numChunks c]"

definition numChunksLoaded :: "chunked \<Rightarrow> nat" where
  "numChunksLoaded c = length (ck_loaded c)"

definition isDataLoaded :: "chunked \<Rightarrow> bool" where
  "isDataLoaded c \<longleftrightarrow> numChunksLoaded c = ck_numChunks c"

definition add_chunk :: "nat list \<Rightarrow> nat \<Rightarrow> nat list" where
  "add_chunk cs chunk = (if chunk \<in> set cs then cs else cs @ [chunk])"

text \<open>\<open>Math.floor((end - 1) / chunkSize) + 1\<close>\<close>

definition end_chunk :: "nat \<Rightarrow> nat \<Rightarrow> nat" where
  "end_chunk chunkSize e = (if e = 0 then 0 else (e - 1) div chunkSize + 1)"

definition stream_onReceiveData :: "nat \<Rightarrow> bytes \<Rightarrow> chunked \<Rightarrow> chunked res" where
  "stream_onReceiveData start chunk c =
     (let e = start + length chunk
      in if start mod ck_chunkSize c \<noteq> 0 then Inl (JsError ''Bad begin offset'')
         else if e mod ck_chunkSize c \<noteq> 0 \<and> e \<noteq> length (ck_bytes c) then Inl (JsError ''Bad end offset'')
         else
           rbind (arr_set (ck_bytes c) chunk start) (\<lambda>bs.
             Inr (c\<lparr>ck_bytes := bs, ck_loaded := foldl add_chunk (ck_loaded c) [start div ck_chunkSize c..<end_chunk (ck_chunkSize c) e]\<rparr>)))"

definition onReceiveProgressiveData :: "bytes \<Rightarrow> chunked \<Rightarrow> chunked res" where
  "onReceiveProgressiveData data c =
     rbind (arr_set (ck_bytes c) data (ck_progressive c)) (\<lambda>bs.
       let position = ck_progressive c + length data;
           endChunk = (if length (ck_bytes c) \<le> position then ck_numChunks c else position div ck_chunkSize c)
       in Inr (c\<lparr>ck_bytes := bs, ck_progressive := position,
                 ck_loaded := foldl add_chunk (ck_loaded c) [ck_progressive c div ck_chunkSize c..<endChunk]\<rparr>))"

definition ensureByte :: "nat \<Rightarrow> chunked \<Rightarrow> cursor \<Rightarrow> cursor loading" where
  "ensureByte p c cu =
     (let chunk = p div ck_chunkSize c
      in if p < ck_progressive c then Inr cu
         else if ck_numChunks c < chunk then Inr cu
         else if cu_last cu = Some chunk then Inr cu
         else if \<not> hasChunk chunk c then Inl (MissingDataException p (p + 1))
         else Inr (cu\<lparr>cu_last := Some chunk\<rparr>))"

definition ensureRange :: "nat \<Rightarrow> nat \<Rightarrow> chunked \<Rightarrow> unit loading" where
  "ensureRange b e c =
     (if e \<le> b then Inr ()
      else if e \<le> ck_progressive c then Inr ()
      else if ck_numChunks c < b div ck_chunkSize c then Inr ()
      else if list_all (\<lambda>chunk. hasChunk chunk c) [b div ck_chunkSize c..<min (end_chunk (ck_chunkSize c) e) (ck_numChunks c)] then Inr ()
      else Inl (MissingDataException b e))"

definition next_empty :: "nat \<Rightarrow> chunked \<Rightarrow> nat option" where
  "next_empty beginChunk c =
     List.find (\<lambda>chunk. \<not> hasChunk chunk c) (map (\<lambda>i. (beginChunk + i) mod ck_numChunks c) [0..<ck_numChunks c])"

section \<open>Reading\<close>

definition ck_getByte :: "chunked \<Rightarrow> cursor \<Rightarrow> (u8 option \<times> cursor) loading" where
  "ck_getByte c cu =
     (let p = cu_pos cu
      in if cu_end cu \<le> p then Inr (None, cu)
         else lbind (if ck_progressive c \<le> p then ensureByte p c cu else Inr cu) (\<lambda>cu.
           Inr (Some (rd (ck_bytes c) p), cu\<lparr>cu_pos := p + 1\<rparr>)))"

definition ck_getBytes :: "nat \<Rightarrow> chunked \<Rightarrow> cursor \<Rightarrow> (bytes \<times> cursor) loading" where
  "ck_getBytes n c cu =
     (let p = cu_pos cu;
          endPos = (if n = 0 then cu_end cu else min (p + n) (cu_end cu))
      in lbind (if ck_progressive c < endPos then ensureRange p endPos c else Inr ()) (\<lambda>_.
           Inr (subarray (ck_bytes c) (int p) (int endPos), cu\<lparr>cu_pos := endPos\<rparr>)))"

definition ck_getByteRange :: "int \<Rightarrow> int \<Rightarrow> chunked \<Rightarrow> cursor \<Rightarrow> bytes loading" where
  "ck_getByteRange b e c cu =
     (let b' = (if b < 0 then 0 else b);
          e' = (if e > int (cu_end cu) then int (cu_end cu) else e)
      in lbind (if e' > int (ck_progressive c) then ensureRange (nat b') (nat e') c else Inr ()) (\<lambda>_.
           Inr (subarray (ck_bytes c) b' e')))"

text \<open>
  The cursor of a substream; it starts with the last chunk of the stream, which it would find
  through its prototype.
\<close>

definition ck_makeSubStream :: "nat \<Rightarrow> nat option \<Rightarrow> chunked \<Rightarrow> cursor \<Rightarrow> (cursor \<times> cursor) loading" where
  "ck_makeSubStream start len c cu =
     lbind (case len of
              Some l \<Rightarrow>
                if l \<noteq> 0 then
                  (if start + l > ck_progressive c then map_sum id (\<lambda>_. cu) (ensureRange start (start + l) c) else Inr cu)
                else if ck_progressive c \<le> start then ensureByte start c cu else Inr cu
            | None \<Rightarrow> if ck_progressive c \<le> start then ensureByte start c cu else Inr cu) (\<lambda>cu.
     Inr (\<lparr>cu_start = start, cu_pos = start,
           cu_end = (case len of Some l \<Rightarrow> if start + l = 0 then cu_end cu else start + l | None \<Rightarrow> cu_end cu),
           cu_last = cu_last cu\<rparr>, cu))"

definition sub_getMissingChunks :: "chunked \<Rightarrow> cursor \<Rightarrow> nat list" where
  "sub_getMissingChunks c cu =
     filter (\<lambda>chunk. \<not> hasChunk chunk c) [cu_start cu div ck_chunkSize c..<end_chunk (ck_chunkSize c) (cu_end cu)]"

definition sub_isDataLoaded :: "chunked \<Rightarrow> cursor \<Rightarrow> bool" where
  "sub_isDataLoaded c cu \<longleftrightarrow> numChunksLoaded c = ck_numChunks c \<or> sub_getMissingChunks c cu = []"

end
