(* ===== verification/Chunked_Laws.thy ===== *)
theory Chunked_Laws
  imports Chunked_Stream
begin

text \<open>
  A chunked stream against the file it is loaded from: as long as only slices of the file arrive,
  every read that returns is the read of a plain \<open>Stream\<close> on the whole file, a read that throws
  names a range with a missing chunk, and when that range has been loaded the read returns.
\<close>

section \<open>What is loaded\<close>

definition loads :: "bytes \<Rightarrow> chunked \<Rightarrow> bool" where
  "loads F c \<longleftrightarrow> 0 < ck_chunkSize c \<and> length (ck_bytes c) = length F \<and>
     ck_numChunks c = (length F + ck_chunkSize c - 1) div ck_chunkSize c \<and> ck_progressive c \<le> length F \<and>
     distinct (ck_loaded c) \<and> set (ck_loaded c) \<subseteq> {..<ck_numChunks c} \<and>
     (\<forall>i < length F. i < ck_progressive c \<or> hasChunk (i div ck_chunkSize c) c \<longrightarrow> ck_bytes c ! i = F ! i) \<and>
     (\<forall>k < ck_numChunks c. (k + 1) * ck_chunkSize c \<le> ck_progressive c \<or> ck_progressive c = length F \<longrightarrow> hasChunk k c)"

lemma add_chunks:
  "set (foldl add_chunk cs ks) = set cs \<union> set ks" "distinct cs \<Longrightarrow> distinct (foldl add_chunk cs ks)"
  by (induction ks arbitrary: cs) (auto simp: add_chunk_def)

lemma chunk_count:
  assumes "0 < (s::nat)"
  shows "k < (len + s - Suc 0) div s \<longleftrightarrow> k * s < len"
proof -
  have "k < (len + s - Suc 0) div s \<longleftrightarrow> Suc k \<le> (len + s - Suc 0) div s" by auto
  also have "\<dots> \<longleftrightarrow> Suc k * s \<le> len + s - Suc 0" using assms by (simp add: less_eq_div_iff_mult_less_eq)
  also have "\<dots> \<longleftrightarrow> k * s < len" using assms by auto
  finally show ?thesis .
qed

lemma div_chunk_count: "0 < (s::nat) \<Longrightarrow> i < len \<Longrightarrow> i div s < (len + s - Suc 0) div s"
  unfolding chunk_count by (rule le_less_trans [OF div_times_less_eq_dividend])

lemma end_chunk_count:
  assumes "0 < (s::nat)"
  shows "k < end_chunk s e \<longleftrightarrow> k * s < e"
proof (cases e)
  case (Suc d)
  have "k < d div s + 1 \<longleftrightarrow> k * s \<le> d" using assms by (simp add: less_Suc_eq_le less_eq_div_iff_mult_less_eq)
  then show ?thesis using Suc by (auto simp: end_chunk_def)
qed (simp add: end_chunk_def)

lemma nth_blit_within:
  "off + length src \<le> length dst \<Longrightarrow> i < length dst \<Longrightarrow>
    blit dst src off ! i = (if off \<le> i \<and> i < off + length src then src ! (i - off) else dst ! i)"
  by (auto simp: nth_blit)

lemma mk_chunked_loads: "0 < s \<Longrightarrow> loads F (mk_chunked (length F) s)"
  by (auto simp: loads_def mk_chunked_def hasChunk_def)

text \<open>A chunk between two multiples of the chunk size, or up to the end, covers the chunks that are marked.\<close>

lemma chunk_covered:
  assumes "0 < (s::nat)" and "b mod s = 0" and "e mod s = 0 \<or> e = len" and "b div s \<le> i div s" and "i div s < end_chunk s e" and "i < len"
  shows "b \<le> i \<and> i < e"
proof -
  have "b div s * s = b" using assms(2) by (simp add: div_mod_decomp_int mod_0_imp_dvd)
  moreover have "b div s * s \<le> i div s * s" using assms(4) by simp
  moreover have "i < e" if "e mod s = 0"
  proof -
    have "i div s * s < e" using assms(5) end_chunk_count [OF assms(1)] by simp
    then have "i div s < e div s" using that assms(1) by (metis div_mult_self_is_m less_mult_imp_div_less mod_0_imp_dvd dvd_div_mult_self)
    then show ?thesis using that assms(1) by (metis div_le_mono linorder_not_le)
  qed
  ultimately show ?thesis using assms(3,6) le_trans [OF _ div_times_less_eq_dividend, of b i s] by auto
qed

lemma onReceiveData_loads:
  assumes "loads F c" and "stream_onReceiveData b data c = Inr c'" and "data = take (length data) (drop b F)"
  shows "loads F c'" and "set (ck_loaded c') = set (ck_loaded c) \<union> {b div ck_chunkSize c..<end_chunk (ck_chunkSize c) (b + length data)}"
proof -
  let ?s = "ck_chunkSize c" and ?e = "b + length data"
  have ok: "b mod ?s = 0" "?e mod ?s = 0 \<or> ?e = length F" "?e \<le> length F" "0 < ?s"
    and c': "c' = c\<lparr>ck_bytes := blit (ck_bytes c) data b, ck_loaded := foldl add_chunk (ck_loaded c) [b div ?s..<end_chunk ?s ?e]\<rparr>"
    using assms(1,2) by (auto simp: stream_onReceiveData_def Let_def arr_set_def loads_def split: if_splits)
  show set: "set (ck_loaded c') = set (ck_loaded c) \<union> {b div ?s..<end_chunk ?s ?e}" by (simp add: c' add_chunks)
  have len: "length (ck_bytes c) = length F" "ck_numChunks c = (length F + ?s - 1) div ?s" using assms(1) by (auto simp: loads_def)
  have data: "data ! (i - b) = F ! i" if "b \<le> i" "i < ?e" for i
    using that ok(3) by (subst assms(3)) simp
  have "blit (ck_bytes c) data b ! i = F ! i"
    if "i < length F" "i < ck_progressive c \<or> i div ?s \<in> set (ck_loaded c')" for i
    using that assms(1) chunk_covered [OF ok(4,1,2)] data set ok(3) len by (auto simp: nth_blit_within loads_def hasChunk_def)
  moreover have "k < ck_numChunks c" if "b div ?s \<le> k" "k < end_chunk ?s ?e" for k
    using that(2) ok(3) by (simp add: len(2) chunk_count [OF ok(4)] end_chunk_count [OF ok(4)])
  ultimately show "loads F c'"
    using assms(1) ok(3) len(1) add_chunks(2) set unfolding loads_def hasChunk_def
    by (auto simp: c' length_blit add_chunks)
qed

lemma onReceiveProgressiveData_loads:
  assumes "loads F c" and "onReceiveProgressiveData data c = Inr c'" and "data = take (length data) (drop (ck_progressive c) F)"
  shows "loads F c'"
proof -
  let ?s = "ck_chunkSize c" and ?p = "ck_progressive c" and ?q = "ck_progressive c + length data"
  let ?e = "if length F \<le> ?q then ck_numChunks c else ?q div ?s"
  have s: "0 < ?s" and len: "length (ck_bytes c) = length F" "ck_numChunks c = (length F + ?s - 1) div ?s" using assms(1) by (auto simp: loads_def)
  have q: "?q \<le> length F" and c': "c' = c\<lparr>ck_bytes := blit (ck_bytes c) data ?p, ck_progressive := ?q, ck_loaded := foldl add_chunk (ck_loaded c) [?p div ?s..<?e]\<rparr>"
    using assms(2) len(1) by (auto simp: onReceiveProgressiveData_def Let_def arr_set_def split: if_splits)
  have set: "set (ck_loaded c') = set (ck_loaded c) \<union> {?p div ?s..<?e}" by (simp add: c' add_chunks)
  have data: "data ! (i - ?p) = F ! i" if "?p \<le> i" "i < ?q" for i
    using that q by (subst assms(3)) simp
  have below: "i < ?q" if "i < length F" "i div ?s < ?e" for i
    using that q s by (auto split: if_splits) (metis div_le_mono linorder_not_le)
  have "blit (ck_bytes c) data ?p ! i = F ! i"
    if "i < length F" "i < ?q \<or> i div ?s \<in> set (ck_loaded c')" for i
    using that assms(1) data set q len below by (auto simp: nth_blit_within loads_def hasChunk_def)
  moreover have "?e \<le> ck_numChunks c"
    using q s by (auto simp: len(2)) (metis div_le_mono le_add_diff_inverse2 One_nat_def Suc_leI add.commute add_leE diff_le_self le_add_diff trans_le_add1)
  moreover have "k \<in> set (ck_loaded c')" if "k < ck_numChunks c" "(k + 1) * ?s \<le> ?q \<or> ?q = length F" for k
  proof (cases "?p div ?s \<le> k")
    case True
    have "k < ?e" using that s less_eq_div_iff_mult_less_eq [of ?s "Suc k" ?q] by auto
    then show ?thesis using True set by simp
  next
    case False
    then have "(k + 1) * ?s \<le> ?p" using s by (metis Suc_eq_plus1 less_eq_div_iff_mult_less_eq not_less_eq_eq linorder_not_le)
    then show ?thesis using assms(1) that(1) set by (auto simp: loads_def hasChunk_def)
  qed
  ultimately show ?thesis
    using assms(1) q len add_chunks(2) unfolding loads_def hasChunk_def
    by (auto simp: c' length_blit add_chunks)
qed

section \<open>Reading\<close>

text \<open>The plain stream on the whole file at the position of a cursor.\<close>

definition whole :: "bytes \<Rightarrow> cursor \<Rightarrow> stream" where
  "whole F cu = \<lparr>s_bytes = F, s_start = cu_start cu, s_pos = cu_pos cu, s_end = cu_end cu\<rparr>"

definition cursor_ok :: "bytes \<Rightarrow> chunked \<Rightarrow> cursor \<Rightarrow> bool" where
  "cursor_ok F c cu \<longleftrightarrow> cu_end cu \<le> length F \<and> (\<forall>k. cu_last cu = Some k \<longrightarrow> hasChunk k c)"

lemma loadsD:
  assumes "loads F c"
  shows "0 < ck_chunkSize c" and "length (ck_bytes c) = length F" and "i < length F \<Longrightarrow> i div ck_chunkSize c < ck_numChunks c"
    and "i < length F \<Longrightarrow> i < ck_progressive c \<Longrightarrow> ck_bytes c ! i = F ! i"
    and "i < length F \<Longrightarrow> hasChunk (i div ck_chunkSize c) c \<Longrightarrow> ck_bytes c ! i = F ! i"
  using assms div_chunk_count [of "ck_chunkSize c" i "length F"] by (auto simp: loads_def)

lemma ensureByte_loaded:
  assumes "loads F c" and "cursor_ok F c cu" and "p < length F" and "ensureByte p c cu = Inr cu'"
  shows "ck_bytes c ! p = F ! p" and "cursor_ok F c cu'" and "cu'\<lparr>cu_last := cu_last cu\<rparr> = cu"
proof -
  note D = loadsD [OF assms(1)]
  have "\<not> ck_numChunks c < p div ck_chunkSize c" using D(3) [OF assms(3)] by simp
  then show "ck_bytes c ! p = F ! p" "cursor_ok F c cu'" "cu'\<lparr>cu_last := cu_last cu\<rparr> = cu"
    using assms D(4,5) by (auto simp: ensureByte_def Let_def cursor_ok_def split: if_splits)
qed

lemma ensureRange_loaded:
  assumes "loads F c" and "e \<le> length F" and "ensureRange b e c = Inr ()" and "b \<le> i" and "i < e"
  shows "ck_bytes c ! i = F ! i"
proof (cases "e \<le> ck_progressive c")
  case True
  then show ?thesis using loadsD(4) [OF assms(1), of i] assms(2,5) by simp
next
  case False
  note D = loadsD [OF assms(1)]
  have "b div ck_chunkSize c < ck_numChunks c" using D(3) [of b] assms(2,4,5) by simp
  then have "list_all (\<lambda>chunk. hasChunk chunk c) [b div ck_chunkSize c..<min (end_chunk (ck_chunkSize c) e) (ck_numChunks c)]"
    using assms(3-5) False by (auto simp: ensureRange_def split: if_splits)
  moreover have "i div ck_chunkSize c < end_chunk (ck_chunkSize c) e"
    unfolding end_chunk_count [OF D(1)] using assms(5) div_times_less_eq_dividend [of i "ck_chunkSize c"] by linarith
  ultimately have "hasChunk (i div ck_chunkSize c) c"
    using D(3) [of i] assms(2,4,5) by (simp add: list_all_iff div_le_mono)
  then show ?thesis using D(5) [of i] assms(2,5) by simp
qed

lemma subarray_loaded:
  assumes "loads F c" and "\<And>i. b \<le> i \<Longrightarrow> i < e \<Longrightarrow> i < length F \<Longrightarrow> ck_bytes c ! i = F ! i"
  shows "subarray (ck_bytes c) (int b) (int e) = subarray F (int b) (int e)"
proof -
  have "length (ck_bytes c) = length F" using loadsD(2) [OF assms(1)] .
  then show ?thesis using assms(2) by (auto simp: subarray_def js_index_def Let_def intro!: nth_equalityI)
qed

lemma getBytes_refines:
  assumes "loads F c" and "cursor_ok F c cu" and "ck_getBytes n c cu = Inr (bs, cu')"
  shows "getBytes n (whole F cu) = (bs, whole F cu')" and "cursor_ok F c cu'"
proof -
  let ?p = "cu_pos cu" and ?e = "if n = 0 then cu_end cu else min (cu_pos cu + n) (cu_end cu)"
  have e: "?e \<le> length F" using assms(2) by (auto simp: cursor_ok_def)
  have r: "ck_progressive c < ?e \<longrightarrow> ensureRange ?p ?e c = Inr ()" and bs: "bs = subarray (ck_bytes c) (int ?p) (int ?e)" "cu' = cu\<lparr>cu_pos := ?e\<rparr>"
    using assms(3) by (auto simp: ck_getBytes_def Let_def lbind_eq_Inr split: if_splits)
  have "ck_bytes c ! i = F ! i" if "?p \<le> i" "i < ?e" for i
    using that r e ensureRange_loaded [OF assms(1) e, of ?p i] loadsD(4) [OF assms(1), of i] by (cases "ck_progressive c < ?e") auto
  then have "bs = subarray F (int ?p) (int ?e)" unfolding bs(1) by (intro subarray_loaded [OF assms(1)])
  then show "getBytes n (whole F cu) = (bs, whole F cu')" using bs(2) by (simp add: getBytes_def whole_def Let_def)
  show "cursor_ok F c cu'" using assms(2) bs(2) by (simp add: cursor_ok_def)
qed

lemma getByte_refines:
  assumes "loads F c" and "cursor_ok F c cu" and "ck_getByte c cu = Inr (b, cu')"
  shows "getByte (whole F cu) = (b, whole F cu')" and "cursor_ok F c cu'"
proof -
  let ?p = "cu_pos cu"
  have "getByte (whole F cu) = (b, whole F cu') \<and> cursor_ok F c cu'"
  proof (cases "cu_end cu \<le> ?p")
    case True
    then show ?thesis using assms(2,3) by (simp add: ck_getByte_def getByte_def whole_def Let_def)
  next
    case False
    then have p: "?p < length F" using assms(2) by (simp add: cursor_ok_def)
    obtain cu1 where cu1: "(if ck_progressive c \<le> ?p then ensureByte ?p c cu else Inr cu) = Inr cu1" "b = Some (rd (ck_bytes c) ?p)" "cu' = cu1\<lparr>cu_pos := ?p + 1\<rparr>"
      using assms(3) False by (auto simp: ck_getByte_def Let_def lbind_eq_Inr)
    have "ck_bytes c ! ?p = F ! ?p \<and> cursor_ok F c cu1 \<and> cu1\<lparr>cu_last := cu_last cu\<rparr> = cu"
      using cu1(1) ensureByte_loaded [OF assms(1,2) p] loadsD(4) [OF assms(1) p] assms(2) by (auto split: if_splits)
    moreover from this have "cu_start cu1 = cu_start cu" "cu_end cu1 = cu_end cu" by (metis cursor.ext_inject cursor.surjective cursor.update_convs(4))+
    ultimately show ?thesis
      using cu1(2,3) p loadsD(2) [OF assms(1)] False by (simp add: getByte_def whole_def cursor_ok_def)
  qed
  then show "getByte (whole F cu) = (b, whole F cu')" "cursor_ok F c cu'" by simp_all
qed

text \<open>An end below 0 counts from the end of the array and is not checked.\<close>

lemma getByteRange_refines:
  assumes "loads F c" and "cursor_ok F c cu" and "ck_getByteRange b e c cu = Inr bs" and "0 \<le> e"
  shows "getByteRange b e (whole F cu) = bs"
proof -
  define b' e' where "b' = nat (if b < 0 then 0 else b)" and "e' = nat (if e > int (cu_end cu) then int (cu_end cu) else e)"
  have i: "(if b < 0 then 0 else b) = int b'" "(if e > int (cu_end cu) then int (cu_end cu) else e) = int e'" using assms(4) by (auto simp: b'_def e'_def)
  have len: "e' \<le> length F" using assms(2) by (auto simp: cursor_ok_def e'_def)
  have r: "ck_progressive c < e' \<longrightarrow> ensureRange b' e' c = Inr ()" and bs: "bs = subarray (ck_bytes c) (int b') (int e')"
    using assms(3) unfolding ck_getByteRange_def i by (auto simp: Let_def lbind_eq_Inr split: if_splits)
  have "ck_bytes c ! j = F ! j" if "b' \<le> j" "j < e'" for j
    using that r len ensureRange_loaded [OF assms(1) len, of b' j] loadsD(4) [OF assms(1), of j] by (cases "ck_progressive c < e'") auto
  then have "bs = subarray F (int b') (int e')" unfolding bs by (intro subarray_loaded [OF assms(1)])
  moreover have "getByteRange b e (whole F cu) = subarray F (if b < 0 then 0 else b) (if e > int (cu_end cu) then int (cu_end cu) else e)"
    by (simp add: getByteRange_def whole_def)
  ultimately show ?thesis unfolding i by simp
qed

section \<open>Missing data\<close>

lemma ensureRange_missing:
  assumes "loads F c" and "ensureRange b e c = Inl x"
  shows "x = MissingDataException b e \<and> (\<exists>k. b div ck_chunkSize c \<le> k \<and> k < end_chunk (ck_chunkSize c) e \<and> k < ck_numChunks c \<and> \<not> hasChunk k c)"
  using assms by (auto simp: ensureRange_def list_all_iff split: if_splits)

lemma getBytes_missing:
  assumes "loads F c" and "cursor_ok F c cu" and "ck_getBytes n c cu = Inl (MissingDataException b e)"
  shows "e \<le> length F" and "\<exists>k. b div ck_chunkSize c \<le> k \<and> k < end_chunk (ck_chunkSize c) e \<and> \<not> hasChunk k c"
proof -
  let ?p = "cu_pos cu" and ?e = "if n = 0 then cu_end cu else min (cu_pos cu + n) (cu_end cu)"
  have r: "ensureRange ?p ?e c = Inl (MissingDataException b e)"
    using assms(3) by (auto simp: ck_getBytes_def Let_def lbind_eq_Inl split: if_splits)
  then have "b = ?p \<and> e = ?e" using ensureRange_missing [OF assms(1)] by blast
  then show "e \<le> length F" using assms(2) by (auto simp: cursor_ok_def)
  show "\<exists>k. b div ck_chunkSize c \<le> k \<and> k < end_chunk (ck_chunkSize c) e \<and> \<not> hasChunk k c"
    using ensureRange_missing [OF assms(1) r] by auto
qed

end
