(* ===== verification/Chunked_Manager.thy ===== *)
theory Chunked_Manager
  imports Chunked_Laws "HOL-Library.AList"
begin

text \<open>
  \<open>ChunkedStreamManager\<close>: requests for chunks of a file, the range readers they start and the
  promises they return, and the data that arrives.

  A request is its number.  The state keeps, beside the fields of the class, the ranges that have
  been sent and not answered (\<open>mg_sent\<close>, with the request whose promise is rejected when the answer
  fails), how promises have been settled, and the messages about the progress.
\<close>

section \<open>State\<close>

datatype settled = Resolved | Rejected

record manager =
  mg_stream :: chunked
  mg_length :: nat
  mg_disableAutoFetch :: bool
  mg_aborted :: bool
  mg_currRequestId :: nat
  mg_needed :: "(nat \<times> nat list) list"
  mg_promises :: "nat list"
  mg_byChunk :: "(nat \<times> nat list) list"
  mg_loadedStream :: "settled option"
  mg_settled :: "(nat \<times> settled) list"
  mg_sent :: "(nat \<times> nat \<times> nat) list"
  mg_progress :: "nat list"

definition mk_manager :: "nat \<Rightarrow> nat \<Rightarrow> bool \<Rightarrow> manager" where
  "mk_manager len rangeChunkSize disableAutoFetch =
     \<lparr>mg_stream = mk_chunked len rangeChunkSize, mg_length = len, mg_disableAutoFetch = disableAutoFetch, mg_aborted = False,
      mg_currRequestId = 0, mg_needed = [], mg_promises = [], mg_byChunk = [], mg_loadedStream = None, mg_settled = [],
      mg_sent = [], mg_progress = []\<rparr>"

text \<open>A promise is settled once.\<close>

definition settle :: "settled \<Rightarrow> nat \<Rightarrow> manager \<Rightarrow> manager" where
  "settle v i m = (case map_of (mg_settled m) i of None \<Rightarrow> m\<lparr>mg_settled := mg_settled m @ [(i, v)]\<rparr> | Some _ \<Rightarrow> m)"

definition settle_loaded :: "settled \<Rightarrow> manager \<Rightarrow> manager" where
  "settle_loaded v m = (case mg_loadedStream m of None \<Rightarrow> m\<lparr>mg_loadedStream := Some v\<rparr> | Some _ \<Rightarrow> m)"

section \<open>Requests\<close>

definition getBeginChunk :: "nat \<Rightarrow> manager \<Rightarrow> nat" where
  "getBeginChunk b m = b div ck_chunkSize (mg_stream m)"

definition getEndChunk :: "nat \<Rightarrow> manager \<Rightarrow> nat" where
  "getEndChunk e m = end_chunk (ck_chunkSize (mg_stream m)) e"

text \<open>The loop of \<open>groupChunks\<close>; \<open>None\<close> is the -1 that both variables start with.\<close>

fun group_loop :: "nat option \<Rightarrow> nat option \<Rightarrow> nat list \<Rightarrow> (nat \<times> nat) list" where
  "group_loop beginChunk prevChunk [] = []"
| "group_loop beginChunk prevChunk (chunk # chunks) =
     (let b = (case beginChunk of None \<Rightarrow> chunk | Some b \<Rightarrow> b);
          (closed, b) = (case prevChunk of None \<Rightarrow> ([], b) | Some p \<Rightarrow> if p + 1 \<noteq> chunk then ([(b, p + 1)], chunk) else ([], b))
      in closed @ (if chunks = [] then [(b, chunk + 1)] else []) @ group_loop (Some b) (Some chunk) chunks)"

definition groupChunks :: "nat list \<Rightarrow> (nat \<times> nat) list" where
  "groupChunks chunks = group_loop None None chunks"

definition requests_of :: "(nat \<times> nat list) list \<Rightarrow> nat \<Rightarrow> nat list" where
  "requests_of bc chunk = (case map_of bc chunk of None \<Rightarrow> [] | Some ids \<Rightarrow> ids)"

definition add_request :: "nat \<Rightarrow> (nat \<times> nat list) list \<Rightarrow> nat \<Rightarrow> (nat \<times> nat list) list" where
  "add_request i bc chunk = AList.update chunk (requests_of bc chunk @ [i]) bc"

text \<open>\<open>_requestChunks\<close>; the result is the promise of the request, or \<open>None\<close> for one that is resolved already.\<close>

definition requestChunks :: "nat list \<Rightarrow> manager \<Rightarrow> nat option \<times> manager" where
  "requestChunks chunks m =
     (let i = mg_currRequestId m;
          needed = foldl add_chunk [] (filter (\<lambda>chunk. \<not> hasChunk chunk (mg_stream m)) chunks);
          m1 = m\<lparr>mg_currRequestId := i + 1, mg_needed := AList.update i needed (mg_needed m)\<rparr>
      in if needed = [] then (None, m1)
         else
           let toRequest = filter (\<lambda>chunk. map_of (mg_byChunk m) chunk = None) needed;
               size = ck_chunkSize (mg_stream m)
           in (Some i, m1\<lparr>mg_promises := mg_promises m @ [i], mg_byChunk := foldl (add_request i) (mg_byChunk m) needed,
                 mg_sent := mg_sent m @ map (\<lambda>(b, e). (b * size, min (e * size) (mg_length m), i)) (groupChunks toRequest)\<rparr>))"

definition requestAllChunks :: "bool \<Rightarrow> manager \<Rightarrow> manager" where
  "requestAllChunks noFetch m = (if noFetch then m else snd (requestChunks (getMissingChunks (mg_stream m)) m))"

definition range_chunks :: "nat \<Rightarrow> nat \<Rightarrow> manager \<Rightarrow> nat list" where
  "range_chunks b e m = [getBeginChunk b m..<getEndChunk (min e (mg_length m)) m]"

definition requestRange :: "nat \<Rightarrow> nat \<Rightarrow> manager \<Rightarrow> nat option \<times> manager" where
  "requestRange b e m = requestChunks (range_chunks b e m) m"

definition requestRanges :: "(nat \<times> nat) list \<Rightarrow> manager \<Rightarrow> nat option \<times> manager" where
  "requestRanges ranges m =
     requestChunks (sort (foldl (\<lambda>cs (b, e). foldl add_chunk cs [getBeginChunk b m..<getEndChunk e m]) [] ranges)) m"

section \<open>Arriving data\<close>

text \<open>
  A chunk has arrived: the requests that wait for it need it no longer; those that need nothing
  more are collected.  An entry that is not there would throw.
\<close>

fun arrive :: "nat \<Rightarrow> nat list \<Rightarrow> (nat \<times> nat list) list \<times> nat list \<Rightarrow> ((nat \<times> nat list) list \<times> nat list) res" where
  "arrive chunk [] st = Inr st"
| "arrive chunk (i # ids) (needed, done) =
     (case map_of needed i of
        None \<Rightarrow> Inl TypeError
      | Some ns \<Rightarrow>
          let ns = removeAll chunk ns
          in arrive chunk ids (AList.update i ns needed, if ns \<noteq> [] then done else done @ [i]))"

fun arrive_chunks :: "nat list \<Rightarrow> manager \<times> nat list \<Rightarrow> (manager \<times> nat list) res" where
  "arrive_chunks [] st = Inr st"
| "arrive_chunks (chunk # chunks) (m, done) =
     (case map_of (mg_byChunk m) chunk of
        None \<Rightarrow> arrive_chunks chunks (m, done)
      | Some ids \<Rightarrow>
          rbind (arrive chunk ids (mg_needed m, done)) (\<lambda>(needed, done).
            arrive_chunks chunks (m\<lparr>mg_byChunk := AList.delete chunk (mg_byChunk m), mg_needed := needed\<rparr>, done)))"

definition auto_fetch :: "nat \<Rightarrow> manager \<Rightarrow> manager" where
  "auto_fetch endChunk m =
     (if \<not> mg_disableAutoFetch m \<and> mg_byChunk m = [] then
        let s = mg_stream m;
            next = (if numChunksLoaded s = 1
                    then (if \<not> hasChunk (ck_numChunks s - 1) s then Some (ck_numChunks s - 1) else None)
                    else next_empty endChunk s)
        in (case next of Some chunk \<Rightarrow> snd (requestChunks [chunk] m) | None \<Rightarrow> m)
      else m)"

fun resolve_all :: "nat list \<Rightarrow> manager \<Rightarrow> manager res" where
  "resolve_all [] m = Inr m"
| "resolve_all (i # ids) m =
     (if i \<in> set (mg_promises m) then resolve_all ids (settle Resolved i (m\<lparr>mg_promises := removeAll i (mg_promises m)\<rparr>))
      else Inl TypeError)"

definition onReceiveData :: "nat option \<Rightarrow> bytes \<Rightarrow> manager \<Rightarrow> manager res" where
  "onReceiveData start chunk m =
     (let s = mg_stream m; size = ck_chunkSize s;
          b = (case start of None \<Rightarrow> ck_progressive s | Some b \<Rightarrow> b);
          e = b + length chunk;
          endChunk = (if e < mg_length m then e div size else (e + size - 1) div size)
      in rbind (case start of None \<Rightarrow> onReceiveProgressiveData chunk s | Some _ \<Rightarrow> stream_onReceiveData b chunk s) (\<lambda>s.
         let m = m\<lparr>mg_stream := s\<rparr>;
             m = (if isDataLoaded s then settle_loaded Resolved m else m)
         in rbind (arrive_chunks [b div size..<endChunk] (m, [])) (\<lambda>(m, loadedRequests).
            rbind (resolve_all loadedRequests (auto_fetch endChunk m)) (\<lambda>m.
              Inr (m\<lparr>mg_progress := mg_progress m @
                [min (max (numChunksLoaded (mg_stream m) * size) (ck_progressive (mg_stream m))) (mg_length m)]\<rparr>)))))"

text \<open>
  The rest of \<open>sendRequest\<close>, when the reader of a range is done with these pieces, and when it
  fails.  An exception rejects the promise of the request that sent the range.
\<close>

definition answered :: "nat \<times> nat \<times> nat \<Rightarrow> bytes list \<Rightarrow> manager \<Rightarrow> manager" where
  "answered r pieces m =
     (case r of (b, e, i) \<Rightarrow>
        let m = m\<lparr>mg_sent := remove1 r (mg_sent m)\<rparr>
        in if mg_aborted m then m
           else if pieces = [] \<and> mg_disableAutoFetch m then m
           else (case onReceiveData (Some b) (concat pieces) m of Inr m1 \<Rightarrow> m1 | Inl _ \<Rightarrow> settle Rejected i m))"

definition failed :: "nat \<times> nat \<times> nat \<Rightarrow> manager \<Rightarrow> manager" where
  "failed r m = (case r of (b, e, i) \<Rightarrow> settle Rejected i (m\<lparr>mg_sent := remove1 r (mg_sent m)\<rparr>))"

text \<open>\<open>sendProgressiveData\<close> of the network manager; an exception goes to its caller.\<close>

definition sendProgressiveData :: "bytes \<Rightarrow> manager \<Rightarrow> manager" where
  "sendProgressiveData chunk m = (case onReceiveData None chunk m of Inr m1 \<Rightarrow> m1 | Inl _ \<Rightarrow> m)"

definition abort :: "manager \<Rightarrow> manager" where
  "abort m = settle_loaded Rejected (foldl (\<lambda>m i. settle Rejected i m) (m\<lparr>mg_aborted := True\<rparr>) (mg_promises m))"

section \<open>Runs\<close>

text \<open>
  What can happen while a file \<open>F\<close> is loaded: requests, answers to ranges that were sent, which
  may be shorter than the range, failures, and data that is read from the start.
\<close>

inductive mg_step :: "bytes \<Rightarrow> manager \<Rightarrow> manager \<Rightarrow> bool" for F where
  range: "mg_step F m (snd (requestRange b e m))"
| ranges: "mg_step F m (snd (requestRanges rs m))"
| all: "mg_step F m (requestAllChunks noFetch m)"
| answer: "(b, e, i) \<in> set (mg_sent m) \<Longrightarrow> b + n \<le> e \<Longrightarrow> concat pieces = take n (drop b F) \<Longrightarrow> mg_step F m (answered (b, e, i) pieces m)"
| failure: "r \<in> set (mg_sent m) \<Longrightarrow> mg_step F m (failed r m)"
| progress: "data = take n (drop (ck_progressive (mg_stream m)) F) \<Longrightarrow> mg_step F m (sendProgressiveData data m)"
| aborting: "mg_step F m (abort m)"

inductive mg_run :: "bytes \<Rightarrow> manager \<Rightarrow> manager \<Rightarrow> bool" for F where
  start: "mg_run F m m"
| more: "mg_run F m m1 \<Longrightarrow> mg_step F m1 m2 \<Longrightarrow> mg_run F m m2"

end
