(* ===== verification/Chunked_Requests.thy ===== *)
theory Chunked_Requests
  imports Chunked_Manager
begin

text \<open>
  The books of the manager are right: a request waits exactly for the chunks it asked for that
  have not arrived, its promise is settled when the last of them does, and no arrival of data
  finds an entry missing.
\<close>

section \<open>Waiting\<close>

definition needed_of :: "(nat \<times> nat list) list \<Rightarrow> nat \<Rightarrow> nat list" where
  "needed_of nd i = (case map_of nd i of None \<Rightarrow> [] | Some ns \<Rightarrow> ns)"

definition books :: "(nat \<times> nat list) list \<Rightarrow> (nat \<times> nat list) list \<Rightarrow> bool" where
  "books nd bc \<longleftrightarrow> (\<forall>i k. i \<in> set (requests_of bc k) \<longleftrightarrow> k \<in> set (needed_of nd i)) \<and> (\<forall>k. distinct (requests_of bc k))"

lemma booksD: "books nd bc \<Longrightarrow> i \<in> set (requests_of bc k) \<longleftrightarrow> k \<in> set (needed_of nd i)"
  by (simp add: books_def)

lemma requests_of_simps [simp]: "map_of bc k = None \<Longrightarrow> requests_of bc k = []" "map_of bc k = Some ids \<Longrightarrow> requests_of bc k = ids"
  by (simp_all add: requests_of_def)

lemma map_of_update: "map_of (AList.update k v xs) = (map_of xs)(k \<mapsto> v)"
  by (rule update_conv')

lemma map_of_delete: "map_of (AList.delete k xs) = (map_of xs)(k := None)"
  by (rule delete_conv')

subsection \<open>Arrivals\<close>

lemma arrive_eq:
  assumes "distinct ids" and "\<forall>i \<in> set ids. map_of nd i \<noteq> None"
  shows "\<exists>nd'. arrive chunk ids (nd, dn) = Inr (nd', dn @ filter (\<lambda>i. removeAll chunk (needed_of nd i) = []) ids) \<and>
    (\<forall>i. map_of nd' i = (if i \<in> set ids then Some (removeAll chunk (needed_of nd i)) else map_of nd i))"
  using assms
proof (induction ids arbitrary: nd dn)
  case (Cons j ids)
  then obtain ns where ns: "map_of nd j = Some ns" by auto
  let ?nd = "AList.update j (removeAll chunk ns) nd"
  have same: "needed_of ?nd i = needed_of nd i" if "i \<in> set ids" for i
    using that Cons.prems(1) by (auto simp: needed_of_def map_of_update)
  have "distinct ids" "\<forall>i \<in> set ids. map_of ?nd i \<noteq> None" using Cons.prems by (auto simp: map_of_update)
  from Cons.IH [OF this, of "if removeAll chunk ns \<noteq> [] then dn else dn @ [j]"] obtain nd' where
    nd': "arrive chunk ids (?nd, if removeAll chunk ns \<noteq> [] then dn else dn @ [j]) =
      Inr (nd', (if removeAll chunk ns \<noteq> [] then dn else dn @ [j]) @ filter (\<lambda>i. removeAll chunk (needed_of ?nd i) = []) ids)"
    "\<forall>i. map_of nd' i = (if i \<in> set ids then Some (removeAll chunk (needed_of ?nd i)) else map_of ?nd i)" by blast
  have "filter (\<lambda>i. removeAll chunk (needed_of ?nd i) = []) ids = filter (\<lambda>i. removeAll chunk (needed_of nd i) = []) ids"
    by (rule filter_cong) (simp_all add: same)
  moreover have "removeAll chunk (needed_of nd j) = removeAll chunk ns" using ns by (simp add: needed_of_def)
  moreover have "map_of nd' i = (if i \<in> set (j # ids) then Some (removeAll chunk (needed_of nd i)) else map_of nd i)" for i
    using nd'(2) same ns by (auto simp: map_of_update needed_of_def)
  ultimately show ?case using nd'(1) ns by (auto simp: Let_def)
qed simp

lemma books_arrive:
  assumes "books nd bc" and "map_of bc chunk = Some ids"
    and "\<forall>i. map_of nd' i = (if i \<in> set ids then Some (removeAll chunk (needed_of nd i)) else map_of nd i)"
  shows "books nd' (AList.delete chunk bc)" and "set (needed_of nd' i) = set (needed_of nd i) - {chunk}"
    and "i \<in> set ids \<Longrightarrow> needed_of nd i \<noteq> []" and "needed_of nd' i = (if i \<in> set ids then removeAll chunk (needed_of nd i) else needed_of nd i)"
proof -
  have ids: "i \<in> set ids \<longleftrightarrow> chunk \<in> set (needed_of nd i)" for i
    using booksD [OF assms(1), of i chunk] assms(2) by simp
  show n: "needed_of nd' i = (if i \<in> set ids then removeAll chunk (needed_of nd i) else needed_of nd i)" for i
    using assms(3) by (simp add: needed_of_def)
  show s: "set (needed_of nd' i) = set (needed_of nd i) - {chunk}" for i using ids by (auto simp: n)
  show "needed_of nd i \<noteq> []" if "i \<in> set ids" using ids that by auto
  have "requests_of (AList.delete chunk bc) k = (if k = chunk then [] else requests_of bc k)" for k
    by (simp add: requests_of_def map_of_delete)
  then show "books nd' (AList.delete chunk bc)" using assms(1) s by (auto simp: books_def)
qed

lemma arrive_chunks_eq:
  assumes "books (mg_needed m) (mg_byChunk m)"
  shows "\<exists>nd bc ds. arrive_chunks chunks (m, dn) = Inr (m\<lparr>mg_byChunk := bc, mg_needed := nd\<rparr>, dn @ ds) \<and> books nd bc \<and>
    (\<forall>k. map_of bc k = (if k \<in> set chunks then None else map_of (mg_byChunk m) k)) \<and>
    (\<forall>i. map_of nd i = None \<longleftrightarrow> map_of (mg_needed m) i = None) \<and>
    (\<forall>i. set (needed_of nd i) = set (needed_of (mg_needed m) i) - set chunks) \<and>
    distinct ds \<and> set ds = {i. needed_of (mg_needed m) i \<noteq> [] \<and> needed_of nd i = []}"
  using assms
proof (induction chunks arbitrary: m dn)
  case Nil
  then show ?case by (intro exI [of _ "mg_needed m"] exI [of _ "mg_byChunk m"] exI [of _ "[]"]) auto
next
  case (Cons chunk chunks)
  show ?case
  proof (cases "map_of (mg_byChunk m) chunk")
    case None
    then have none: "chunk \<notin> set (needed_of (mg_needed m) i)" for i
      using booksD [OF Cons.prems, of i chunk] by simp
    obtain nd bc ds where r: "arrive_chunks chunks (m, dn) = Inr (m\<lparr>mg_byChunk := bc, mg_needed := nd\<rparr>, dn @ ds)" "books nd bc"
      "\<forall>k. map_of bc k = (if k \<in> set chunks then None else map_of (mg_byChunk m) k)"
      "\<forall>i. map_of nd i = None \<longleftrightarrow> map_of (mg_needed m) i = None"
      "\<forall>i. set (needed_of nd i) = set (needed_of (mg_needed m) i) - set chunks"
      "distinct ds" "set ds = {i. needed_of (mg_needed m) i \<noteq> [] \<and> needed_of nd i = []}"
      using Cons.IH [OF Cons.prems, of dn] by blast
    have "map_of bc k = (if k \<in> set (chunk # chunks) then None else map_of (mg_byChunk m) k)" for k using r(3) None by auto
    moreover have "set (needed_of nd i) = set (needed_of (mg_needed m) i) - set (chunk # chunks)" for i using r(5) none by auto
    moreover have "arrive_chunks (chunk # chunks) (m, dn) = Inr (m\<lparr>mg_byChunk := bc, mg_needed := nd\<rparr>, dn @ ds)" using r(1) None by simp
    ultimately show ?thesis using r(2,4,6,7) by blast
  next
    case (Some ids)
    have ids: "distinct ids" "\<forall>i \<in> set ids. map_of (mg_needed m) i \<noteq> None"
    proof -
      show "distinct ids" using Cons.prems Some requests_of_simps(2) [OF Some] unfolding books_def by metis
      have "chunk \<in> set (needed_of (mg_needed m) i)" if "i \<in> set ids" for i
        using booksD [OF Cons.prems, of i chunk] requests_of_simps(2) [OF Some] that by simp
      then have "needed_of (mg_needed m) i \<noteq> []" if "i \<in> set ids" for i using that by force
      then show "\<forall>i \<in> set ids. map_of (mg_needed m) i \<noteq> None" unfolding needed_of_def by (metis option.simps(4))
    qed
    obtain nd1 where nd1: "arrive chunk ids (mg_needed m, dn) = Inr (nd1, dn @ filter (\<lambda>i. removeAll chunk (needed_of (mg_needed m) i) = []) ids)"
      "\<forall>i. map_of nd1 i = (if i \<in> set ids then Some (removeAll chunk (needed_of (mg_needed m) i)) else map_of (mg_needed m) i)"
      using arrive_eq [OF ids] by blast
    note b = books_arrive [OF Cons.prems Some nd1(2)]
    let ?m = "m\<lparr>mg_byChunk := AList.delete chunk (mg_byChunk m), mg_needed := nd1\<rparr>"
    let ?d = "filter (\<lambda>i. removeAll chunk (needed_of (mg_needed m) i) = []) ids"
    obtain nd bc ds where r: "arrive_chunks chunks (?m, dn @ ?d) = Inr (?m\<lparr>mg_byChunk := bc, mg_needed := nd\<rparr>, (dn @ ?d) @ ds)" "books nd bc"
      "\<forall>k. map_of bc k = (if k \<in> set chunks then None else map_of (mg_byChunk ?m) k)"
      "\<forall>i. map_of nd i = None \<longleftrightarrow> map_of (mg_needed ?m) i = None"
      "\<forall>i. set (needed_of nd i) = set (needed_of (mg_needed ?m) i) - set chunks"
      "distinct ds" "set ds = {i. needed_of (mg_needed ?m) i \<noteq> [] \<and> needed_of nd i = []}"
      using Cons.IH [of ?m "dn @ ?d"] b(1) by auto
    have "arrive_chunks (chunk # chunks) (m, dn) = Inr (m\<lparr>mg_byChunk := bc, mg_needed := nd\<rparr>, dn @ (?d @ ds))"
      using r(1) nd1(1) Some by simp
    moreover have "map_of bc k = (if k \<in> set (chunk # chunks) then None else map_of (mg_byChunk m) k)" for k
      using r(3) by (auto simp: map_of_delete)
    moreover have "map_of nd i = None \<longleftrightarrow> map_of (mg_needed m) i = None" for i using r(4) nd1(2) ids(2) by auto
    moreover have sub: "set (needed_of nd i) = set (needed_of (mg_needed m) i) - set (chunk # chunks)" for i using r(5) b(2) by auto
    moreover have "distinct (?d @ ds)" using ids(1) r(6,7) b(4) by auto
    moreover have "set (?d @ ds) = {i. needed_of (mg_needed m) i \<noteq> [] \<and> needed_of nd i = []}"
    proof -
      have "needed_of nd1 i = [] \<Longrightarrow> needed_of nd i = []" for i using spec [OF r(5), of i] by simp
      then show ?thesis using r(7) b(3,4) by (auto split: if_splits)
    qed
    ultimately show ?thesis using r(2) by (intro exI [of _ nd] exI [of _ bc] exI [of _ "?d @ ds"]) simp
  qed
qed

subsection \<open>Requests\<close>

lemma requests_of_add:
  assumes "distinct ks"
  shows "requests_of (foldl (add_request i) bc ks) k = requests_of bc k @ (if k \<in> set ks then [i] else [])"
    and "map_of (foldl (add_request i) bc ks) k = None \<longleftrightarrow> map_of bc k = None \<and> k \<notin> set ks"
  using assms
proof (induction ks arbitrary: bc)
  case (Cons j ks)
  case 1
  then show ?case using Cons(1) [of "add_request i bc j"] by (auto simp: add_request_def requests_of_def map_of_update)
next
  case (Cons j ks)
  case 2
  then show ?case using Cons(2) [of "add_request i bc j"] by (auto simp: add_request_def map_of_update)
qed simp_all

text \<open>What does not depend on which requests are resolved: data, books and numbers.\<close>

definition mg_core :: "bytes \<Rightarrow> manager \<Rightarrow> bool" where
  "mg_core F m \<longleftrightarrow> loads F (mg_stream m) \<and> mg_length m = length F \<and> books (mg_needed m) (mg_byChunk m) \<and>
     (\<forall>k. hasChunk k (mg_stream m) \<longrightarrow> map_of (mg_byChunk m) k = None) \<and>
     (\<forall>i. map_of (mg_needed m) i \<noteq> None \<longrightarrow> i < mg_currRequestId m)"

definition mg_inv :: "bytes \<Rightarrow> manager \<Rightarrow> bool" where
  "mg_inv F m \<longleftrightarrow> mg_core F m \<and> distinct (mg_promises m) \<and> (\<forall>i. i \<in> set (mg_promises m) \<longleftrightarrow> needed_of (mg_needed m) i \<noteq> [])"

lemma requestChunks_core:
  assumes "mg_core F m" and "requestChunks chunks m = (r, m')"
  obtains nd where "mg_core F m'" and "mg_stream m' = mg_stream m" and "mg_settled m' = mg_settled m"
    and "mg_currRequestId m' = mg_currRequestId m + 1" and "map_of (mg_needed m') = (map_of (mg_needed m))(mg_currRequestId m \<mapsto> nd)"
    and "set nd = set chunks - set (ck_loaded (mg_stream m))" and "mg_promises m' = mg_promises m @ (if nd = [] then [] else [mg_currRequestId m])"
    and "r = (if nd = [] then None else Some (mg_currRequestId m))"
proof -
  define nd where "nd = foldl add_chunk [] (filter (\<lambda>chunk. \<not> hasChunk chunk (mg_stream m)) chunks)"
  let ?i = "mg_currRequestId m"
  have nd: "set nd = set chunks - set (ck_loaded (mg_stream m))" "distinct nd" by (auto simp: nd_def add_chunks hasChunk_def)
  have needed: "map_of (mg_needed m') = (map_of (mg_needed m))(?i \<mapsto> nd)" "mg_stream m' = mg_stream m" "mg_settled m' = mg_settled m"
      "mg_currRequestId m' = ?i + 1" "mg_length m' = mg_length m"
      "mg_promises m' = mg_promises m @ (if nd = [] then [] else [?i])" "r = (if nd = [] then None else Some ?i)"
    and bc: "mg_byChunk m' = foldl (add_request ?i) (mg_byChunk m) nd"
    using assms(2) by (auto simp: requestChunks_def Let_def nd_def [symmetric] map_of_update split: if_splits)
  have fresh: "map_of (mg_needed m) ?i = None" using assms(1) unfolding mg_core_def by (metis less_irrefl)
  have n: "needed_of (mg_needed m') j = (if j = ?i then nd else needed_of (mg_needed m) j)" for j
    using needed(1) by (simp add: needed_of_def)
  have b: "books (mg_needed m) (mg_byChunk m)" using assms(1) by (simp add: mg_core_def)
  have none: "?i \<notin> set (requests_of (mg_byChunk m) k)" for k using booksD [OF b, of ?i k] fresh by (simp add: needed_of_def)
  have "books (mg_needed m') (mg_byChunk m')"
    using b none unfolding books_def bc requests_of_add(1) [OF nd(2)] n by auto
  moreover have "map_of (mg_byChunk m') k = None" if "hasChunk k (mg_stream m')" for k
    using that assms(1) nd(1) unfolding bc requests_of_add(2) [OF nd(2)] needed(2) by (auto simp: mg_core_def hasChunk_def)
  moreover have "j < mg_currRequestId m'" if "map_of (mg_needed m') j \<noteq> None" for j
    using that assms(1) unfolding needed(1,4) mg_core_def by (cases "j = ?i") (auto simp: less_Suc_eq)
  ultimately have "mg_core F m'" using assms(1) needed(2,5) by (simp add: mg_core_def)
  then show thesis using that nd(1) needed by blast
qed

lemma requestChunks_inv:
  assumes "mg_inv F m" and "requestChunks chunks m = (r, m')"
  shows "mg_inv F m'"
proof -
  have c: "mg_core F m" using assms(1) by (simp add: mg_inv_def)
  obtain nd where nd: "mg_core F m'" "map_of (mg_needed m') = (map_of (mg_needed m))(mg_currRequestId m \<mapsto> nd)"
      "mg_promises m' = mg_promises m @ (if nd = [] then [] else [mg_currRequestId m])"
    using requestChunks_core [OF c assms(2)] by metis
  have n: "needed_of (mg_needed m') j = (if j = mg_currRequestId m then nd else needed_of (mg_needed m) j)" for j
    using nd(2) by (simp add: needed_of_def)
  have "needed_of (mg_needed m) (mg_currRequestId m) = []"
    using c unfolding mg_core_def needed_of_def by (metis less_irrefl option.exhaust option.simps(4))
  then have "mg_currRequestId m \<notin> set (mg_promises m)" using assms(1) by (simp add: mg_inv_def)
  then show ?thesis using assms(1) nd(1,3) n by (auto simp: mg_inv_def)
qed

subsection \<open>Progress\<close>

text \<open>
  What every step keeps: chunks stay, requests need what has not arrived of what they needed, and
  a promise is given up only when it is settled, which is final.
\<close>

definition moves_on :: "manager \<Rightarrow> manager \<Rightarrow> bool" where
  "moves_on m m' \<longleftrightarrow> set (ck_loaded (mg_stream m)) \<subseteq> set (ck_loaded (mg_stream m')) \<and>
     (\<forall>i ns. map_of (mg_needed m) i = Some ns \<longrightarrow>
        (\<exists>ns'. map_of (mg_needed m') i = Some ns' \<and> set ns' = set ns - set (ck_loaded (mg_stream m')))) \<and>
     (\<forall>i \<in> set (mg_promises m). i \<in> set (mg_promises m') \<or> map_of (mg_settled m') i \<noteq> None) \<and>
     (\<forall>i v. map_of (mg_settled m) i = Some v \<longrightarrow> map_of (mg_settled m') i = Some v)"

lemma moves_on_trans:
  assumes "moves_on m1 m2" and "moves_on m2 m3"
  shows "moves_on m1 m3"
proof -
  have "\<exists>ns'. map_of (mg_needed m3) i = Some ns' \<and> set ns' = set ns - set (ck_loaded (mg_stream m3))" if "map_of (mg_needed m1) i = Some ns" for i ns
  proof -
    obtain ns2 where "map_of (mg_needed m2) i = Some ns2" "set ns2 = set ns - set (ck_loaded (mg_stream m2))"
      using assms(1) \<open>map_of (mg_needed m1) i = Some ns\<close> unfolding moves_on_def by blast
    moreover from this obtain ns3 where "map_of (mg_needed m3) i = Some ns3" "set ns3 = set ns2 - set (ck_loaded (mg_stream m3))"
      using assms(2) unfolding moves_on_def by blast
    moreover have "set (ck_loaded (mg_stream m2)) \<subseteq> set (ck_loaded (mg_stream m3))" using assms(2) by (simp add: moves_on_def)
    ultimately show ?thesis by auto
  qed
  moreover have "i \<in> set (mg_promises m3) \<or> map_of (mg_settled m3) i \<noteq> None" if "i \<in> set (mg_promises m1)" for i
    using assms that unfolding moves_on_def by blast
  ultimately show ?thesis using assms unfolding moves_on_def by auto
qed

lemma needed_missing:
  assumes "mg_core F m" and "map_of (mg_needed m) i = Some ns"
  shows "set ns - set (ck_loaded (mg_stream m)) = set ns"
proof -
  have "k \<notin> set (ck_loaded (mg_stream m))" if "k \<in> set ns" for k
  proof -
    have "i \<in> set (requests_of (mg_byChunk m) k)" using booksD [of "mg_needed m" "mg_byChunk m" i k] assms that by (simp add: mg_core_def needed_of_def)
    then have "map_of (mg_byChunk m) k \<noteq> None" using requests_of_simps(1) [of "mg_byChunk m" k] by (cases "map_of (mg_byChunk m) k") simp_all
    then show ?thesis using assms(1) by (auto simp: mg_core_def hasChunk_def)
  qed
  then show ?thesis by auto
qed

lemma moves_on_same:
  assumes "mg_core F m" and "mg_stream m' = mg_stream m" and "map_of (mg_needed m) \<subseteq>\<^sub>m map_of (mg_needed m')"
    and "set (mg_promises m) \<subseteq> set (mg_promises m')" and "map_of (mg_settled m) \<subseteq>\<^sub>m map_of (mg_settled m')"
  shows "moves_on m m'"
  unfolding moves_on_def
proof (intro conjI allI impI ballI)
  fix i ns
  assume "map_of (mg_needed m) i = Some ns"
  then show "\<exists>ns'. map_of (mg_needed m') i = Some ns' \<and> set ns' = set ns - set (ck_loaded (mg_stream m'))"
    using assms(2,3) needed_missing [OF assms(1)] by (metis domI map_le_def)
qed (use assms in \<open>auto simp: map_le_def dom_def\<close>)

lemma requestChunks_moves_on:
  assumes "mg_core F m" and "requestChunks chunks m = (r, m')"
  shows "moves_on m m'"
proof -
  obtain nd where nd: "mg_stream m' = mg_stream m" "mg_settled m' = mg_settled m"
      "map_of (mg_needed m') = (map_of (mg_needed m))(mg_currRequestId m \<mapsto> nd)"
      "mg_promises m' = mg_promises m @ (if nd = [] then [] else [mg_currRequestId m])"
    using requestChunks_core [OF assms] by metis
  have "map_of (mg_needed m) (mg_currRequestId m) = None" using assms(1) unfolding mg_core_def by (metis less_irrefl)
  then have "map_of (mg_needed m) \<subseteq>\<^sub>m map_of (mg_needed m')" unfolding nd(3) map_le_def by auto
  then show ?thesis using moves_on_same [OF assms(1) nd(1)] nd(2,4) by simp
qed

lemma settle_simps [simp]:
  "mg_stream (settle v i m) = mg_stream m" "mg_length (settle v i m) = mg_length m" "mg_needed (settle v i m) = mg_needed m"
  "mg_byChunk (settle v i m) = mg_byChunk m" "mg_promises (settle v i m) = mg_promises m" "mg_currRequestId (settle v i m) = mg_currRequestId m"
  "mg_sent (settle v i m) = mg_sent m" "mg_aborted (settle v i m) = mg_aborted m" "mg_disableAutoFetch (settle v i m) = mg_disableAutoFetch m"
  by (simp_all add: settle_def split: option.split)

lemma settle_settled:
  "map_of (mg_settled (settle v i m)) j = (case map_of (mg_settled m) j of Some u \<Rightarrow> Some u | None \<Rightarrow> if j = i then Some v else None)"
  by (simp add: settle_def map_add_def split: option.split)

lemma settle_loaded_simps [simp]:
  "mg_stream (settle_loaded v m) = mg_stream m" "mg_length (settle_loaded v m) = mg_length m" "mg_needed (settle_loaded v m) = mg_needed m"
  "mg_byChunk (settle_loaded v m) = mg_byChunk m" "mg_promises (settle_loaded v m) = mg_promises m"
  "mg_currRequestId (settle_loaded v m) = mg_currRequestId m" "mg_settled (settle_loaded v m) = mg_settled m"
  "mg_sent (settle_loaded v m) = mg_sent m" "mg_aborted (settle_loaded v m) = mg_aborted m"
  "mg_disableAutoFetch (settle_loaded v m) = mg_disableAutoFetch m"
  by (simp_all add: settle_loaded_def split: option.split)

lemma resolve_all_eq:
  assumes "distinct ids" and "set ids \<subseteq> set (mg_promises m)"
  shows "\<exists>m'. resolve_all ids m = Inr m' \<and> mg_promises m' = filter (\<lambda>i. i \<notin> set ids) (mg_promises m) \<and>
    mg_stream m' = mg_stream m \<and> mg_length m' = mg_length m \<and> mg_needed m' = mg_needed m \<and> mg_byChunk m' = mg_byChunk m \<and>
    mg_currRequestId m' = mg_currRequestId m \<and> mg_sent m' = mg_sent m \<and>
    (\<forall>i v. map_of (mg_settled m) i = Some v \<longrightarrow> map_of (mg_settled m') i = Some v) \<and> (\<forall>i \<in> set ids. map_of (mg_settled m') i \<noteq> None)"
  using assms
proof (induction ids arbitrary: m)
  case (Cons j ids)
  let ?m = "settle Resolved j (m\<lparr>mg_promises := removeAll j (mg_promises m)\<rparr>)"
  have s: "map_of (mg_settled ?m) i = (case map_of (mg_settled m) i of Some u \<Rightarrow> Some u | None \<Rightarrow> if i = j then Some Resolved else None)" for i
    by (simp add: settle_settled)
  have "distinct ids" "set ids \<subseteq> set (mg_promises ?m)" using Cons.prems by auto
  from Cons.IH [OF this] obtain m' where m': "resolve_all ids ?m = Inr m'" "mg_promises m' = filter (\<lambda>i. i \<notin> set ids) (mg_promises ?m)"
    "mg_stream m' = mg_stream ?m" "mg_length m' = mg_length ?m" "mg_needed m' = mg_needed ?m" "mg_byChunk m' = mg_byChunk ?m"
    "mg_currRequestId m' = mg_currRequestId ?m" "mg_sent m' = mg_sent ?m"
    "\<forall>i v. map_of (mg_settled ?m) i = Some v \<longrightarrow> map_of (mg_settled m') i = Some v" "\<forall>i \<in> set ids. map_of (mg_settled m') i \<noteq> None" by blast
  have "resolve_all (j # ids) m = Inr m'" using m'(1) Cons.prems by simp
  moreover have "mg_promises m' = filter (\<lambda>i. i \<notin> set (j # ids)) (mg_promises m)"
    using m'(2) by (simp add: removeAll_filter_not_eq) (rule filter_cong, auto)
  moreover have "map_of (mg_settled m') i = Some v" if "map_of (mg_settled m) i = Some v" for i v using m'(9) s that by auto
  moreover have "map_of (mg_settled m') i \<noteq> None" if "i \<in> set (j # ids)" for i
  proof (cases "i = j")
    case True
    then obtain v where "map_of (mg_settled ?m) i = Some v" using s by (cases "map_of (mg_settled m) i") auto
    then show ?thesis using m'(9) by auto
  qed (use m'(10) that in simp)
  ultimately show ?case using m'(3-8) by auto
qed simp

subsection \<open>Data that arrives\<close>

lemma less_iff_eq: "(\<And>k::nat. k < a \<longleftrightarrow> k < b) \<Longrightarrow> a = b"
  by (metis linorder_neqE_nat less_irrefl)

text \<open>The chunks that the manager takes as arrived are those that the stream marks as loaded.\<close>

definition receive :: "nat option \<Rightarrow> bytes \<Rightarrow> chunked \<Rightarrow> chunked res" where
  "receive start data c = (case start of None \<Rightarrow> onReceiveProgressiveData data c | Some b \<Rightarrow> stream_onReceiveData b data c)"

definition receive_start :: "nat option \<Rightarrow> chunked \<Rightarrow> nat" where
  "receive_start start c = (case start of None \<Rightarrow> ck_progressive c | Some b \<Rightarrow> b)"

lemma receive_loads:
  assumes "loads F c" and "receive start data c = Inr c'" and "data = take (length data) (drop (receive_start start c) F)"
  defines "e \<equiv> receive_start start c + length data" and "s \<equiv> ck_chunkSize c"
  shows "loads F c'" and "set (ck_loaded c') = set (ck_loaded c) \<union> {receive_start start c div s..<if e < length F then e div s else (e + s - Suc 0) div s}"
proof -
  have c: "0 < s" "length (ck_bytes c) = length F" "ck_numChunks c = (length F + s - Suc 0) div s" using assms(1) by (auto simp: loads_def s_def)
  have e: "e \<le> length F"
    using assms(2) c(2) by (auto simp: receive_def receive_start_def e_def stream_onReceiveData_def onReceiveProgressiveData_def Let_def arr_set_def split: option.splits if_splits)
  show "loads F c'"
    using onReceiveProgressiveData_loads [OF assms(1)] onReceiveData_loads(1) [OF assms(1)] assms(2,3) by (auto simp: receive_def receive_start_def split: option.splits)
  show "set (ck_loaded c') = set (ck_loaded c) \<union> {receive_start start c div s..<if e < length F then e div s else (e + s - Suc 0) div s}"
  proof (cases start)
    case None
    have "(if length F \<le> e then ck_numChunks c else e div s) = (if e < length F then e div s else (e + s - Suc 0) div s)" using e c(3) by auto
    then show ?thesis
      using assms(2) None c(2) by (auto simp: receive_def receive_start_def onReceiveProgressiveData_def Let_def rbind_eq_Inr add_chunks e_def s_def)
  next
    case (Some b)
    then have d: "stream_onReceiveData b data c = Inr c'" "e = b + length data" using assms(2) by (simp_all add: receive_def e_def receive_start_def)
    then have "e mod s = 0 \<or> e = length F" using c(2) by (auto simp: stream_onReceiveData_def s_def Let_def split: if_splits)
    then have "end_chunk s e = (if e < length F then e div s else (e + s - Suc 0) div s)"
      using e c(1) by (intro less_iff_eq) (auto simp: end_chunk_count [OF c(1)] chunk_count [OF c(1)] div_less_iff_less_mult [OF c(1)] less_mult_imp_div_less mult.commute
          elim!: dvdE simp: mod_eq_0_iff_dvd)
    then show ?thesis using onReceiveData_loads(2) [OF assms(1) d(1)] assms(3) Some d(2) by (simp add: receive_start_def s_def)
  qed
qed

lemma onReceiveData_eq:
  "onReceiveData start data m =
     (let s = mg_stream m; size = ck_chunkSize s; b = receive_start start s; e = b + length data;
          endChunk = (if e < mg_length m then e div size else (e + size - 1) div size)
      in rbind (receive start data s) (\<lambda>s.
         let m = (if isDataLoaded s then settle_loaded Resolved (m\<lparr>mg_stream := s\<rparr>) else m\<lparr>mg_stream := s\<rparr>)
         in rbind (arrive_chunks [b div size..<endChunk] (m, [])) (\<lambda>(m, loadedRequests).
            rbind (resolve_all loadedRequests (auto_fetch endChunk m)) (\<lambda>m.
              Inr (m\<lparr>mg_progress := mg_progress m @
                [min (max (numChunksLoaded (mg_stream m) * size) (ck_progressive (mg_stream m))) (mg_length m)]\<rparr>)))))"
  by (simp add: onReceiveData_def receive_def receive_start_def Let_def split: option.split)

lemma auto_fetch_cases: "auto_fetch e m = m \<or> (\<exists>chunk. auto_fetch e m = snd (requestChunks [chunk] m))"
  by (auto simp: auto_fetch_def Let_def split: option.split)

lemma auto_fetch_core:
  assumes "mg_core F m"
  obtains nd where "mg_core F (auto_fetch e m)" and "mg_stream (auto_fetch e m) = mg_stream m" and "mg_settled (auto_fetch e m) = mg_settled m"
    and "map_of (mg_needed m) \<subseteq>\<^sub>m map_of (mg_needed (auto_fetch e m))"
    and "mg_promises (auto_fetch e m) = mg_promises m @ (if nd = [] then [] else [mg_currRequestId m])"
    and "\<And>j. needed_of (mg_needed (auto_fetch e m)) j = (if j = mg_currRequestId m then nd else needed_of (mg_needed m) j)"
proof -
  have fresh: "map_of (mg_needed m) (mg_currRequestId m) = None" using assms unfolding mg_core_def by (metis less_irrefl)
  consider "auto_fetch e m = m" | chunk where "auto_fetch e m = snd (requestChunks [chunk] m)" using auto_fetch_cases by blast
  then show thesis
  proof cases
    case 1
    have "needed_of (mg_needed m) j = (if j = mg_currRequestId m then [] else needed_of (mg_needed m) j)" for j
      using fresh by (simp add: needed_of_def)
    then show ?thesis using that [of "[]"] 1 assms by simp
  next
    case 2
    then have r: "requestChunks [chunk] m = (fst (requestChunks [chunk] m), auto_fetch e m)" by simp
    obtain nd where nd: "mg_core F (auto_fetch e m)" "mg_stream (auto_fetch e m) = mg_stream m" "mg_settled (auto_fetch e m) = mg_settled m"
      "map_of (mg_needed (auto_fetch e m)) = (map_of (mg_needed m))(mg_currRequestId m \<mapsto> nd)"
      "mg_promises (auto_fetch e m) = mg_promises m @ (if nd = [] then [] else [mg_currRequestId m])"
      using requestChunks_core [OF assms r] by metis
    have "needed_of (mg_needed (auto_fetch e m)) j = (if j = mg_currRequestId m then nd else needed_of (mg_needed m) j)" for j
      using nd(4) by (simp add: needed_of_def)
    moreover have "map_of (mg_needed m) \<subseteq>\<^sub>m map_of (mg_needed (auto_fetch e m))" using fresh unfolding nd(4) map_le_def by auto
    ultimately show ?thesis using that nd(1,2,3,5) by blast
  qed
qed

lemma onReceiveData_inv:
  assumes "mg_inv F m" and "receive start data (mg_stream m) = Inr s'" and "data = take (length data) (drop (receive_start start (mg_stream m)) F)"
  shows "\<exists>m'. onReceiveData start data m = Inr m' \<and> mg_stream m' = s' \<and> mg_inv F m' \<and> moves_on m m'"
proof -
  let ?s = "ck_chunkSize (mg_stream m)" and ?b = "receive_start start (mg_stream m)"
  define E where "E = (if ?b + length data < length F then (?b + length data) div ?s else (?b + length data + ?s - 1) div ?s)"
  let ?ks = "[?b div ?s..<E]"
  have core: "loads F (mg_stream m)" "mg_length m = length F" "books (mg_needed m) (mg_byChunk m)"
      "\<And>k. hasChunk k (mg_stream m) \<Longrightarrow> map_of (mg_byChunk m) k = None" "\<And>i. map_of (mg_needed m) i \<noteq> None \<Longrightarrow> i < mg_currRequestId m"
    and prom: "distinct (mg_promises m)" "\<And>i. i \<in> set (mg_promises m) \<longleftrightarrow> needed_of (mg_needed m) i \<noteq> []"
    using assms(1) by (auto simp: mg_inv_def mg_core_def)
  have s': "loads F s'" "set (ck_loaded s') = set (ck_loaded (mg_stream m)) \<union> set ?ks"
    using receive_loads [OF core(1) assms(2,3)] by (simp_all add: E_def)
  define m1 where "m1 = (if isDataLoaded s' then settle_loaded Resolved (m\<lparr>mg_stream := s'\<rparr>) else m\<lparr>mg_stream := s'\<rparr>)"
  have m1: "mg_stream m1 = s'" "mg_length m1 = mg_length m" "mg_needed m1 = mg_needed m" "mg_byChunk m1 = mg_byChunk m"
    "mg_promises m1 = mg_promises m" "mg_settled m1 = mg_settled m" "mg_currRequestId m1 = mg_currRequestId m" by (simp_all add: m1_def)
  obtain nd bc ds where a: "arrive_chunks ?ks (m1, []) = Inr (m1\<lparr>mg_byChunk := bc, mg_needed := nd\<rparr>, ds)" "books nd bc"
      "\<forall>k. map_of bc k = (if k \<in> set ?ks then None else map_of (mg_byChunk m) k)"
      "\<forall>i. map_of nd i = None \<longleftrightarrow> map_of (mg_needed m) i = None"
      "\<forall>i. set (needed_of nd i) = set (needed_of (mg_needed m) i) - set ?ks"
      "distinct ds" "set ds = {i. needed_of (mg_needed m) i \<noteq> [] \<and> needed_of nd i = []}"
    using arrive_chunks_eq [of m1 ?ks "[]"] core(3) unfolding m1 append_Nil by blast
  define m2 where "m2 = m1\<lparr>mg_byChunk := bc, mg_needed := nd\<rparr>"
  have m2: "mg_stream m2 = s'" "mg_length m2 = mg_length m" "mg_needed m2 = nd" "mg_byChunk m2 = bc"
    "mg_promises m2 = mg_promises m" "mg_settled m2 = mg_settled m" "mg_currRequestId m2 = mg_currRequestId m" by (simp_all add: m2_def m1)
  have "mg_core F m2"
    using s' core(2,4,5) a(2-4) unfolding mg_core_def hasChunk_def m2 by auto
  then obtain nw where f: "mg_core F (auto_fetch E m2)" "mg_stream (auto_fetch E m2) = s'" "mg_settled (auto_fetch E m2) = mg_settled m"
      "map_of nd \<subseteq>\<^sub>m map_of (mg_needed (auto_fetch E m2))"
      "mg_promises (auto_fetch E m2) = mg_promises m @ (if nw = [] then [] else [mg_currRequestId m])"
      "\<And>j. needed_of (mg_needed (auto_fetch E m2)) j = (if j = mg_currRequestId m then nw else needed_of nd j)"
    using auto_fetch_core [of F m2 E] unfolding m2 by blast
  have ds: "set ds \<subseteq> set (mg_promises m)" using a(7) prom(2) by auto
  then have "set ds \<subseteq> set (mg_promises (auto_fetch E m2))" using f(5) by auto
  from resolve_all_eq [OF a(6) this] obtain m3 where r: "resolve_all ds (auto_fetch E m2) = Inr m3"
      "mg_promises m3 = filter (\<lambda>i. i \<notin> set ds) (mg_promises (auto_fetch E m2))" "mg_stream m3 = s'" "mg_length m3 = mg_length (auto_fetch E m2)"
      "mg_needed m3 = mg_needed (auto_fetch E m2)" "mg_byChunk m3 = mg_byChunk (auto_fetch E m2)"
      "mg_currRequestId m3 = mg_currRequestId (auto_fetch E m2)"
      "\<forall>i v. map_of (mg_settled m) i = Some v \<longrightarrow> map_of (mg_settled m3) i = Some v" "\<forall>i \<in> set ds. map_of (mg_settled m3) i \<noteq> None"
    using f(2,3) by auto
  let ?m' = "m3\<lparr>mg_progress := mg_progress m3 @ [min (max (numChunksLoaded (mg_stream m3) * ?s) (ck_progressive (mg_stream m3))) (mg_length m3)]\<rparr>"
  have eq: "onReceiveData start data m = Inr ?m'"
    using assms(2) a(1) r(1) core(2) by (simp add: onReceiveData_eq Let_def E_def m1_def m2_def)
  have new: "needed_of (mg_needed m) (mg_currRequestId m) = []" "needed_of nd (mg_currRequestId m) = []"
    using core(5) a(4) unfolding needed_of_def by (metis less_irrefl option.exhaust option.simps(4))+
  have "i \<in> set (mg_promises m3) \<longleftrightarrow> needed_of (mg_needed m3) i \<noteq> []" for i
  proof -
    have "needed_of (mg_needed m) i = [] \<Longrightarrow> needed_of nd i = []" using spec [OF a(5), of i] by simp
    then show ?thesis unfolding r(2,5) f(5,6) using new a(7) prom(2) by auto
  qed
  moreover have "distinct (mg_promises m3)" unfolding r(2) f(5) using prom new(1) by auto
  moreover have "mg_core F m3" using f(1,2) r(3-7) by (simp add: mg_core_def)
  ultimately have inv: "mg_inv F ?m'" by (simp add: mg_inv_def mg_core_def)
  have "\<exists>ns'. map_of (mg_needed m3) i = Some ns' \<and> set ns' = set ns - set (ck_loaded s')" if ns: "map_of (mg_needed m) i = Some ns" for i ns
  proof -
    obtain ns' where n: "map_of nd i = Some ns'" using spec [OF a(4), of i] ns by auto
    then have "map_of (mg_needed m3) i = Some ns'" using f(4) unfolding r(5) by (metis domI map_le_def)
    moreover have "set ns - set (ck_loaded (mg_stream m)) = set ns" using needed_missing [of F m i ns] assms(1) ns by (simp add: mg_inv_def)
    then have "set ns' = set ns - set (ck_loaded s')" using spec [OF a(5), of i] n ns s'(2) by (auto simp: needed_of_def)
    ultimately show ?thesis by blast
  qed
  then have "moves_on m ?m'"
    unfolding moves_on_def using s'(2) r(3,8,9) r(2) f(5) by auto
  then show ?thesis using eq inv r(3) by auto
qed

section \<open>Runs\<close>

lemma inv_sent:
  assumes "mg_inv F m"
  shows "mg_inv F (m\<lparr>mg_sent := ss\<rparr>)" and "moves_on m (m\<lparr>mg_sent := ss\<rparr>)"
  using assms moves_on_same [of F m "m\<lparr>mg_sent := ss\<rparr>"] by (simp_all add: mg_inv_def mg_core_def)

lemma settle_inv:
  assumes "mg_inv F m"
  shows "mg_inv F (settle v i m)" and "moves_on m (settle v i m)"
proof -
  show "mg_inv F (settle v i m)" using assms by (simp add: mg_inv_def mg_core_def)
  have "map_of (mg_settled m) \<subseteq>\<^sub>m map_of (mg_settled (settle v i m))" by (auto simp: map_le_def settle_settled)
  then show "moves_on m (settle v i m)" using moves_on_same [of F m "settle v i m"] assms by (simp add: mg_inv_def)
qed

lemma moves_on_refl: "mg_inv F m \<Longrightarrow> moves_on m m"
  using inv_sent(2) [of F m "mg_sent m"] by simp

lemma abort_inv:
  assumes "mg_inv F m"
  shows "mg_inv F (abort m)" and "moves_on m (abort m)"
proof -
  have "mg_inv F (foldl (\<lambda>m i. settle Rejected i m) m ids) \<and> moves_on m (foldl (\<lambda>m i. settle Rejected i m) m ids)" if "mg_inv F m" for ids m
    using that
  proof (induction ids arbitrary: m)
    case (Cons i ids)
    then show ?case using settle_inv [OF Cons.prems, of Rejected i] moves_on_trans by auto
  qed (simp add: moves_on_refl)
  moreover have "mg_inv F (m\<lparr>mg_aborted := True\<rparr>)" using assms by (simp add: mg_inv_def mg_core_def)
  moreover have "moves_on (m\<lparr>mg_aborted := True\<rparr>) x \<Longrightarrow> moves_on m x" for x by (simp add: moves_on_def)
  moreover have "mg_inv F x \<Longrightarrow> mg_inv F (settle_loaded v x)" "moves_on y x \<Longrightarrow> moves_on y (settle_loaded v x)" for x y v
    by (simp_all add: mg_inv_def mg_core_def moves_on_def)
  ultimately show "mg_inv F (abort m)" "moves_on m (abort m)" unfolding abort_def by blast+
qed

lemma onReceiveData_fails:
  assumes "receive start data (mg_stream m) = Inl e"
  shows "onReceiveData start data m = Inl e"
  using assms by (simp add: onReceiveData_eq Let_def)

lemma answered_inv:
  assumes "mg_inv F m" and "concat pieces = take n (drop b F)"
  shows "mg_inv F (answered (b, e, i) pieces m) \<and> moves_on m (answered (b, e, i) pieces m)"
proof -
  let ?m = "m\<lparr>mg_sent := remove1 (b, e, i) (mg_sent m)\<rparr>"
  note m = inv_sent [OF assms(1), of "remove1 (b, e, i) (mg_sent m)"]
  have d: "concat pieces = take (length (concat pieces)) (drop (receive_start (Some b) (mg_stream ?m)) F)"
    unfolding assms(2) by (simp add: receive_start_def min_def)
  show ?thesis
  proof (cases "receive (Some b) (concat pieces) (mg_stream ?m)")
    case (Inl x)
    then show ?thesis
      using m settle_inv [OF m(1), of Rejected i] moves_on_trans onReceiveData_fails [OF Inl] unfolding answered_def Let_def by auto
  next
    case (Inr s')
    then obtain m' where "onReceiveData (Some b) (concat pieces) ?m = Inr m'" "mg_inv F m'" "moves_on ?m m'"
      using onReceiveData_inv [OF m(1) Inr d] by auto
    then show ?thesis using m moves_on_trans unfolding answered_def Let_def by auto
  qed
qed

lemma sendProgressiveData_inv:
  assumes "mg_inv F m" and "data = take n (drop (ck_progressive (mg_stream m)) F)"
  shows "mg_inv F (sendProgressiveData data m) \<and> moves_on m (sendProgressiveData data m)"
proof (cases "receive None data (mg_stream m)")
  case (Inl x)
  then show ?thesis using onReceiveData_fails [OF Inl] assms(1) moves_on_refl by (simp add: sendProgressiveData_def)
next
  case (Inr s')
  have "data = take (length data) (drop (receive_start None (mg_stream m)) F)" unfolding assms(2) by (simp add: receive_start_def min_def)
  from onReceiveData_inv [OF assms(1) Inr this] show ?thesis by (auto simp: sendProgressiveData_def)
qed

lemma mg_step_inv:
  assumes "mg_inv F m" and "mg_step F m m'"
  shows "mg_inv F m' \<and> moves_on m m'"
proof -
  have r: "mg_inv F (snd (requestChunks chunks m)) \<and> moves_on m (snd (requestChunks chunks m))" for chunks
    using requestChunks_inv [OF assms(1)] requestChunks_moves_on assms(1) unfolding mg_inv_def by (metis prod.collapse)
  show ?thesis
    using assms(2)
  proof cases
    case (failure s)
    then show ?thesis
      using inv_sent [OF assms(1), of "remove1 s (mg_sent m)"] settle_inv moves_on_trans by (cases s) (auto simp: failed_def)
  qed (use r answered_inv [OF assms(1)] sendProgressiveData_inv [OF assms(1)] abort_inv [OF assms(1)] moves_on_refl [OF assms(1)] assms(1) in
      \<open>auto simp: requestRange_def requestRanges_def requestAllChunks_def\<close>)
qed

lemma mg_run_inv:
  assumes "mg_run F m m'" and "mg_inv F m"
  shows "mg_inv F m' \<and> moves_on m m'"
  using assms
proof (induction rule: mg_run.induct)
  case (more m m1 m2)
  then show ?case using mg_step_inv moves_on_trans by blast
qed (simp add: moves_on_refl)

lemma mk_manager_inv: "0 < s \<Longrightarrow> mg_inv F (mk_manager (length F) s d)"
  by (simp add: mg_inv_def mg_core_def mk_manager_def mk_chunked_loads books_def requests_of_def needed_of_def)

end
