(* ===== verification/Chunked_Loading.thy ===== *)
theory Chunked_Loading
  imports Chunked_Requests
begin

text \<open>
  Reading a file while it is loaded: the requests of the manager, the reads of the stream and the
  retries of \<open>NetworkPdfManager.ensure\<close> together.
\<close>

section \<open>Retrying\<close>

text \<open>
  \<open>NetworkPdfManager.ensure\<close>: a computation that throws \<open>MissingDataException\<close> is run again after the
  promise of \<open>requestRange\<close> for its range, which leaves the stream as \<open>await\<close> says.  The fuel bounds the
  number of runs.
\<close>

fun ensure :: "nat \<Rightarrow> (chunked \<Rightarrow> 'a loading) \<Rightarrow> (nat \<Rightarrow> nat \<Rightarrow> chunked \<Rightarrow> chunked) \<Rightarrow> chunked \<Rightarrow> ('a \<times> chunked) option" where
  "ensure 0 f await c = None"
| "ensure (Suc n) f await c =
     (case f c of
        Inr x \<Rightarrow> Some (x, c)
      | Inl (MissingDataException b e) \<Rightarrow> ensure n f await (await b e c))"










section \<open>Requests\<close>

text \<open>
  C11: a request waits for what it asked for: whatever is requested, arrives, fails or is aborted
  afterwards, the promise of a request for chunks is kept exactly as long as one of them has not
  arrived, and is settled when it is given up; a request that returns without a promise had all of
  its chunks.
\<close>

theorem request_waits:
  assumes "mg_run F (mk_manager (length F) s d) m" and "0 < s" and "requestChunks chunks m = (r, m1)" and "mg_run F m1 m2"
  shows "case r of
      None \<Rightarrow> \<forall>k \<in> set chunks. hasChunk k (mg_stream m2)
    | Some i \<Rightarrow> (i \<in> set (mg_promises m2) \<longleftrightarrow> (\<exists>k \<in> set chunks. \<not> hasChunk k (mg_stream m2))) \<and>
        (i \<in> set (mg_promises m2) \<or> map_of (mg_settled m2) i \<noteq> None)"
proof -
  have m: "mg_inv F m" using mg_run_inv [OF assms(1)] mk_manager_inv [OF assms(2)] by simp
  obtain nd where nd: "mg_stream m1 = mg_stream m" "map_of (mg_needed m1) = (map_of (mg_needed m))(mg_currRequestId m \<mapsto> nd)"
      "set nd = set chunks - set (ck_loaded (mg_stream m))" "mg_promises m1 = mg_promises m @ (if nd = [] then [] else [mg_currRequestId m])"
      "r = (if nd = [] then None else Some (mg_currRequestId m))"
    using requestChunks_core [OF _ assms(3)] m unfolding mg_inv_def by metis
  have i: "mg_inv F m2" and a: "moves_on m1 m2" using mg_run_inv [OF assms(4) requestChunks_inv [OF m assms(3)]] by auto
  have "map_of (mg_needed m1) (mg_currRequestId m) = Some nd" by (simp add: nd(2))
  then obtain nd' where nd': "map_of (mg_needed m2) (mg_currRequestId m) = Some nd'" "set nd' = set nd - set (ck_loaded (mg_stream m2))"
    using a unfolding moves_on_def by blast
  have l: "set (ck_loaded (mg_stream m)) \<subseteq> set (ck_loaded (mg_stream m2))" using a nd(1) by (simp add: moves_on_def)
  have "mg_currRequestId m \<in> set (mg_promises m2) \<longleftrightarrow> nd' \<noteq> []" using i nd'(1) by (simp add: mg_inv_def needed_of_def)
  also have "\<dots> \<longleftrightarrow> (\<exists>k \<in> set chunks. \<not> hasChunk k (mg_stream m2))" using nd(3) nd'(2) l by (auto simp: hasChunk_def simp flip: set_empty)
  finally have p: "mg_currRequestId m \<in> set (mg_promises m2) \<longleftrightarrow> (\<exists>k \<in> set chunks. \<not> hasChunk k (mg_stream m2))" .
  show ?thesis
  proof (cases "nd = []")
    case True
    then show ?thesis using nd(3,5) l by (auto simp: hasChunk_def)
  next
    case False
    then have "mg_currRequestId m \<in> set (mg_promises m1)" using nd(4) by simp
    then have "mg_currRequestId m \<in> set (mg_promises m2) \<or> map_of (mg_settled m2) (mg_currRequestId m) \<noteq> None" using a unfolding moves_on_def by blast
    then show ?thesis using False nd(5) p by simp
  qed
qed

definition demo_file :: bytes where
  "demo_file = [1, 2, 3]"

lemma demo_length [simp]: "length demo_file = 3"
  by (simp add: demo_file_def)

definition demo_requested :: manager where
  "demo_requested = snd (requestChunks [0, 1] (mk_manager 3 2 True))"

definition demo_answered :: manager where
  "demo_answered = answered (0, 3, 0) [[1, 2], [3]] demo_requested"

lemma demo_states:
  "fst (requestChunks [0, 1] (mk_manager 3 2 True)) = Some 0" "mg_sent demo_requested = [(0, 3, 0)]"
  "hasChunk 0 (mg_stream demo_answered)" "hasChunk 1 (mg_stream demo_answered)"
  by code_simp+

theorem request_waits_witness: "0 \<notin> set (mg_promises demo_answered) \<and> map_of (mg_settled demo_answered) 0 \<noteq> None"
proof -
  have r: "requestChunks [0, 1] (mk_manager 3 2 True) = (Some 0, demo_requested)"
    using demo_states(1) by (simp add: demo_requested_def prod_eq_iff)
  have "mg_step demo_file demo_requested demo_answered"
    unfolding demo_answered_def using demo_states(2)
    by (intro mg_step.answer [where n = 3]) (simp_all add: demo_file_def)
  then have "mg_run demo_file demo_requested demo_answered" using mg_run.start mg_run.more by blast
  from request_waits [OF _ _ r this, of 2 True] show ?thesis
    using demo_states(3,4) mg_run.start [of demo_file "mk_manager 3 2 True"] by auto
qed

section \<open>Reading\<close>




section \<open>What goes wrong\<close>

lemma loaded_end:
  assumes "loads F c" and "ck_numChunks c * ck_chunkSize c \<le> p"
  shows "length F \<le> p"
proof (rule ccontr)
  assume "\<not> length F \<le> p"
  then have "p div ck_chunkSize c < ck_numChunks c" using loadsD(3) [OF assms(1), of p] by simp
  moreover have "ck_numChunks c \<le> p div ck_chunkSize c" using assms(2) loadsD(1) [OF assms(1)] by (simp add: less_eq_div_iff_mult_less_eq)
  ultimately show False by simp
qed

text \<open>
  C37: a position in the chunk after the last one is asked for forever: the guard of \<open>ensureByte\<close> lets
  that chunk pass as missing, the request for it has nothing to load and is resolved at once, and the
  retry throws again.
\<close>

theorem past_end_loops:
  assumes "mg_run F (mk_manager (length F) s d) m" and "0 < s" and "p div ck_chunkSize (mg_stream m) = ck_numChunks (mg_stream m)"
    and "cursor_ok F (mg_stream m) cu"
  shows "ensure n (\<lambda>c. ck_makeSubStream p None c cu) (\<lambda>b e c. mg_stream (snd (requestRange b e (m\<lparr>mg_stream := c\<rparr>)))) (mg_stream m) = None"
proof -
  let ?c = "mg_stream m"
  have inv: "loads F ?c" "mg_length m = length F" using mg_run_inv [OF assms(1)] mk_manager_inv [OF assms(2)] by (auto simp: mg_inv_def mg_core_def)
  have le: "ck_numChunks ?c * ck_chunkSize ?c \<le> p" using assms(3) by (metis div_times_less_eq_dividend)
  have len: "length F \<le> p" by (rule loaded_end [OF inv(1) le])
  have no: "\<not> hasChunk (ck_numChunks ?c) ?c" using inv(1) by (auto simp: loads_def hasChunk_def)
  have f: "ck_makeSubStream p None ?c cu = Inl (MissingDataException p (p + 1))"
    using assms(3,4) no inv(1) len by (auto simp: ck_makeSubStream_def ensureByte_def Let_def cursor_ok_def loads_def)
  have "range_chunks p (p + 1) m = []"
  proof -
    have "ck_numChunks ?c = (length F + ck_chunkSize ?c - Suc 0) div ck_chunkSize ?c" using inv(1) by (simp add: loads_def)
    then have "\<not> ck_numChunks ?c < end_chunk (ck_chunkSize ?c) (length F)"
      using end_chunk_count [OF loadsD(1) [OF inv(1)]] chunk_count [OF loadsD(1) [OF inv(1)], of "ck_numChunks ?c" "length F"] by simp
    then show ?thesis using assms(3) len inv(2) by (simp add: range_chunks_def getBeginChunk_def getEndChunk_def)
  qed
  then have "mg_stream (snd (requestRange p (p + 1) m)) = ?c" by (simp add: requestRange_def requestChunks_def Let_def)
  then show ?thesis using f by (induction n) simp_all
qed

theorem past_end_loops_witness:
  "ensure 100 (\<lambda>c. ck_makeSubStream 5 None c (mk_cursor 3)) (\<lambda>b e c. mg_stream (snd (requestRange b e ((mk_manager 3 2 True)\<lparr>mg_stream := c\<rparr>))))
     (mg_stream (mk_manager 3 2 True)) = None"
proof -
  have c: "5 div ck_chunkSize (mg_stream (mk_manager 3 2 True)) = ck_numChunks (mg_stream (mk_manager 3 2 True))"
    by (simp add: mk_manager_def mk_chunked_def)
  have "cursor_ok demo_file (mg_stream (mk_manager 3 2 True)) (mk_cursor 3)" by (simp add: cursor_ok_def mk_cursor_def)
  from past_end_loops [OF _ _ c this, of 2 True 100] show ?thesis
    using mg_run.start [of demo_file "mk_manager 3 2 True"] by simp
qed

text \<open>
  C38: a chunk whose range could not be read is lost for all requests: the failure rejects the promise
  of the request that sent the range, but the chunk stays booked, so that a new request for it waits
  and sends nothing.
\<close>

theorem failed_chunk_stalls:
  assumes "mg_run F (mk_manager (length F) s d) m" and "0 < s" and "r \<in> set (mg_sent m)" and "map_of (mg_byChunk m) k \<noteq> None"
  shows "\<exists>i m1. requestChunks [k] (failed r m) = (Some i, m1) \<and> i \<in> set (mg_promises m1) \<and> mg_sent m1 = remove1 r (mg_sent m)"
proof -
  let ?m = "failed r m"
  have "mg_inv F m" using mg_run_inv [OF assms(1)] mk_manager_inv [OF assms(2)] by simp
  then have "\<not> hasChunk k (mg_stream m)" using assms(4) by (auto simp: mg_inv_def mg_core_def)
  moreover have "mg_stream ?m = mg_stream m" "mg_byChunk ?m = mg_byChunk m" "mg_sent ?m = remove1 r (mg_sent m)"
    by (simp_all add: failed_def split: prod.split)
  ultimately show ?thesis using assms(4) by (simp add: requestChunks_def groupChunks_def add_chunk_def Let_def)
qed

theorem failed_chunk_stalls_witness:
  "\<exists>i m1. requestChunks [1] (failed (0, 3, 0) demo_requested) = (Some i, m1) \<and> i \<in> set (mg_promises m1) \<and> mg_sent m1 = []"
proof -
  have "mg_run demo_file (mk_manager 3 2 True) (mk_manager 3 2 True)" by (rule mg_run.start)
  then have "mg_run demo_file (mk_manager 3 2 True) (snd (requestRange 0 3 (mk_manager 3 2 True)))" using mg_step.range mg_run.more by blast
  moreover have "snd (requestRange 0 3 (mk_manager 3 2 True)) = demo_requested"
    by (simp add: demo_requested_def requestRange_def range_chunks_def getBeginChunk_def getEndChunk_def mk_manager_def mk_chunked_def end_chunk_def numeral_2_eq_2)
  moreover have "map_of (mg_byChunk demo_requested) 1 \<noteq> None" by code_simp
  ultimately show ?thesis
    using failed_chunk_stalls [of demo_file 2 True demo_requested "(0, 3, 0)" 1] demo_states(2) by simp
qed

end
