(* ===== verification/Visible_Pages.thy ===== *)
theory Visible_Pages
  imports Js_Prelude "HOL-Library.Multiset" "HOL-Library.Product_Lexorder"
begin

text \<open>
  Which pages are visible (\<open>web/ui_utils.js\<close> of the viewer): the binary search for the first page below
  the top of the window, the way back to the start of its row, and the scan that measures the visible
  part of every page until one starts behind the window.

  Positions are rationals: sums and comparisons of the pixel positions of the browser are exact in
  doubles.  The quotients and products of the visible fractions are rounded by the parameter \<open>fl\<close>.
  Indices are below \<open>2^30\<close>, where \<open>(a + b) >> 1\<close> is the mean.
\<close>

section \<open>Binary search\<close>

function search_loop :: "'a list \<Rightarrow> ('a \<Rightarrow> bool) \<Rightarrow> nat \<Rightarrow> nat \<Rightarrow> nat" where
  "search_loop items cond minIndex maxIndex =
     (if minIndex < maxIndex then
        let currentIndex = (minIndex + maxIndex) div 2
        in if cond (items ! currentIndex) then search_loop items cond minIndex currentIndex
           else search_loop items cond (currentIndex + 1) maxIndex
      else minIndex)"
  by pat_completeness auto

termination
  by (relation "measure (\<lambda>(items, cond, minIndex, maxIndex). maxIndex - minIndex)") auto

declare search_loop.simps [simp del]

text \<open>The start is an index of the list, if it has elements.\<close>

definition binarySearchFirstItem :: "'a list \<Rightarrow> ('a \<Rightarrow> bool) \<Rightarrow> nat \<Rightarrow> nat" where
  "binarySearchFirstItem items cond start =
     (if items = [] \<or> \<not> cond (last items) then length items
      else if cond (items ! start) then start
      else search_loop items cond start (length items - 1))"

section \<open>Views\<close>

record element =
  el_offsetLeft :: rat
  el_offsetTop :: rat
  el_clientLeft :: rat
  el_clientTop :: rat
  el_clientWidth :: rat
  el_clientHeight :: rat

record view =
  vw_id :: nat
  vw_div :: element

record scroll_el =
  sc_scrollTop :: rat
  sc_scrollLeft :: rat
  sc_clientHeight :: rat
  sc_clientWidth :: rat

definition view_left :: "view \<Rightarrow> rat" where
  "view_left v = el_offsetLeft (vw_div v) + el_clientLeft (vw_div v)"

definition view_top :: "view \<Rightarrow> rat" where
  "view_top v = el_offsetTop (vw_div v) + el_clientTop (vw_div v)"

definition view_right :: "view \<Rightarrow> rat" where
  "view_right v = view_left v + el_clientWidth (vw_div v)"

definition view_bottom :: "view \<Rightarrow> rat" where
  "view_bottom v = view_top v + el_clientHeight (vw_div v)"

definition win_bottom :: "scroll_el \<Rightarrow> rat" where
  "win_bottom s = sc_scrollTop s + sc_clientHeight s"

definition win_right :: "scroll_el \<Rightarrow> rat" where
  "win_right s = sc_scrollLeft s + sc_clientWidth s"

text \<open>The loop back over the views that reach below the top of the row.\<close>

fun back_loop :: "view list \<Rightarrow> rat \<Rightarrow> nat \<Rightarrow> nat \<Rightarrow> nat" where
  "back_loop views pageTop 0 index = index"
| "back_loop views pageTop (Suc i) index =
     (if view_bottom (views ! i) \<le> pageTop then index else back_loop views pageTop i i)"

definition backtrackBeforeAllVisibleElements :: "nat \<Rightarrow> view list \<Rightarrow> rat \<Rightarrow> nat" where
  "backtrackBeforeAllVisibleElements index views t =
     (if index < 2 then index
      else
        let pageTop = (if t \<le> view_top (views ! index) then view_top (views ! (index - 1)) else view_top (views ! index))
        in back_loop views pageTop (index - 1) index)"

section \<open>The visible part of a view\<close>

record visible_item =
  vi_id :: nat
  vi_x :: rat
  vi_y :: rat
  vi_area :: "(rat \<times> rat \<times> rat \<times> rat) option"
  vi_view :: view
  vi_percent :: int
  vi_widthPercent :: int

definition rat_toInt :: "rat \<Rightarrow> int" where
  "rat_toInt x = (if 0 \<le> x then \<lfloor>x\<rfloor> else \<lceil>x\<rceil>)"

definition outside :: "scroll_el \<Rightarrow> view \<Rightarrow> bool" where
  "outside s v \<longleftrightarrow> view_bottom v \<le> sc_scrollTop s \<or> win_bottom s \<le> view_top v \<or> view_right v \<le> sc_scrollLeft s \<or> win_right s \<le> view_left v"

definition visible_part :: "(rat \<Rightarrow> rat) \<Rightarrow> scroll_el \<Rightarrow> view \<Rightarrow> visible_item" where
  "visible_part fl s v =
     (let minY = max 0 (sc_scrollTop s - view_top v);
          minX = max 0 (sc_scrollLeft s - view_left v);
          hiddenHeight = minY + max 0 (view_bottom v - win_bottom s);
          hiddenWidth = minX + max 0 (view_right v - win_right s);
          viewHeight = el_clientHeight (vw_div v);
          viewWidth = el_clientWidth (vw_div v);
          fractionHeight = fl ((viewHeight - hiddenHeight) / viewHeight);
          fractionWidth = fl ((viewWidth - hiddenWidth) / viewWidth);
          percent = rat_toInt (fl (fl (fractionHeight * fractionWidth) * 100))
      in \<lparr>vi_id = vw_id v, vi_x = view_left v, vi_y = view_top v,
          vi_area = (if percent = 100 then None
            else Some (minX, minY, min (view_right v) (win_right s) - view_left v, min (view_bottom v) (win_bottom s) - view_top v)),
          vi_view = v, vi_percent = percent, vi_widthPercent = rat_toInt (fl (fractionWidth * 100))\<rparr>)"

text \<open>The scan from the first visible view on; -1 stands for an edge that is not known yet.\<close>

fun scan_views :: "(rat \<Rightarrow> rat) \<Rightarrow> scroll_el \<Rightarrow> bool \<Rightarrow> rat \<Rightarrow> view list \<Rightarrow> visible_item list" where
  "scan_views fl s horizontal lastEdge [] = []"
| "scan_views fl s horizontal lastEdge (v # views) =
     (let stop = (lastEdge \<noteq> -1 \<and> lastEdge < (if horizontal then view_left v else view_top v));
          lastEdge = (if lastEdge = -1 \<and> win_bottom s \<le> view_bottom v then view_bottom v else lastEdge)
      in if stop then []
         else (if outside s v then [] else [visible_part fl s v]) @ scan_views fl s horizontal lastEdge views)"

record visible_views =
  vv_first :: "visible_item option"
  vv_last :: "visible_item option"
  vv_views :: "visible_item list"
  vv_ids :: "nat list"

text \<open>
  The order of \<open>visibleSort\<close>: the percentages are integers, so that two of them differ by more than
  0.001 exactly when they are not equal.
\<close>

definition first_index :: "scroll_el \<Rightarrow> view list \<Rightarrow> bool \<Rightarrow> bool \<Rightarrow> nat" where
  "first_index s views horizontal rtl =
     (let i = binarySearchFirstItem views
                (\<lambda>v. if horizontal then (if rtl then view_left v < win_right s else sc_scrollLeft s < view_right v)
                     else sc_scrollTop s < view_bottom v) 0
      in if 0 < i \<and> i < length views \<and> \<not> horizontal then backtrackBeforeAllVisibleElements i views (sc_scrollTop s) else i)"

definition getVisibleElements :: "(rat \<Rightarrow> rat) \<Rightarrow> scroll_el \<Rightarrow> view list \<Rightarrow> bool \<Rightarrow> bool \<Rightarrow> bool \<Rightarrow> visible_views" where
  "getVisibleElements fl s views sortByVisibility horizontal rtl =
     (let visible = scan_views fl s horizontal (if horizontal then win_right s else -1) (drop (first_index s views horizontal rtl) views)
      in \<lparr>vv_first = (if visible = [] then None else Some (hd visible)), vv_last = (if visible = [] then None else Some (last visible)),
          vv_views = (if sortByVisibility then sort_key (\<lambda>x. (- vi_percent x, vi_id x)) visible else visible),
          vv_ids = remdups (map vi_id visible)\<rparr>)"

section \<open>The search finds an edge\<close>



section \<open>The visible views\<close>




text \<open>
  Pages in rows, as the style sheet sets spreads, centred on a line: the views of a row overlap along the direction of scrolling, and a row ends before the
  next one starts.  In a row the pages may have any heights.
\<close>

definition in_rows :: "(view \<Rightarrow> nat) \<Rightarrow> view list \<Rightarrow> bool" where
  "in_rows row views \<longleftrightarrow> sorted (map row views) \<and>
     list_all (\<lambda>u. list_all (\<lambda>v. (row u = row v \<longrightarrow> view_top u < view_bottom v) \<and> (row u < row v \<longrightarrow> view_bottom u \<le> view_top v)) views) views"














definition demo_window :: scroll_el where
  "demo_window = \<lparr>sc_scrollTop = 150, sc_scrollLeft = 0, sc_clientHeight = 200, sc_clientWidth = 80\<rparr>"

definition demo_view :: "nat \<Rightarrow> rat \<Rightarrow> rat \<Rightarrow> view" where
  "demo_view i t h = \<lparr>vw_id = i, vw_div = \<lparr>el_offsetLeft = 0, el_offsetTop = t, el_clientLeft = 0, el_clientTop = 0,
     el_clientWidth = 80, el_clientHeight = h\<rparr>\<rparr>"


lemmas demo_view_simps = demo_view_def demo_window_def view_top_def view_bottom_def view_left_def view_right_def win_bottom_def win_right_def


text \<open>
  C39: when the top of the window is below the end of the last page, \<open>getVisibleElements\<close> returns nothing,
  although the page beside it, if it is longer, can fill the window: the binary search gives up when the
  last page does not fulfil the condition.
\<close>

theorem last_page_hides_row:
  assumes "views \<noteq> []" and "view_bottom (last views) \<le> sc_scrollTop s"
  shows "vv_views (getVisibleElements fl s views sortByVisibility False rtl) = []"
proof -
  have "first_index s views False rtl = length views" using assms by (simp add: first_index_def binarySearchFirstItem_def Let_def not_less)
  then show ?thesis by (simp add: getVisibleElements_def)
qed

theorem last_page_hides_row_witness:
  "\<not> outside demo_window (demo_view 1 0 400) \<and> in_rows (\<lambda>_. 0) [demo_view 1 0 400, demo_view 2 0 100] \<and>
   vv_views (getVisibleElements id demo_window [demo_view 1 0 400, demo_view 2 0 100] True False False) = []"
proof -
  have "vv_views (getVisibleElements id demo_window [demo_view 1 0 400, demo_view 2 0 100] True False False) = []"
    by (rule last_page_hides_row) (simp_all add: demo_view_simps)
  then show ?thesis by (simp add: outside_def in_rows_def demo_view_simps)
qed

end
