(* ===== verification/Rendering_Queue.thy ===== *)
theory Rendering_Queue
  imports Visible_Pages
begin

text \<open>
  The rendering queue of the viewer (\<open>web/pdf_rendering_queue.js\<close>), with the parts of the viewer and of
  the page views that it works with: which view is rendered next, how it is started, paused, resumed
  and finished, and that rendering goes on until nothing is left.

  A page is its number from 1; its view may have a detail view.  Thumbnails are not shown.
\<close>

section \<open>Views\<close>

datatype RenderingStates = INITIAL | RUNNING | PAUSED | FINISHED

text \<open>The state of the view of a page, and of its detail view if it has one.\<close>

record page_view =
  pv_state :: RenderingStates
  pv_detail :: "RenderingStates option"

text \<open>A view that can be rendered: its \<open>renderingId\<close> names a page or the detail of a page.\<close>

datatype renderable = PageOf nat | DetailOf nat




section \<open>What is rendered next\<close>

text \<open>The visible pages in the order of their priority, the first and the last of them in the document.\<close>

record visible_pages =
  vp_views :: "nat list"
  vp_first :: nat
  vp_last :: nat





section \<open>The queue\<close>


definition set_state :: "renderable \<Rightarrow> RenderingStates \<Rightarrow> page_view list \<Rightarrow> page_view list" where
  "set_state v st views = (case v of
     PageOf n \<Rightarrow> views[n - 1 := (views ! (n - 1))\<lparr>pv_state := st\<rparr>]
   | DetailOf n \<Rightarrow> views[n - 1 := (views ! (n - 1))\<lparr>pv_detail := Some st\<rparr>])"







section \<open>Runs\<close>

definition window_ok :: "nat \<Rightarrow> visible_pages \<Rightarrow> bool" where
  "window_ok n vis \<longleftrightarrow> vp_views vis = [] \<or>
     list_all (\<lambda>i. 1 \<le> i \<and> i \<le> n) (vp_views vis) \<and> 1 \<le> vp_first vis \<and> vp_first vis \<le> vp_last vis \<and> vp_last vis \<le> n"



section \<open>Where the window comes from\<close>

text \<open>
  What the viewer hands to the queue is the result of \<open>getVisibleElements\<close> on its pages; pages have the
  numbers from 1 on.
\<close>

definition pages_of :: "visible_views \<Rightarrow> visible_pages" where
  "pages_of r = \<lparr>vp_views = map vi_id (vv_views r), vp_first = (case vv_first r of None \<Rightarrow> 0 | Some x \<Rightarrow> vi_id x),
     vp_last = (case vv_last r of None \<Rightarrow> 0 | Some x \<Rightarrow> vi_id x)\<rparr>"

lemma scan_ids:
  assumes "sorted_wrt (<) (map vw_id views)"
  shows "set (map vi_id (scan_views fl s h e views)) \<subseteq> set (map vw_id views) \<and> sorted_wrt (<) (map vi_id (scan_views fl s h e views))"
  using assms
proof (induction views arbitrary: e)
  case (Cons v views)
  define ys where "ys = scan_views fl s h (if e = -1 \<and> win_bottom s \<le> view_bottom v then view_bottom v else e) views"
  have ys: "set (map vi_id ys) \<subseteq> set (map vw_id views)" "sorted_wrt (<) (map vi_id ys)"
    using Cons unfolding ys_def by simp_all
  have "\<forall>y \<in> set (map vw_id views). vw_id v < y" using Cons.prems by simp
  then have lt: "\<forall>y \<in> set (map vi_id ys). vw_id v < y" using ys(1) by blast
  have "scan_views fl s h e (v # views) = [] \<or> scan_views fl s h e (v # views) = ys \<or>
      (\<exists>x. vi_id x = vw_id v \<and> scan_views fl s h e (v # views) = x # ys)"
    unfolding ys_def by (simp add: Let_def visible_part_def)
  then show ?case
  proof (elim disjE exE conjE)
    fix x assume "vi_id x = vw_id v" and "scan_views fl s h e (v # views) = x # ys"
    then show ?case using ys lt by (auto simp del: scan_views.simps)
  next
    assume "scan_views fl s h e (v # views) = ys"
    then show ?case using ys by (auto simp del: scan_views.simps)
  next
    assume "scan_views fl s h e (v # views) = []"
    then show ?case by (simp del: scan_views.simps)
  qed
qed simp

lemma visible_window_ok:
  assumes "map vw_id views = [1..<Suc n]"
  shows "window_ok n (pages_of (getVisibleElements fl s views sortByVisibility horizontal rtl))"
proof -
  define xs where "xs = scan_views fl s horizontal (if horizontal then win_right s else -1) (drop (first_index s views horizontal rtl) views)"
  let ?r = "getVisibleElements fl s views sortByVisibility horizontal rtl"
  have d: "map vw_id (drop (first_index s views horizontal rtl) views) = drop (first_index s views horizontal rtl) [1..<Suc n]"
    using assms by (simp add: drop_map [symmetric])
  have "sorted_wrt (<) (drop (first_index s views horizontal rtl) [1..<Suc n])" by (intro sorted_wrt_drop) (simp del: upt_Suc)
  then have "set (map vi_id xs) \<subseteq> set (drop (first_index s views horizontal rtl) [1..<Suc n])" and o: "sorted_wrt (<) (map vi_id xs)"
    using scan_ids [of "drop (first_index s views horizontal rtl) views" fl s horizontal "if horizontal then win_right s else -1"] d
    unfolding xs_def by auto
  then have b: "\<forall>x \<in> set xs. 1 \<le> vi_id x \<and> vi_id x \<le> n" using set_drop_subset [of "first_index s views horizontal rtl" "[1..<Suc n]"] by fastforce
  have v: "set (vv_views ?r) = set xs" "vv_views ?r = [] \<longleftrightarrow> xs = []"
    unfolding getVisibleElements_def Let_def xs_def [symmetric] by (simp_all flip: length_0_conv)
  have f: "vv_first ?r = (if xs = [] then None else Some (hd xs))" "vv_last ?r = (if xs = [] then None else Some (last xs))"
    unfolding getVisibleElements_def Let_def xs_def by simp_all
  have "vi_id (hd xs) \<le> vi_id (last xs)" if "xs \<noteq> []" using that o by (cases xs) (auto simp: less_imp_le)
  then show ?thesis using b v f by (auto simp: window_ok_def pages_of_def list_all_iff)
qed

section \<open>Rendering goes on\<close>



lemma length_set_state [simp]: "length (set_state v st views) = length views"
  by (simp add: set_state_def split: renderable.split)


























end
