(* ===== verification/Spec2Isabelle.thy ===== *)
theory Spec2Isabelle
  imports Highlight Ascii_Filters Sha512_Refinement Security_Handler Fixed_Codes Lzw Update_Roundtrip Chunked_Loading
    Rendering_Queue
begin

text \<open>
  Verification of the document viewer of the research orchestrator: the JavaScript under
  \<open>src/services/research-orchestrator/static/pdfjs/\<close>.  Its own page, \<open>web/highlight.mjs\<close>, shows one
  page of a paper with boxes around a cited excerpt; it stands on the pdf.js library, whose worker
  (\<open>build/pdf.worker.mjs\<close>) reads and writes documents and whose display layer (\<open>build/pdf.mjs\<close>)
  places pages on the screen.

  \<^bold>\<open>How the parts interact.\<close>  The page asks the display layer for a page and a viewport, the server for
  boxes, and renders and draws in response to events.  The worker reads a file through byte streams;
  the lexer and the parser make objects of the bytes; the cross-reference table finds an object by its
  reference, reading its sections from the end of the file, and the security handler deciphers strings
  and streams with keys derived from a password by digests and ciphers; filters decode the data of
  streams.  Saving writes changed objects with the writer, encrypting them, and appends them with a new
  section of the table, which the same reader must then find.

  \<^bold>\<open>Theories, definitions and source.\<close>  Definitions have the names of the functions and methods they
  translate, with a prefix where two classes share a name; an object is a record, a method takes the
  record and returns it updated, a throw is \<open>Inl\<close> of an error, and what a loop without a bound of its
  own needs is fuel or a partial function, with \<open>None\<close> for no result.
  \<^item> \<open>Js_Prelude\<close>, \<open>Js_Numbers\<close>: typed arrays, 32-bit integers, errors and strings; Numbers as
    rationals, infinities and NaN with the rounding as a parameter \<open>fl\<close>, \<open>fl64\<close> being that of doubles.
  \<^item> \<open>Highlight\<close> (\<open>highlight.mjs\<close>): parameters, \<open>normalizeBoxes\<close>, \<open>fitViewport\<close>, \<open>drawHighlights\<close>, and
    \<open>start\<close>, \<open>renderPage\<close>, the timer and the observer as a transition relation \<open>app_step\<close>; \<open>Viewport\<close>
    (\<open>Util\<close>, \<open>PageViewport\<close> of \<open>pdf.mjs\<close>).
  \<^item> \<open>Streams\<close> (\<open>base_stream.js\<close>, \<open>stream.js\<close>, \<open>decode_stream.js\<close>), and the decoders on top of them:
    \<open>Ascii_Filters\<close>, \<open>Flate\<close> with \<open>Huffman\<close> and \<open>Fixed_Codes\<close>, \<open>Lzw\<close>, \<open>Predictor\<close>, \<open>Crypt_Streams\<close>.
  \<^item> \<open>Digests\<close>, \<open>Sha512_Refinement\<close>, \<open>Ciphers\<close>, \<open>Aes_Inverse\<close>, \<open>Cipher_Modes\<close>, \<open>Key_Derivation\<close>,
    \<open>Security_Handler\<close> (\<open>calculate_*.js\<close>, \<open>crypto.js\<close>, \<open>sasl_prep.js\<close>).
  \<^item> \<open>Primitives\<close>, \<open>Lexer\<close>, \<open>Inline_Images\<close>, \<open>Parser\<close>, \<open>Writer\<close> (\<open>primitives.js\<close>, \<open>parser.js\<close>,
    \<open>writer.js\<close>); \<open>Tokens\<close>, \<open>Parse_Print\<close>, \<open>Object_Roundtrip\<close> prove that parsing inverts writing.
  \<^item> \<open>Xref\<close>, \<open>Xref_Laws\<close>, \<open>Fetch_Roundtrip\<close> (\<open>xref.js\<close>); \<open>Incremental_Update\<close>, \<open>Update_Table\<close>,
    \<open>Update_Roundtrip\<close> (\<open>incrementalUpdate\<close> and what it calls, in \<open>writer.js\<close>).
  \<^item> \<open>Chunked_Stream\<close>, \<open>Chunked_Manager\<close>, \<open>Chunked_Loading\<close> (\<open>chunked_stream.js\<close>, \<open>ensure\<close> of
    \<open>NetworkPdfManager\<close>), with their laws in \<open>Chunked_Laws\<close> and \<open>Chunked_Requests\<close>: a file that arrives in
    pieces, the requests for its chunks, and the retries of a computation that met missing data.
  \<^item> \<open>Visible_Pages\<close>, \<open>Rendering_Queue\<close> (\<open>getVisibleElements\<close> and \<open>PDFRenderingQueue\<close> of \<open>viewer.mjs\<close>): which
    pages are visible, which is rendered next, and \<open>rq_step\<close>, the events that move rendering on.

  \<^bold>\<open>What is shown.\<close>
  \<^item> The page: at most one render task runs and it is the one the state names; the overlay belongs to
    the viewport on display; \<open>start\<close> never gets stuck; boxes are finite, ordered and inside the page.
  \<^item> Saving and reading: what \<open>writeValue\<close> prints \<open>getObj\<close> reads, encrypted or not; an update only
    appends, its table is read back, and a saved object is fetched as it was saved; an entry once read
    is never replaced; a fetch returns and leaves nothing pending.
  \<^item> Loading: a computation on a partly loaded file, retried after the ranges it misses, returns what it
    returns on the whole file; a request waits exactly for its chunks.
  \<^item> The viewer: the pages found are exactly those in the window, though only a part is searched; rendering
    stops only when every visible page is rendered.
  \<^item> Security: the passwords a document was made with open it in revisions 2 to 6; decryption inverts
    encryption for RC4 and AES, on strings, blocks, and streams read in any chunks; SHA-512 on halves
    of words is SHA-512 on words; the hash of revision 6 returns.
  \<^item> Filters: every decoder gives back, in any pattern of reads, what an encoder of its format wrote
    (base 85, hexadecimal, run lengths, stored and fixed DEFLATE blocks, canonical Huffman codes, LZW,
    PNG and TIFF predictors), and DEFLATE reads return on all input.
  \<^item> Errors of the code, as theorems: a scan that never ends, lost bytes of a partial cipher block,
    bytes of a stored block that are skipped, zeros after LZW data without an end code, a status that
    counts boxes that are not drawn, a subsection that is read one entry too low, a position behind the
    file that is asked for forever, requests that wait forever after a range has failed, a row of pages that
    is not found when its last page is short.

  \<^bold>\<open>Interfaces.\<close>  \<open>block_decoder\<close> (\<open>Streams\<close>) is what a \<open>DecodeStream\<close> asks of a filter: from its laws
  on \<open>readBlock\<close> follows that all reads return the decoded bytes; eight filters are instances.
  \<open>block_cipher\<close> (\<open>Cipher_Modes\<close>) gives chaining and padding for a cipher with an inverse, \<open>key_hash\<close>
  (\<open>Key_Derivation\<close>) the unwrapping of keys for both hashes, \<open>js_map\<close> (\<open>Primitives\<close>) the laws of a map
  for \<open>Dict\<close> and \<open>RefMap\<close>, \<open>exact_integers\<close> (\<open>Tokens\<close>) the reading of numbers for a rounding that is
  exact below \<open>2^53\<close>, and \<open>xref_order\<close> (\<open>Xref_Laws\<close>) what every operation of the table keeps.

  \<^bold>\<open>Bounds and fuel.\<close>  Lengths of messages and keys are below \<open>2^31\<close>, where the code uses 32-bit
  arithmetic for them; the code buffer of DEFLATE holds at most 22 bits; the hash of revision 6 ends
  after at most 287 rounds, as its test is on a byte; integers in a document are below \<open>2^53\<close>.  The
  parser and the writer take the depth of nesting as fuel, the reader of the table the number of its
  sections, a fetch the length of the chain of object streams, which is at most the number of entries:
  theorems about them say that some fuel is enough and every larger one gives the same result.

  \<^bold>\<open>Parameters.\<close>  Unicode normalisation, the random initialisation vectors, the deflation of
  \<open>CompressionStream\<close>, the time of day, the answers of the server and the events of the browser; the
  resolution of references inside dictionaries while a section is parsed (\<open>look\<close>) and the decoded
  stream of an object (\<open>opened\<close>), which lead back into the table and the filters.

  \<^bold>\<open>Not modelled.\<close>  \<open>XRef.indexObjects\<close>, which rebuilds a table by regular expressions, and \<open>XRef.parse\<close>
  with it; the wrapping of a stream object in its filters and its cipher (\<open>Parser.makeFilter\<close>), where
  the model keeps the raw bytes; properties that only serve as keys of caches (\<open>objId\<close>, \<open>cacheKey\<close>);
  positions of a file below 0, which the code reads as \<open>undefined\<close>; \<open>XRef.fetchAsync\<close>, which is a fetch
  inside the \<open>ensure\<close> of \<open>Chunked_Loading\<close>; thumbnails and views that are cancelled or reset.  The
  image codecs are external code; fonts, colours, images, patterns and the evaluator of page contents
  have no contract in the sources beyond what is drawn; the rest of the viewer, the editors, forms, annotations and
  the message handler are user interface and transport.  The services in Python and the configuration of
  the cluster around the viewer are outside this development.
\<close>

end
